(* ===== verification/Prelude.thy ===== *)
theory Prelude
  imports Main "HOL-Library.Word" "HOL-Library.Monad_Syntax" "HOL-Library.Multiset"
begin

text \<open>
  The vocabulary every component shares: bytes and machine integers, the two-byte and
  eight-byte big-endian codings of the wire protocol and of stored deadlines, checked reads
  of a C buffer, and the scripted environment (allocator, clock, socket) against which the
  server code runs.  The generic list and multiset lemmas used by several components are at
  the end.
\<close>

unbundle bit_operations_syntax

named_theorems buf_simps \<open>reads and slices of byte buffers\<close>
named_theorems env_simps \<open>the scripted environment\<close>
named_theorems wire_simps \<open>big-endian codings\<close>

section \<open>Bytes and machine integers\<close>

type_synonym byte = "8 word"
type_synonym bytes = "byte list"
type_synonym u64 = "64 word"

abbreviation (input) INT64_MAX :: int where "INT64_MAX \<equiv> 9223372036854775807"
abbreviation (input) INT64_MIN :: int where "INT64_MIN \<equiv> - 9223372036854775808"
abbreviation (input) UINT16_MAX :: nat where "UINT16_MAX \<equiv> 65535"

text \<open>A C string literal as the bytes it denotes, without the terminating NUL.\<close>

definition bytes_of_string :: "string \<Rightarrow> bytes" where
  "bytes_of_string s = map of_char s"

lemma unat_exp2: "k < 64 \<Longrightarrow> unat (2 ^ k :: u64) = 2 ^ k"
proof -
  assume k: "k < 64"
  have "unat (of_nat (2 ^ k) :: u64) = 2 ^ k mod 2 ^ 64"
    by (simp only: unat_of_nat len_num0 len_num1 len_bit0 len_bit1) simp
  also have "\<dots> = 2 ^ k" using k by (intro mod_less power_strict_increasing) simp_all
  finally show ?thesis by simp
qed

section \<open>Big-endian codings\<close>

text \<open>
  \<open>put_u16 n\<close> is the pair of stores \<open>n >> 8 & 0xFF\<close>, \<open>n & 0xFF\<close>; \<open>get_u16\<close> is the
  expression \<open>hi << 8 | lo\<close> that every frame parser of the program uses.
\<close>

definition put_u16 :: "nat \<Rightarrow> bytes" where
  "put_u16 n = [of_nat (drop_bit 8 n), of_nat n]"

definition get_u16 :: "byte \<Rightarrow> byte \<Rightarrow> nat" where
  "get_u16 hi lo = push_bit 8 (unat hi) OR unat lo"

lemma byte_less: "unat (b :: byte) < 2 ^ 8"
  using unsigned_less [of b] by simp

lemma get_u16_arith: "get_u16 hi lo = 256 * unat hi + unat lo"
proof -
  have lo: "unat lo < 2 ^ 8" by (rule byte_less)
  have "push_bit 8 (unat hi) OR unat lo = push_bit 8 (unat hi) + unat lo"
  proof (rule disjunctive_add [symmetric])
    fix n
    have "\<not> bit (unat lo) n" if "8 \<le> n"
      using lo that by (metis bit_take_bit_iff linorder_not_less take_bit_nat_eq_self)
    then show "\<not> bit (push_bit 8 (unat hi)) n \<or> \<not> bit (unat lo) n"
      by (auto simp: bit_push_bit_iff)
  qed
  then show ?thesis by (simp add: get_u16_def push_bit_eq_mult)
qed

lemma get_u16_less [simp]: "get_u16 hi lo < 65536"
proof -
  have "unat hi < 256" "unat lo < 256"
    using byte_less [of hi] byte_less [of lo] by simp_all
  then show ?thesis by (simp add: get_u16_arith)
qed

lemma length_put_u16 [simp]: "length (put_u16 n) = 2"
  by (simp add: put_u16_def)

lemma get_put_u16 [wire_simps]:
  "n \<le> UINT16_MAX \<Longrightarrow> get_u16 (of_nat (drop_bit 8 n)) (of_nat n) = n"
proof -
  assume n: "n \<le> UINT16_MAX"
  have "unat (of_nat (drop_bit 8 n) :: byte) = n div 256"
    using n by (simp add: unat_of_nat drop_bit_eq_div)
  moreover have "unat (of_nat n :: byte) = n mod 256" by (simp add: unat_of_nat)
  ultimately show ?thesis by (simp add: get_u16_arith)
qed

section \<open>Checked reads of a buffer\<close>

text \<open>
  A handler gets a pointer into the client's read buffer.  A read outside that array is
  undefined behaviour in C; it is the value \<open>None\<close> here, so that memory safety is a
  statement about the result.
\<close>

definition rd :: "bytes \<Rightarrow> nat \<Rightarrow> byte option" where
  "rd buf i = (if i < length buf then Some (buf ! i) else None)"

definition slice :: "bytes \<Rightarrow> nat \<Rightarrow> nat \<Rightarrow> bytes option" where
  "slice buf p n = (if p + n \<le> length buf then Some (take n (drop p buf)) else None)"

definition rd_u16 :: "bytes \<Rightarrow> nat \<Rightarrow> nat option" where
  "rd_u16 buf i = do { hi \<leftarrow> rd buf i; lo \<leftarrow> rd buf (i + 1); Some (get_u16 hi lo) }"

lemma rd_Some [buf_simps]: "i < length buf \<Longrightarrow> rd buf i = Some (buf ! i)"
  by (simp add: rd_def)

lemma slice_Some [buf_simps]:
  "p + n \<le> length buf \<Longrightarrow> slice buf p n = Some (take n (drop p buf))"
  by (simp add: slice_def)

lemma rd_u16_Some [buf_simps]:
  "i + 1 < length buf \<Longrightarrow> rd_u16 buf i = Some (get_u16 (buf ! i) (buf ! (i + 1)))"
  by (simp add: rd_u16_def rd_def)

lemma rd_u16_put [buf_simps]:
  "n \<le> UINT16_MAX \<Longrightarrow> length a = i \<Longrightarrow> rd_u16 (a @ put_u16 n @ b) i = Some n"
  by (simp add: rd_u16_def rd_def nth_append put_u16_def get_put_u16)

lemma slice_mid [buf_simps]:
  "length a = p \<Longrightarrow> length b = n \<Longrightarrow> slice (a @ b @ c) p n = Some b"
  by (simp add: slice_def)

lemma slice_length: "slice buf p n = Some s \<Longrightarrow> length s = n"
  by (auto simp: slice_def split: if_splits)

lemma slice_iff: "(\<exists>s. slice buf p n = Some s) \<longleftrightarrow> p + n \<le> length buf"
  by (simp add: slice_def)

text \<open>Reads below \<open>n\<close> see the first \<open>n\<close> bytes only, and reads inside the buffer succeed.\<close>

lemma rd_take: "i < n \<Longrightarrow> rd (take n buf) i = rd buf i"
  by (simp add: rd_def)

lemma rd_u16_take: "i + 1 < n \<Longrightarrow> rd_u16 (take n buf) i = rd_u16 buf i"
  by (simp add: rd_u16_def rd_take)

lemma slice_take: "p + m \<le> n \<Longrightarrow> slice (take n buf) p m = slice buf p m"
  by (simp add: slice_def take_drop min_def)

lemmas take_simps = rd_take rd_u16_take slice_take

lemma slice_prefix: "slice buf p n = Some s \<Longrightarrow> m \<le> n \<Longrightarrow> slice buf p m = Some (take m s)"
  by (auto simp: slice_def min_def split: if_splits)

lemma bind_total: "\<exists>x. m = Some x \<Longrightarrow> (\<And>x. m = Some x \<Longrightarrow> \<exists>y. f x = Some y) \<Longrightarrow> \<exists>y. Option.bind m f = Some y"
  by auto

lemma reads_total:
  "i < length buf \<Longrightarrow> \<exists>b. rd buf i = Some b" "i + 1 < length buf \<Longrightarrow> \<exists>m. rd_u16 buf i = Some m"
  "p + m \<le> length buf \<Longrightarrow> \<exists>s. slice buf p m = Some s"
  by (simp_all add: buf_simps)

lemma if_disj: "(if a \<or> b then x else y) = (if a then x else if b then x else y)"
  by simp

section \<open>The scripted environment\<close>

text \<open>
  What the operating system decides is an input: a script of allocator outcomes, of clock
  readings and of results of \<open>send\<close>.  A script that is used up goes on with success, with
  the last reading and with "would block".  \<open>env_time\<close> is what \<open>time(NULL)\<close> returns and
  \<open>env_maxrss\<close> what \<open>getrusage\<close> reports, in KiB.  Every finite run of the code is the run
  for some script, and every theorem is for all of them.
\<close>

type_synonym allocs = "bool list"

fun alloc :: "allocs \<Rightarrow> bool \<times> allocs" where
  "alloc [] = (True, [])"
| "alloc (ok # rest) = (ok, rest)"

text \<open>\<open>calloc(n, m)\<close> also fails when \<open>n * m\<close> bytes do not fit \<open>size_t\<close>.\<close>

definition calloc :: "nat \<Rightarrow> nat \<Rightarrow> allocs \<Rightarrow> bool \<times> allocs" where
  "calloc n m a = (let (ok, a) = alloc a in (ok \<and> n * m < 2 ^ 64, a))"

datatype send_result = Sent nat | Send_again | Send_intr | Send_error

datatype recv_result = Recv_data bytes | Recv_eof | Recv_again | Recv_intr | Recv_error

record env =
  env_allocs :: allocs
  env_clock :: "int list"
  env_now :: int
  env_sends :: "send_result list"
  env_time :: int
  env_maxrss :: nat

text \<open>\<open>fkvs_now_ms\<close>: one reading of \<open>CLOCK_REALTIME\<close> in milliseconds.\<close>

definition fkvs_now_ms :: "env \<Rightarrow> int \<times> env" where
  "fkvs_now_ms e = (case env_clock e of
       [] \<Rightarrow> (env_now e, e)
     | t # ts \<Rightarrow> (t, e\<lparr>env_clock := ts, env_now := t\<rparr>))"

definition env_alloc :: "env \<Rightarrow> bool \<times> env" where
  "env_alloc e = (let (ok, a) = alloc (env_allocs e) in (ok, e\<lparr>env_allocs := a\<rparr>))"

text \<open>No allocation fails: the script has no failure left.\<close>

definition alloc_safe :: "allocs \<Rightarrow> bool" where
  "alloc_safe a \<longleftrightarrow> (\<forall>ok \<in> set a. ok)"

lemma alloc_safeD [env_simps]:
  "alloc_safe a \<Longrightarrow> fst (alloc a) \<and> alloc_safe (snd (alloc a))"
  by (cases a) (auto simp: alloc_safe_def)

lemma alloc_safe_Nil [simp]: "alloc_safe []"
  by (simp add: alloc_safe_def)

section \<open>Lists and multisets\<close>

lemma mset_concat_update:
  "i < length bs \<Longrightarrow> mset (concat (bs[i := c])) + mset (bs ! i) = mset (concat bs) + mset c"
proof (induction bs arbitrary: i)
  case Nil
  then show ?case by simp
next
  case (Cons b bs)
  then show ?case
    by (cases i) (auto simp: ac_simps)
qed

text \<open>Two exchanges of a part of a multiset compose.\<close>

lemma mset_exchange:
  fixes A B C H S S' :: "'a multiset"
  assumes "A + S = H + S'" and "S' + B = S + C"
  shows "A + B = H + C"
proof -
  have "(A + B) + S = (A + S) + B" by (simp add: ac_simps)
  also have "\<dots> = H + (S' + B)" by (simp only: assms(1) add.assoc)
  also have "\<dots> = (H + C) + S" by (simp only: assms(2)) (simp add: ac_simps)
  finally show ?thesis by simp
qed

lemma set_concat_nth: "x \<in> set (concat bs) \<longleftrightarrow> (\<exists>i < length bs. x \<in> set (bs ! i))"
  by (induction bs) (auto simp: in_set_conv_nth [of _ "_ :: _ list list"] less_Suc_eq_0_disj)

lemma distinct_map_mset:
  "mset xs = mset ys \<Longrightarrow> distinct (map f xs) \<longleftrightarrow> distinct (map f ys)"
  by (metis mset_eq_imp_distinct_iff mset_map)

lemma map_of_mset:
  assumes "mset xs = mset ys" and "distinct (map fst xs)"
  shows "map_of xs = map_of ys"
proof
  fix k
  from assms have d: "distinct (map fst ys)"
    using distinct_map_mset by blast
  from assms(1) have s: "set xs = set ys" by (metis set_mset_mset)
  show "map_of xs k = map_of ys k"
    using assms(2) d s by (metis map_of_eq_Some_iff not_Some_eq)
qed

end
