(* ===== verification/Hashtable.thy ===== *)
theory Hashtable
  imports Prelude
begin

text \<open>
  \<open>src/core/hashtable.c\<close>: the separate-chaining hash table with incremental resizing.
  A chain of nodes is the list of its entries, a bucket array the list of its chains, a
  pointer to a node the triple of sub-table, bucket and position.  Model first, then the
  invariant \<open>ht_inv\<close>, the abstraction \<open>ht_map\<close> to a finite map, and the laws of every
  operation against that map.
\<close>

section \<open>The data\<close>

text \<open>
  \<open>ve_ptr\<close> is the inline storage of a value: its bytes and one pad byte.  The three
  bit-fields keep their widths.  An entry owns its key, and its \<open>value\<close> pointer is never
  NULL: nodes are created with one and it is only ever replaced.
\<close>

record value_entry =
  ve_ptr :: bytes
  ve_type :: "4 word"
  ve_encoding :: "4 word"
  ve_expirable :: "1 word"
  ve_value_len :: nat

record hash_table_entry =
  he_key :: bytes
  he_value :: value_entry

type_synonym chain = "hash_table_entry list"

text \<open>
  \<open>buckets[t]\<close>, \<open>size[t]\<close> and \<open>used[t]\<close> for one \<open>t\<close>; a NULL bucket array is
  \<open>None\<close>.  Sizes and counts are those of allocated memory, far below the range of
  \<open>size_t\<close>; the hash itself is a 64-bit word and wraps.
\<close>

record subtable =
  st_buckets :: "chain list option"
  st_size :: nat
  st_used :: nat

record hashtable =
  ht_sub0 :: subtable
  ht_sub1 :: subtable
  ht_rehash_index :: int

abbreviation (input) VALUE_ENTRY_TYPE_INT :: int where "VALUE_ENTRY_TYPE_INT \<equiv> 1"
abbreviation (input) VALUE_ENTRY_TYPE_RAW :: int where "VALUE_ENTRY_TYPE_RAW \<equiv> 2"

definition ht_sub :: "hashtable \<Rightarrow> nat \<Rightarrow> subtable" where
  "ht_sub h t = (if t = 0 then ht_sub0 h else ht_sub1 h)"

definition ht_set_sub :: "hashtable \<Rightarrow> nat \<Rightarrow> subtable \<Rightarrow> hashtable" where
  "ht_set_sub h t s = (if t = 0 then h\<lparr>ht_sub0 := s\<rparr> else h\<lparr>ht_sub1 := s\<rparr>)"

definition st_array :: "subtable \<Rightarrow> chain list" where
  "st_array s = (case st_buckets s of None \<Rightarrow> [] | Some bs \<Rightarrow> bs)"

definition st_bucket :: "subtable \<Rightarrow> nat \<Rightarrow> chain" where
  "st_bucket s i = st_array s ! i"

definition st_set_bucket :: "subtable \<Rightarrow> nat \<Rightarrow> chain \<Rightarrow> subtable" where
  "st_set_bucket s i c = s\<lparr>st_buckets := Some ((st_array s)[i := c])\<rparr>"

definition empty_subtable :: subtable where
  "empty_subtable = \<lparr>st_buckets = None, st_size = 0, st_used = 0\<rparr>"

section \<open>Hashing\<close>

definition djb2 :: "bytes \<Rightarrow> u64" where
  "djb2 key = foldl (\<lambda>hash c. (push_bit 5 hash + hash) + ucast c) 5381 key"

definition fold_index :: "u64 \<Rightarrow> nat \<Rightarrow> nat" where
  "fold_index hash sz = unat (hash AND (of_nat sz - 1))"

definition next_pow2 :: "u64 \<Rightarrow> u64" where
  "next_pow2 n =
     (if n < 2 then 1
      else let n = n - 1;
               n = n OR drop_bit 1 n;
               n = n OR drop_bit 2 n;
               n = n OR drop_bit 4 n;
               n = n OR drop_bit 8 n;
               n = n OR drop_bit 16 n;
               n = n OR drop_bit 32 n
           in n + 1)"

definition is_rehashing :: "hashtable \<Rightarrow> bool" where
  "is_rehashing h \<longleftrightarrow> ht_rehash_index h \<noteq> -1"

definition hash_function :: "bytes \<Rightarrow> u64 \<Rightarrow> u64" where
  "hash_function key table_size =
     (if table_size = 0 then 0 else djb2 key mod table_size)"

section \<open>Creation and value entries\<close>

definition create_hash_table :: "u64 \<Rightarrow> allocs \<Rightarrow> hashtable option \<times> allocs" where
  "create_hash_table sz a =
     (if sz = 0 then (None, a)
      else let (ok, a) = alloc a in
        if \<not> ok then (None, a)
        else let cap = next_pow2 sz; (ok, a) = calloc (unat cap) 8 a in
          if \<not> ok then (None, a)
          else (Some \<lparr>ht_sub0 = \<lparr>st_buckets = Some (replicate (unat cap) []),
                                st_size = unat cap, st_used = 0\<rparr>,
                     ht_sub1 = empty_subtable,
                     ht_rehash_index = -1\<rparr>, a))"

definition make_value_entry :: "bytes \<Rightarrow> int \<Rightarrow> allocs \<Rightarrow> value_entry option \<times> allocs" where
  "make_value_entry data enc a =
     (let (ok, a) = alloc a in
      if \<not> ok then (None, a)
      else (Some \<lparr>ve_ptr = data @ [0], ve_type = 0, ve_encoding = of_int enc,
                 ve_expirable = 0, ve_value_len = length data\<rparr>, a))"

text \<open>The bytes a reader of the entry sees: \<open>value_len\<close> bytes from \<open>ptr\<close>.\<close>

definition ve_data :: "value_entry \<Rightarrow> bytes" where
  "ve_data v = take (ve_value_len v) (ve_ptr v)"

section \<open>Incremental resizing\<close>

definition rehash_finalize :: "hashtable \<Rightarrow> hashtable" where
  "rehash_finalize h =
     h\<lparr>ht_sub0 := ht_sub1 h, ht_sub1 := empty_subtable, ht_rehash_index := -1\<rparr>"

text \<open>
  The loop that skips empty buckets: the new index, and whether ten empty buckets were
  visited, in which case the step returns at once.
\<close>

function rehash_skip :: "chain list \<Rightarrow> nat \<Rightarrow> nat \<Rightarrow> nat \<Rightarrow> nat \<times> bool" where
  "rehash_skip bs sz ri empty_visited =
     (if ri < sz \<and> bs ! ri = []
      then if empty_visited + 1 \<ge> 10 then (ri + 1, True)
           else rehash_skip bs sz (ri + 1) (empty_visited + 1)
      else (ri, False))"
  by pat_completeness auto
termination
  by (relation "measure (\<lambda>(bs, sz, ri, ev). sz - ri)") auto

declare rehash_skip.simps [simp del]

text \<open>The loop that relinks the nodes of one chain at the heads of their new buckets.\<close>

fun rehash_move :: "chain \<Rightarrow> hashtable \<Rightarrow> hashtable" where
  "rehash_move [] h = h"
| "rehash_move (entry # next) h =
     (let s0 = ht_sub0 h; s1 = ht_sub1 h;
          j = fold_index (djb2 (he_key entry)) (st_size s1);
          s1 = st_set_bucket s1 j (entry # st_bucket s1 j)
      in rehash_move next
           (h\<lparr>ht_sub0 := s0\<lparr>st_used := st_used s0 - 1\<rparr>,
              ht_sub1 := s1\<lparr>st_used := st_used s1 + 1\<rparr>\<rparr>))"

definition rehash_step :: "hashtable \<Rightarrow> hashtable" where
  "rehash_step h =
     (if \<not> is_rehashing h then h
      else let size0 = st_size (ht_sub0 h);
               (ri, stop) = rehash_skip (st_array (ht_sub0 h)) size0 (nat (ht_rehash_index h)) 0;
               h = h\<lparr>ht_rehash_index := int ri\<rparr>
           in if stop then h
              else if ri \<ge> size0 then rehash_finalize h
              else let h = rehash_move (st_bucket (ht_sub0 h) ri) h;
                       h = h\<lparr>ht_sub0 := st_set_bucket (ht_sub0 h) ri [],
                             ht_rehash_index := int (ri + 1)\<rparr>
                   in if ri + 1 \<ge> size0 then rehash_finalize h else h)"

function grow_size :: "nat \<Rightarrow> nat \<Rightarrow> nat" where
  "grow_size new_size target =
     (if 0 < new_size \<and> new_size < target then grow_size (2 * new_size) target else new_size)"
  by pat_completeness auto
termination
  by (relation "measure (\<lambda>(n, target). target - n)") auto

declare grow_size.simps [simp del]

definition maybe_start_rehash :: "hashtable \<Rightarrow> allocs \<Rightarrow> hashtable \<times> allocs" where
  "maybe_start_rehash h a =
     (if is_rehashing h then (h, a)
      else let s0 = ht_sub0 h;
               new_size = grow_size (if st_size s0 \<noteq> 0 then st_size s0 else 1) (st_used s0 * 2);
               (ok, a) = calloc new_size 8 a
           in if \<not> ok then (h, a)
              else (h\<lparr>ht_sub1 := \<lparr>st_buckets = Some (replicate new_size []),
                                  st_size = new_size, st_used = 0\<rparr>,
                      ht_rehash_index := 0\<rparr>, a))"

section \<open>Lookup, insertion and deletion\<close>

type_synonym entry_ptr = "nat \<times> nat \<times> nat"

fun chain_find :: "bytes \<Rightarrow> chain \<Rightarrow> nat option" where
  "chain_find key [] = None"
| "chain_find key (e # es) =
     (if he_key e = key then Some 0 else map_option Suc (chain_find key es))"

definition sub_find :: "subtable \<Rightarrow> bytes \<Rightarrow> u64 \<Rightarrow> (nat \<times> nat) option" where
  "sub_find s key hash =
     (if st_size s = 0 then None
      else let idx = fold_index hash (st_size s) in
        map_option (\<lambda>p. (idx, p)) (chain_find key (st_bucket s idx)))"

definition find_entry :: "hashtable \<Rightarrow> bytes \<Rightarrow> u64 \<Rightarrow> entry_ptr option" where
  "find_entry h key hash =
     (case sub_find (ht_sub0 h) key hash of
        Some (i, p) \<Rightarrow> Some (0, i, p)
      | None \<Rightarrow>
          if is_rehashing h
          then map_option (\<lambda>(i, p). (1, i, p)) (sub_find (ht_sub1 h) key hash)
          else None)"

fun deref :: "hashtable \<Rightarrow> entry_ptr \<Rightarrow> hash_table_entry" where
  "deref h (t, i, p) = st_bucket (ht_sub h t) i ! p"

fun store_value :: "hashtable \<Rightarrow> entry_ptr \<Rightarrow> value_entry \<Rightarrow> hashtable" where
  "store_value h (t, i, p) v =
     (let s = ht_sub h t; c = st_bucket s i
      in ht_set_sub h t (st_set_bucket s i (c[p := (c ! p)\<lparr>he_value := v\<rparr>])))"

definition ht_usable :: "hashtable \<Rightarrow> bool" where
  "ht_usable h \<longleftrightarrow> st_buckets (ht_sub0 h) \<noteq> None \<and> st_size (ht_sub0 h) \<noteq> 0"

text \<open>The tail of \<open>set_value\<close> for a key that is not there: a node at the head of its bucket,
  in table 1 during a resize and in table 0 otherwise, and the start of a resize.\<close>

definition insert_node ::
  "hashtable \<Rightarrow> bytes \<Rightarrow> u64 \<Rightarrow> value_entry \<Rightarrow> allocs \<Rightarrow> bool \<times> hashtable \<times> allocs" where
  "insert_node h key hash new_val a =
     (let (ok, a) = alloc a in
      if \<not> ok then (False, h, a)
      else let t = (if is_rehashing h then 1 else 0);
               s = ht_sub h t;
               idx = fold_index hash (st_size s);
               s = st_set_bucket s idx (\<lparr>he_key = key, he_value = new_val\<rparr> # st_bucket s idx);
               h = ht_set_sub h t (s\<lparr>st_used := st_used s + 1\<rparr>)
           in if \<not> is_rehashing h \<and> st_used (ht_sub0 h) \<ge> st_size (ht_sub0 h)
              then let (h, a) = maybe_start_rehash h a in (True, h, a)
              else (True, h, a))"

definition set_value ::
  "hashtable \<Rightarrow> bytes \<Rightarrow> bytes \<Rightarrow> int \<Rightarrow> allocs \<Rightarrow> bool \<times> hashtable \<times> allocs" where
  "set_value h key data enc a =
     (if \<not> ht_usable h then (False, h, a)
      else
        let h = (if is_rehashing h then rehash_step h else h);
            hash = djb2 key
        in case find_entry h key hash of
          Some p \<Rightarrow>
            let v = he_value (deref h p) in
            if ve_value_len v = length data
            then (True, store_value h p
                    (v\<lparr>ve_ptr := data @ drop (length data) (ve_ptr v),
                       ve_encoding := of_int enc, ve_type := 0, ve_expirable := 0\<rparr>), a)
            else (case make_value_entry data enc a of
                    (None, a) \<Rightarrow> (False, h, a)
                  | (Some new_val, a) \<Rightarrow> (True, store_value h p new_val, a))
        | None \<Rightarrow>
            (case make_value_entry data enc a of
               (None, a) \<Rightarrow> (False, h, a)
             | (Some new_val, a) \<Rightarrow> insert_node h key hash new_val a))"

text \<open>Unlinking node \<open>p\<close> of a chain: \<open>prev->next = current->next\<close> or the bucket head.\<close>

definition unlink :: "chain \<Rightarrow> nat \<Rightarrow> chain" where
  "unlink c p = take p c @ drop (Suc p) c"

definition sub_delete :: "subtable \<Rightarrow> bytes \<Rightarrow> u64 \<Rightarrow> subtable option" where
  "sub_delete s key hash =
     map_option (\<lambda>(i, p).
         let s' = st_set_bucket s i (unlink (st_bucket s i) p)
         in s'\<lparr>st_used := st_used s' - 1\<rparr>)
       (sub_find s key hash)"

definition delete_value :: "hashtable \<Rightarrow> bytes \<Rightarrow> bool \<times> hashtable" where
  "delete_value h key =
     (if \<not> ht_usable h then (False, h)
      else let hash = djb2 key in
        case sub_delete (ht_sub0 h) key hash of
          Some s \<Rightarrow> (True, h\<lparr>ht_sub0 := s\<rparr>)
        | None \<Rightarrow>
            if is_rehashing h
            then (case sub_delete (ht_sub1 h) key hash of
                    Some s \<Rightarrow> (True, h\<lparr>ht_sub1 := s\<rparr>)
                  | None \<Rightarrow> (False, h))
            else (False, h))"

definition get_value :: "hashtable \<Rightarrow> bytes \<Rightarrow> allocs \<Rightarrow> value_entry option \<times> allocs" where
  "get_value h key a =
     (if \<not> ht_usable h then (None, a)
      else case find_entry h key (djb2 key) of
          None \<Rightarrow> (None, a)
        | Some p \<Rightarrow>
            let src = he_value (deref h p) in
            (case make_value_entry (ve_data src) (uint (ve_encoding src)) a of
               (None, a) \<Rightarrow> (None, a)
             | (Some out, a) \<Rightarrow>
                 (Some (out\<lparr>ve_type := ve_type src, ve_expirable := ve_expirable src\<rparr>), a)))"

definition lookup_value :: "hashtable \<Rightarrow> bytes \<Rightarrow> value_entry option" where
  "lookup_value h key =
     (if \<not> ht_usable h then None
      else map_option (\<lambda>p. he_value (deref h p)) (find_entry h key (djb2 key)))"

section \<open>Powers of two\<close>

text \<open>The shifts of \<open>next_pow2\<close> copy the top bit downwards: after them, bit \<open>i\<close> is set when
  some bit of the argument at or above \<open>i\<close> is.\<close>

lemma smear_step:
  fixes x y :: u64
  assumes "\<And>i. bit y i \<longleftrightarrow> (\<exists>j<k. bit x (i + j))"
  shows "bit (y OR drop_bit k y) i \<longleftrightarrow> (\<exists>j<2 * k. bit x (i + j))"
proof -
  have "(\<exists>j<2 * k. bit x (i + j)) \<longleftrightarrow> (\<exists>j<k. bit x (i + j)) \<or> (\<exists>j<k. bit x (k + i + j))"
  proof (intro iffI)
    assume "\<exists>j<2 * k. bit x (i + j)"
    then obtain j where j: "j < 2 * k" "bit x (i + j)" by blast
    show "(\<exists>j<k. bit x (i + j)) \<or> (\<exists>j<k. bit x (k + i + j))"
    proof (cases "j < k")
      case False
      then have "j - k < k" "bit x (k + i + (j - k))" using j by (auto simp: algebra_simps)
      then show ?thesis by blast
    qed (use j in blast)
  next
    assume "(\<exists>j<k. bit x (i + j)) \<or> (\<exists>j<k. bit x (k + i + j))"
    then show "\<exists>j<2 * k. bit x (i + j)"
    proof
      assume "\<exists>j<k. bit x (k + i + j)"
      then obtain j where "j < k" "bit x (k + i + j)" by blast
      then have "k + j < 2 * k" "bit x (i + (k + j))" by (auto simp: algebra_simps)
      then show ?thesis by blast
    qed (metis mult_2 trans_less_add1)
  qed
  then show ?thesis using assms by (simp add: bit_or_iff bit_drop_bit_eq)
qed

lemma smear_mask:
  fixes x y :: u64
  assumes "\<And>i. bit y i \<longleftrightarrow> (\<exists>j<64. bit x (i + j))"
    and "2 ^ m \<le> unat x" and "unat x < 2 ^ Suc m" and m: "m < 64"
  shows "y = mask (Suc m)"
proof (rule bit_eqI)
  fix i
  assume i: "possible_bit TYPE(64 word) i"
  have top: "bit x m"
  proof -
    have "unat x div 2 ^ m = 1"
      using assms(2,3) by (simp add: div_nat_eqI)
    then have "bit (unat x) m" by (simp add: bit_iff_odd)
    then show ?thesis by (simp add: bit_unsigned_iff)
  qed
  have above: "\<not> bit x j" if "m < j" for j
  proof -
    have "unat x < 2 ^ j"
      using assms(3) that by (meson Suc_leI less_le_trans one_le_numeral power_increasing)
    then have "\<not> bit (unat x) j" by (simp add: bit_iff_odd)
    moreover have "j < 64 \<or> \<not> bit x j" using bit_imp_le_length [of x j] by auto
    ultimately show ?thesis by (auto simp: bit_unsigned_iff)
  qed
  show "bit y i = bit (mask (Suc m) :: u64) i"
  proof (cases "i \<le> m")
    case True
    then have "m - i < 64" "bit x (i + (m - i))" using m top by auto
    then show ?thesis using assms(1) True i by (auto simp: bit_mask_iff)
  next
    case False
    then show ?thesis using assms(1) above by (auto simp: bit_mask_iff)
  qed
qed

lemma next_pow2_eq:
  assumes "2 ^ m < unat n" and "unat n \<le> 2 ^ Suc m" and "Suc m < 64"
  shows "next_pow2 n = 2 ^ Suc m"
proof -
  have n2: "\<not> n < 2"
  proof -
    have "1 \<le> (2::nat) ^ m" by simp
    then have "2 \<le> unat n" using assms(1) by linarith
    then show ?thesis by (simp add: word_less_nat_alt)
  qed
  define x where "x = n - 1"
  have ux: "unat x = unat n - 1"
    unfolding x_def using n2 by (subst unat_minus_one) (auto simp: word_less_nat_alt)
  define y1 where "y1 = x OR drop_bit 1 x"
  define y2 where "y2 = y1 OR drop_bit 2 y1"
  define y4 where "y4 = y2 OR drop_bit 4 y2"
  define y8 where "y8 = y4 OR drop_bit 8 y4"
  define y16 where "y16 = y8 OR drop_bit 16 y8"
  define y32 where "y32 = y16 OR drop_bit 32 y16"
  have b0: "\<And>i. bit x i \<longleftrightarrow> (\<exists>j<1. bit x (i + j))" by auto
  have b1: "\<And>i. bit y1 i \<longleftrightarrow> (\<exists>j<2. bit x (i + j))"
    unfolding y1_def using smear_step [OF b0] by simp
  have b2: "\<And>i. bit y2 i \<longleftrightarrow> (\<exists>j<4. bit x (i + j))"
    unfolding y2_def using smear_step [OF b1] by simp
  have b4: "\<And>i. bit y4 i \<longleftrightarrow> (\<exists>j<8. bit x (i + j))"
    unfolding y4_def using smear_step [OF b2] by simp
  have b8: "\<And>i. bit y8 i \<longleftrightarrow> (\<exists>j<16. bit x (i + j))"
    unfolding y8_def using smear_step [OF b4] by simp
  have b16: "\<And>i. bit y16 i \<longleftrightarrow> (\<exists>j<32. bit x (i + j))"
    unfolding y16_def using smear_step [OF b8] by simp
  have b32: "\<And>i. bit y32 i \<longleftrightarrow> (\<exists>j<64. bit x (i + j))"
    unfolding y32_def using smear_step [OF b16] by simp
  have "2 ^ m \<le> unat x" "unat x < 2 ^ Suc m"
    using assms(1,2) ux by auto
  then have "y32 = mask (Suc m)"
    using smear_mask [OF b32] assms(3) by simp
  then show ?thesis
    using n2 unfolding next_pow2_def Let_def x_def [symmetric] y1_def [symmetric] y2_def [symmetric]
      y4_def [symmetric] y8_def [symmetric] y16_def [symmetric] y32_def [symmetric]
    by (simp add: mask_eq_exp_minus_1 del: power_Suc)
qed

lemma pow2_bracket:
  fixes n :: nat
  assumes "2 \<le> n"
  shows "\<exists>m. 2 ^ m < n \<and> n \<le> 2 ^ Suc m"
proof -
  define k where "k = (LEAST k. n \<le> 2 ^ k)"
  have ex: "n \<le> 2 ^ n" using less_exp less_imp_le by blast
  then have k: "n \<le> 2 ^ k" unfolding k_def by (rule LeastI)
  have "k \<noteq> 0" using k assms by (cases k) auto
  then obtain m where m: "k = Suc m" by (cases k) auto
  have "\<not> n \<le> 2 ^ m" using not_less_Least [of m "\<lambda>k. n \<le> 2 ^ k"] m k_def by simp
  then show ?thesis using k m by (intro exI [of _ m]) simp
qed

lemma next_pow2_correct:
  assumes "1 \<le> unat n" and "unat n \<le> 2 ^ 63"
  shows "\<exists>m\<le>63. unat (next_pow2 n) = 2 ^ m \<and> unat n \<le> 2 ^ m \<and> (\<forall>k<m. 2 ^ k < unat n)"
proof (cases "unat n < 2")
  case True
  then have "n < 2" by (simp add: word_less_nat_alt)
  then show ?thesis using assms True by (intro exI [of _ 0]) (simp add: next_pow2_def)
next
  case False
  then obtain m where m: "2 ^ m < unat n" "unat n \<le> 2 ^ Suc m"
    using pow2_bracket [of "unat n"] by auto
  have "(2::nat) ^ m < 2 ^ 63" using m assms by linarith
  then have m63: "m < 63" using power_less_imp_less_exp [of 2 m 63] by simp
  then have "next_pow2 n = 2 ^ Suc m" by (intro next_pow2_eq m) simp
  then have "unat (next_pow2 n) = 2 ^ Suc m"
    using m63 by (simp add: unat_exp2 del: power_Suc)
  moreover have "2 ^ k < unat n" if "k < Suc m" for k
    using that m(1) by (meson le_less_trans less_Suc_eq_le one_le_numeral power_increasing)
  ultimately show ?thesis using m m63 by (intro exI [of _ "Suc m"]) auto
qed

section \<open>The invariant and the map a table stands for\<close>

lemma fold_index_mod: "m < 64 \<Longrightarrow> fold_index h (2 ^ m) = unat h mod 2 ^ m"
proof -
  assume m: "m < 64"
  have "(of_nat (2 ^ m) :: u64) - 1 = mask m" by (simp add: mask_eq_exp_minus_1)
  then have "fold_index h (2 ^ m) = unat (take_bit m h)"
    by (simp add: fold_index_def take_bit_eq_mask)
  also have "\<dots> = unat h mod 2 ^ m"
    by (simp only: unsigned_take_bit_eq) (simp only: take_bit_eq_mod)
  finally show ?thesis .
qed

definition pow2_size :: "nat \<Rightarrow> bool" where
  "pow2_size n \<longleftrightarrow> (\<exists>m<64. n = 2 ^ m)"

lemma fold_index_less [simp]: "pow2_size n \<Longrightarrow> fold_index h n < n"
  by (auto simp: pow2_size_def fold_index_mod)

lemma pow2_size_pos [simp]: "pow2_size n \<Longrightarrow> 0 < n"
  by (auto simp: pow2_size_def)

definition sub_entries :: "subtable \<Rightarrow> hash_table_entry list" where
  "sub_entries s = concat (st_array s)"

definition ht_entries :: "hashtable \<Rightarrow> hash_table_entry list" where
  "ht_entries h = sub_entries (ht_sub0 h) @ sub_entries (ht_sub1 h)"

definition value_ok :: "value_entry \<Rightarrow> bool" where
  "value_ok v \<longleftrightarrow> length (ve_ptr v) = ve_value_len v + 1 \<and> last (ve_ptr v) = 0"

definition bucket_ok :: "nat \<Rightarrow> nat \<Rightarrow> chain \<Rightarrow> bool" where
  "bucket_ok sz i c \<longleftrightarrow> (\<forall>e \<in> set c. fold_index (djb2 (he_key e)) sz = i)"

definition live_sub :: "subtable \<Rightarrow> bool" where
  "live_sub s \<longleftrightarrow> st_buckets s \<noteq> None \<and> pow2_size (st_size s) \<and>
     length (st_array s) = st_size s \<and> st_used s = length (sub_entries s) \<and>
     (\<forall>i < st_size s. bucket_ok (st_size s) i (st_bucket s i))"

definition ht_inv :: "hashtable \<Rightarrow> bool" where
  "ht_inv h \<longleftrightarrow>
     live_sub (ht_sub0 h) \<and>
     (if is_rehashing h
      then live_sub (ht_sub1 h) \<and>
           0 \<le> ht_rehash_index h \<and> ht_rehash_index h \<le> int (st_size (ht_sub0 h)) \<and>
           (\<forall>i < nat (ht_rehash_index h). st_bucket (ht_sub0 h) i = [])
      else ht_sub1 h = empty_subtable) \<and>
     distinct (map he_key (ht_entries h)) \<and>
     (\<forall>e \<in> set (ht_entries h). value_ok (he_value e))"

definition ht_map :: "hashtable \<Rightarrow> bytes \<rightharpoonup> value_entry" where
  "ht_map h = map_of (map (\<lambda>e. (he_key e, he_value e)) (ht_entries h))"

lemma st_array_set_bucket [simp]: "st_array (st_set_bucket s i c) = (st_array s)[i := c]"
  by (simp add: st_array_def st_set_bucket_def)

lemma st_size_set_bucket [simp]: "st_size (st_set_bucket s i c) = st_size s"
  "st_used (st_set_bucket s i c) = st_used s"
  "st_buckets (st_set_bucket s i c) = Some ((st_array s)[i := c])"
  by (simp_all add: st_set_bucket_def)

lemma st_array_used [simp]: "st_array (s\<lparr>st_used := n\<rparr>) = st_array s"
  by (simp add: st_array_def)

lemma st_bucket_used [simp]: "st_bucket (s\<lparr>st_used := n\<rparr>) i = st_bucket s i"
  by (simp add: st_bucket_def)

lemma sub_entries_used [simp]: "sub_entries (s\<lparr>st_used := n\<rparr>) = sub_entries s"
  by (simp add: sub_entries_def)

lemma st_bucket_set_bucket:
  "i < length (st_array s) \<Longrightarrow>
   st_bucket (st_set_bucket s i c) j = (if j = i then c else st_bucket s j)"
  by (simp add: st_bucket_def)

lemma empty_subtable_simps [simp]:
  "st_array empty_subtable = []" "sub_entries empty_subtable = []"
  "st_size empty_subtable = 0" "st_used empty_subtable = 0"
  by (simp_all add: empty_subtable_def st_array_def sub_entries_def)

lemma mset_entries_set_bucket:
  "i < length (st_array s) \<Longrightarrow>
   mset (sub_entries (st_set_bucket s i c)) + mset (st_bucket s i) = mset (sub_entries s) + mset c"
  by (simp add: sub_entries_def st_bucket_def mset_concat_update)

lemma bucket_subset_entries:
  "i < length (st_array s) \<Longrightarrow> set (st_bucket s i) \<subseteq> set (sub_entries s)"
  by (metis set_concat_nth st_bucket_def sub_entries_def subsetI)

text \<open>Replacing one chain of a live sub-table keeps it live.\<close>

lemma live_sub_set_bucket:
  assumes "live_sub s" and "i < st_size s" and "bucket_ok (st_size s) i c"
    and "n + length (st_bucket s i) = st_used s + length c"
  shows "live_sub ((st_set_bucket s i c)\<lparr>st_used := n\<rparr>)"
proof -
  have i: "i < length (st_array s)" using assms(1,2) by (simp add: live_sub_def)
  have "size (mset (sub_entries (st_set_bucket s i c)) + mset (st_bucket s i)) =
        size (mset (sub_entries s) + mset c)"
    by (simp only: mset_entries_set_bucket [OF i])
  then have "n = length (sub_entries (st_set_bucket s i c))"
    using assms(1,4) by (simp add: live_sub_def)
  then show ?thesis
    using assms i by (auto simp: live_sub_def st_bucket_set_bucket)
qed

lemma live_subD:
  assumes "live_sub s"
  shows "pow2_size (st_size s)" "length (st_array s) = st_size s" "0 < st_size s"
    "st_used s = length (sub_entries s)" "st_buckets s \<noteq> None"
  using assms by (auto simp: live_sub_def)

lemma mem_entries_bucket:
  assumes "live_sub s"
  shows "e \<in> set (sub_entries s) \<longleftrightarrow>
         e \<in> set (st_bucket s (fold_index (djb2 (he_key e)) (st_size s)))"
proof
  assume "e \<in> set (sub_entries s)"
  then obtain i where i: "i < st_size s" "e \<in> set (st_bucket s i)"
    using live_subD(2) [OF assms] by (metis set_concat_nth st_bucket_def sub_entries_def)
  then have "fold_index (djb2 (he_key e)) (st_size s) = i"
    using assms by (auto simp: live_sub_def bucket_ok_def)
  then show "e \<in> set (st_bucket s (fold_index (djb2 (he_key e)) (st_size s)))"
    using i by simp
next
  assume "e \<in> set (st_bucket s (fold_index (djb2 (he_key e)) (st_size s)))"
  moreover have "fold_index (djb2 (he_key e)) (st_size s) < length (st_array s)"
    using live_subD [OF assms] by simp
  ultimately show "e \<in> set (sub_entries s)"
    using bucket_subset_entries by blast
qed

text \<open>The map an invariant table stands for, through its entries.\<close>

lemma ht_map_eq:
  assumes "ht_inv h"
  shows "ht_map h k = Some v \<longleftrightarrow> (\<exists>e \<in> set (ht_entries h). he_key e = k \<and> he_value e = v)"
proof -
  have "distinct (map fst (map (\<lambda>e. (he_key e, he_value e)) (ht_entries h)))"
    using assms by (simp add: ht_inv_def comp_def)
  then show ?thesis
    by (auto simp: ht_map_def map_of_eq_Some_iff image_iff)
qed

lemma ht_map_None:
  "ht_map h k = None \<longleftrightarrow> k \<notin> he_key ` set (ht_entries h)"
  by (simp add: ht_map_def map_of_eq_None_iff image_image)

lemma ht_map_mset:
  assumes "mset (ht_entries h) = mset (ht_entries h')" and "ht_inv h"
  shows "ht_map h' = ht_map h"
proof -
  have "map_of (map (\<lambda>e. (he_key e, he_value e)) (ht_entries h)) =
        map_of (map (\<lambda>e. (he_key e, he_value e)) (ht_entries h'))"
    by (rule map_of_mset) (use assms in \<open>auto simp: ht_inv_def comp_def\<close>)
  then show ?thesis by (simp add: ht_map_def)
qed

definition kv_of :: "hash_table_entry list \<Rightarrow> bytes \<rightharpoonup> value_entry" where
  "kv_of es = map_of (map (\<lambda>e. (he_key e, he_value e)) es)"

lemma kv_of_Cons [simp]: "kv_of (e # es) = (kv_of es)(he_key e \<mapsto> he_value e)"
  by (simp add: kv_of_def)

lemma kv_of_None: "kv_of es k = None \<longleftrightarrow> k \<notin> he_key ` set es"
  by (simp add: kv_of_def map_of_eq_None_iff image_image)

lemma kv_of_mset:
  "mset es = mset es' \<Longrightarrow> distinct (map he_key es) \<Longrightarrow> kv_of es = kv_of es'"
  unfolding kv_of_def by (rule map_of_mset) (auto simp: comp_def)

lemma distinct_keys_mset: "mset es = mset es' \<Longrightarrow> distinct (map he_key es) \<longleftrightarrow> distinct (map he_key es')"
  by (rule distinct_map_mset)

lemma kv_of_insert:
  assumes "mset es' = add_mset e (mset es)" and "distinct (map he_key es)"
    and "he_key e \<notin> he_key ` set es"
  shows "distinct (map he_key es')" and "kv_of es' = (kv_of es)(he_key e \<mapsto> he_value e)"
proof -
  have m: "mset (e # es) = mset es'" using assms(1) by simp
  have d: "distinct (map he_key (e # es))" using assms(2,3) by auto
  show "distinct (map he_key es')" using d distinct_keys_mset [OF m] by simp
  show "kv_of es' = (kv_of es)(he_key e \<mapsto> he_value e)" using kv_of_mset [OF m d] by simp
qed

lemma kv_of_remove:
  assumes "mset es = add_mset e (mset es')" and "distinct (map he_key es)"
  shows "distinct (map he_key es')" and "kv_of es' = (kv_of es)(he_key e := None)"
proof -
  have m: "mset es = mset (e # es')" using assms(1) by simp
  have d: "distinct (map he_key (e # es'))" using assms(2) distinct_keys_mset [OF m] by simp
  then show "distinct (map he_key es')" by simp
  have "kv_of es' (he_key e) = None" using d by (auto simp: kv_of_None)
  then show "kv_of es' = (kv_of es)(he_key e := None)"
    using kv_of_mset [OF m assms(2)] by (auto simp: fun_eq_iff)
qed

lemma kv_of_replace:
  assumes "add_mset e (mset es') = add_mset e' (mset es)" and "distinct (map he_key es)"
    and "he_key e' = he_key e" and "e \<in> set es"
  shows "distinct (map he_key es')" and "kv_of es' = (kv_of es)(he_key e \<mapsto> he_value e')"
proof -
  have r: "mset es = add_mset e (mset (remove1 e es))" using assms(4) by simp
  have m: "mset es' = add_mset e' (mset (remove1 e es))"
    using assms(1) r by (metis add_mset_commute add_mset_add_mset_same_iff)
  note rem = kv_of_remove [OF r assms(2)]
  have "he_key e' \<notin> he_key ` set (remove1 e es)"
  proof -
    have "kv_of (remove1 e es) (he_key e') = None" using rem(2) assms(3) by simp
    then show ?thesis by (simp only: kv_of_None not_False_eq_True)
  qed
  note ins = kv_of_insert [OF m rem(1) this]
  show "distinct (map he_key es')" by (rule ins(1))
  show "kv_of es' = (kv_of es)(he_key e \<mapsto> he_value e')" using ins(2) rem(2) assms(3) by simp
qed

section \<open>Finding an entry\<close>

lemma chain_find_Some: "chain_find k c = Some p \<Longrightarrow> p < length c \<and> he_key (c ! p) = k"
  by (induction c arbitrary: p) (auto split: if_splits)

lemma chain_find_None: "chain_find k c = None \<longleftrightarrow> k \<notin> he_key ` set c"
  by (induction c) auto

lemma keys_bucket:
  assumes "live_sub s"
  shows "k \<in> he_key ` set (sub_entries s) \<longleftrightarrow>
         k \<in> he_key ` set (st_bucket s (fold_index (djb2 k) (st_size s)))"
  using mem_entries_bucket [OF assms] by (auto simp: image_iff)

lemma sub_find_Some:
  assumes "live_sub s" and "sub_find s k (djb2 k) = Some (i, p)"
  shows "i = fold_index (djb2 k) (st_size s)" "i < st_size s" "p < length (st_bucket s i)"
    "he_key (st_bucket s i ! p) = k"
  using assms live_subD [OF assms(1)] chain_find_Some by (auto simp: sub_find_def Let_def)

lemma sub_find_None:
  assumes "live_sub s"
  shows "sub_find s k (djb2 k) = None \<longleftrightarrow> k \<notin> he_key ` set (sub_entries s)"
proof -
  have "st_size s \<noteq> 0" using live_subD(3) [OF assms] by simp
  then show ?thesis by (simp add: sub_find_def Let_def chain_find_None keys_bucket [OF assms])
qed

text \<open>A pointer to the live entry of key \<open>k\<close>.\<close>

fun points_to :: "hashtable \<Rightarrow> bytes \<Rightarrow> entry_ptr \<Rightarrow> bool" where
  "points_to h k (t, i, p) \<longleftrightarrow>
     (t = 0 \<or> t = 1 \<and> is_rehashing h) \<and> i < st_size (ht_sub h t) \<and>
     i = fold_index (djb2 k) (st_size (ht_sub h t)) \<and>
     p < length (st_bucket (ht_sub h t) i) \<and> he_key (st_bucket (ht_sub h t) i ! p) = k"

lemma ht_invD:
  assumes "ht_inv h"
  shows "live_sub (ht_sub0 h)" "is_rehashing h \<Longrightarrow> live_sub (ht_sub1 h)"
    "\<not> is_rehashing h \<Longrightarrow> ht_sub1 h = empty_subtable"
    "distinct (map he_key (ht_entries h))" "ht_usable h"
    "\<And>e. e \<in> set (ht_entries h) \<Longrightarrow> value_ok (he_value e)"
  using assms by (auto simp: ht_inv_def ht_usable_def dest: live_subD)

lemma find_entry_Some:
  assumes "ht_inv h" and "find_entry h k (djb2 k) = Some q"
  shows "points_to h k q"
proof -
  obtain t i p where q: "q = (t, i, p)" by (cases q) auto
  show ?thesis
    using assms ht_invD(1-2) [OF assms(1)]
    by (auto simp: q find_entry_def ht_sub_def split: option.splits if_splits dest: sub_find_Some)
qed

lemma find_entry_None:
  assumes "ht_inv h"
  shows "find_entry h k (djb2 k) = None \<longleftrightarrow> k \<notin> he_key ` set (ht_entries h)"
  using sub_find_None [OF ht_invD(1) [OF assms], of k] ht_invD(2,3) [OF assms]
    sub_find_None [of "ht_sub1 h" k]
  by (cases "is_rehashing h")
     (auto simp: find_entry_def ht_entries_def image_Un split: option.splits)

lemma points_to_entry:
  assumes "ht_inv h" and "points_to h k q"
  shows "deref h q \<in> set (ht_entries h)" and "he_key (deref h q) = k"
proof -
  obtain t i p where q: "q = (t, i, p)" by (cases q) auto
  have live: "live_sub (ht_sub h t)"
    using assms ht_invD(1,2) by (auto simp: q ht_sub_def)
  have "deref h q \<in> set (st_bucket (ht_sub h t) i)" using assms(2) nth_mem by (auto simp: q)
  moreover have "i < length (st_array (ht_sub h t))"
    using assms(2) live_subD(2) [OF live] by (simp add: q)
  ultimately have "deref h q \<in> set (sub_entries (ht_sub h t))"
    using bucket_subset_entries by blast
  then show "deref h q \<in> set (ht_entries h)"
    by (auto simp: ht_entries_def ht_sub_def split: if_splits)
  show "he_key (deref h q) = k" using assms(2) by (auto simp: q)
qed

lemma ht_map_kv_of: "ht_map h = kv_of (ht_entries h)"
  by (simp add: ht_map_def kv_of_def)

lemma ht_map_points_to:
  assumes "ht_inv h" and "points_to h k q"
  shows "ht_map h k = Some (he_value (deref h q))"
  using points_to_entry [OF assms] ht_map_eq [OF assms(1)] by blast

lemma lookup_value_map:
  assumes "ht_inv h"
  shows "lookup_value h k = ht_map h k"
proof (cases "find_entry h k (djb2 k)")
  case None
  then have "ht_map h k = None" using find_entry_None [OF assms] ht_map_None by blast
  then show ?thesis using None ht_invD(5) [OF assms] by (simp add: lookup_value_def)
next
  case (Some q)
  then have "ht_map h k = Some (he_value (deref h q))"
    using find_entry_Some [OF assms] ht_map_points_to [OF assms] by blast
  then show ?thesis using Some ht_invD(5) [OF assms] by (simp add: lookup_value_def)
qed

section \<open>Resizing moves entries and loses none\<close>

lemma rehash_skip_bounds:
  assumes "rehash_skip bs sz ri ev = (ri', stop)" and "ri \<le> sz"
  shows "ri \<le> ri' \<and> ri' \<le> sz \<and> (\<forall>i. ri \<le> i \<and> i < ri' \<longrightarrow> bs ! i = []) \<and>
    (stop \<longrightarrow> ri < ri') \<and> (\<not> stop \<longrightarrow> ri' < sz \<longrightarrow> bs ! ri' \<noteq> [])"
  using assms
proof (induction bs sz ri ev rule: rehash_skip.induct)
  case (1 bs sz ri ev)
  show ?case
  proof (cases "ri < sz \<and> bs ! ri = [] \<and> \<not> ev + 1 \<ge> 10")
    case True
    then have "rehash_skip bs sz (ri + 1) (ev + 1) = (ri', stop)"
      using "1.prems"(1) by (subst (asm) rehash_skip.simps) simp
    then have "ri + 1 \<le> ri' \<and> ri' \<le> sz \<and> (\<forall>i. ri + 1 \<le> i \<and> i < ri' \<longrightarrow> bs ! i = []) \<and>
      (stop \<longrightarrow> ri + 1 < ri') \<and> (\<not> stop \<longrightarrow> ri' < sz \<longrightarrow> bs ! ri' \<noteq> [])"
      using "1.IH" True by simp
    then show ?thesis using True by (metis Suc_eq_plus1 Suc_leD le_less less_eq_Suc_le)
  next
    case False
    then show ?thesis using "1.prems" by (subst (asm) rehash_skip.simps) (auto split: if_splits simp: less_Suc_eq)
  qed
qed

lemma ht_sub_simps [simp]:
  "st_set_bucket (s\<lparr>st_used := n\<rparr>) i c = (st_set_bucket s i c)\<lparr>st_used := n\<rparr>"
  by (simp add: st_set_bucket_def)

lemma rehash_move_ok:
  assumes "live_sub (ht_sub1 h)" and "rehash_move c h = h'"
  shows "ht_sub0 h' = (ht_sub0 h)\<lparr>st_used := st_used (ht_sub0 h) - length c\<rparr> \<and>
    ht_rehash_index h' = ht_rehash_index h \<and> live_sub (ht_sub1 h') \<and>
    mset (sub_entries (ht_sub1 h')) = mset c + mset (sub_entries (ht_sub1 h))"
  using assms
proof (induction c arbitrary: h)
  case Nil
  then show ?case by simp
next
  case (Cons e c)
  let ?s1 = "ht_sub1 h"
  let ?j = "fold_index (djb2 (he_key e)) (st_size ?s1)"
  let ?n1 = "(st_set_bucket ?s1 ?j (e # st_bucket ?s1 ?j))\<lparr>st_used := st_used ?s1 + 1\<rparr>"
  have j: "?j < st_size ?s1" using live_subD [OF Cons.prems(1)] by simp
  have live: "live_sub ?n1"
    by (rule live_sub_set_bucket [OF Cons.prems(1) j])
       (use Cons.prems(1) j in \<open>auto simp: live_sub_def bucket_ok_def\<close>)
  have "mset (sub_entries ?n1) + mset (st_bucket ?s1 ?j) =
        mset (sub_entries ?s1) + mset (e # st_bucket ?s1 ?j)"
    using j live_subD [OF Cons.prems(1)] mset_entries_set_bucket [of ?j ?s1] by simp
  then have ms: "mset (sub_entries ?n1) = add_mset e (mset (sub_entries ?s1))" by simp
  define h1 where "h1 = h\<lparr>ht_sub0 := (ht_sub0 h)\<lparr>st_used := st_used (ht_sub0 h) - 1\<rparr>, ht_sub1 := ?n1\<rparr>"
  have "rehash_move c h1 = h'" using Cons.prems(2) by (simp add: Let_def h1_def)
  moreover have "live_sub (ht_sub1 h1)" using live by (simp add: h1_def)
  ultimately have "ht_sub0 h' = (ht_sub0 h1)\<lparr>st_used := st_used (ht_sub0 h1) - length c\<rparr> \<and>
    ht_rehash_index h' = ht_rehash_index h1 \<and> live_sub (ht_sub1 h') \<and>
    mset (sub_entries (ht_sub1 h')) = mset c + mset (sub_entries (ht_sub1 h1))"
    using Cons.IH by blast
  then show ?case using ms by (simp add: h1_def)
qed

lemma drained_entries:
  assumes "live_sub s" and "\<And>i. i < st_size s \<Longrightarrow> st_bucket s i = []"
  shows "sub_entries s = []"
  using assms live_subD(2) [OF assms(1)]
  by (auto simp: sub_entries_def st_bucket_def in_set_conv_nth)

lemma rehash_finalize_ok:
  assumes "ht_inv h" and "is_rehashing h" and "ht_rehash_index h = int (st_size (ht_sub0 h))"
  shows "ht_inv (rehash_finalize h)" and "ht_entries (rehash_finalize h) = ht_entries h"
proof -
  have "sub_entries (ht_sub0 h) = []"
    using assms by (intro drained_entries) (auto simp: ht_inv_def)
  then show e: "ht_entries (rehash_finalize h) = ht_entries h"
    by (simp add: rehash_finalize_def ht_entries_def)
  show "ht_inv (rehash_finalize h)"
    using assms e by (auto simp: ht_inv_def rehash_finalize_def is_rehashing_def)
qed

text \<open>Setting the index forward over empty buckets.\<close>

lemma ht_inv_index:
  assumes "ht_inv h" and "is_rehashing h" and "ri \<le> st_size (ht_sub0 h)"
    and "\<And>i. i < ri \<Longrightarrow> st_bucket (ht_sub0 h) i = []"
  shows "ht_inv (h\<lparr>ht_rehash_index := int ri\<rparr>)" "is_rehashing (h\<lparr>ht_rehash_index := int ri\<rparr>)"
  using assms by (auto simp: ht_inv_def is_rehashing_def ht_entries_def)

lemma rehash_bucket_ok:
  assumes inv: "ht_inv h" and re: "is_rehashing h" and ri: "ht_rehash_index h = int ri"
    and less: "ri < st_size (ht_sub0 h)"
    and h2: "h2 = rehash_move (st_bucket (ht_sub0 h) ri) h"
    and h3: "h3 = h2\<lparr>ht_sub0 := st_set_bucket (ht_sub0 h2) ri [], ht_rehash_index := int (ri + 1)\<rparr>"
  shows "ht_inv h3" "is_rehashing h3" "mset (ht_entries h3) = mset (ht_entries h)"
    "st_size (ht_sub0 h3) = st_size (ht_sub0 h)"
proof -
  let ?c = "st_bucket (ht_sub0 h) ri"
  note live0 = ht_invD(1) [OF inv] and live1 = ht_invD(2) [OF inv re]
  note mv = rehash_move_ok [OF live1 h2 [symmetric]]
  have len: "ri < length (st_array (ht_sub0 h))" using less live_subD(2) [OF live0] by simp
  have s0: "ht_sub0 h3 = (st_set_bucket (ht_sub0 h) ri [])\<lparr>st_used := st_used (ht_sub0 h) - length ?c\<rparr>"
    using mv h3 by simp
  have s1: "ht_sub1 h3 = ht_sub1 h2" using h3 by simp
  have m0: "mset (sub_entries (ht_sub0 h3)) + mset ?c = mset (sub_entries (ht_sub0 h))"
    using mset_entries_set_bucket [OF len, of "[]"] s0 by simp
  have "size (mset (sub_entries (ht_sub0 h3)) + mset ?c) = size (mset (sub_entries (ht_sub0 h)))"
    using m0 by simp
  then have used: "length ?c \<le> st_used (ht_sub0 h)" using live_subD(4) [OF live0] by simp
  have l0: "live_sub (ht_sub0 h3)"
    unfolding s0 by (rule live_sub_set_bucket [OF live0 less]) (use used in \<open>auto simp: bucket_ok_def\<close>)
  show m: "mset (ht_entries h3) = mset (ht_entries h)"
    using m0 mv s1 by (simp add: ht_entries_def)
  show re3: "is_rehashing h3" using h3 by (simp add: is_rehashing_def)
  show size: "st_size (ht_sub0 h3) = st_size (ht_sub0 h)" using s0 by simp
  have emp: "st_bucket (ht_sub0 h3) i = []" if "i < ri + 1" for i
    using that inv re ri len by (auto simp: s0 st_bucket_set_bucket ht_inv_def)
  have d: "distinct (map he_key (ht_entries h3))"
    using distinct_map_mset [OF m] ht_invD(4) [OF inv] by blast
  have v: "\<forall>e \<in> set (ht_entries h3). value_ok (he_value e)"
    using ht_invD(6) [OF inv] m by (metis set_mset_mset)
  show "ht_inv h3"
    unfolding ht_inv_def using l0 re3 d v emp size less mv s1 by (simp add: h3)
qed

lemma rehash_step_ok:
  assumes "ht_inv h"
  shows "ht_inv (rehash_step h)" and "mset (ht_entries (rehash_step h)) = mset (ht_entries h)"
proof -
  have "ht_inv (rehash_step h) \<and> mset (ht_entries (rehash_step h)) = mset (ht_entries h)"
  proof (cases "is_rehashing h")
    case False
    then show ?thesis using assms by (simp add: rehash_step_def)
  next
    case True
    let ?z = "st_size (ht_sub0 h)" and ?i = "nat (ht_rehash_index h)"
    obtain ri stop where sk: "rehash_skip (st_array (ht_sub0 h)) ?z ?i 0 = (ri, stop)"
      by (cases "rehash_skip (st_array (ht_sub0 h)) ?z ?i 0") auto
    have i: "?i \<le> ?z" "\<And>j. j < ?i \<Longrightarrow> st_bucket (ht_sub0 h) j = []"
      using assms True by (auto simp: ht_inv_def)
    note skip = rehash_skip_bounds [OF sk i(1)]
    have emp: "st_bucket (ht_sub0 h) j = []" if "j < ri" for j
      using skip i(2) that by (cases "j < ?i") (auto simp: st_bucket_def)
    define h1 where "h1 = h\<lparr>ht_rehash_index := int ri\<rparr>"
    have inv1: "ht_inv h1" "is_rehashing h1"
      using ht_inv_index [OF assms True] skip emp by (auto simp: h1_def)
    have e1: "ht_entries h1 = ht_entries h" "ht_sub0 h1 = ht_sub0 h" "ht_rehash_index h1 = int ri"
      by (simp_all add: h1_def ht_entries_def)
    consider (stop) "stop" | (fin) "\<not> stop" "ri \<ge> ?z" | (mv) "\<not> stop" "ri < ?z" by linarith
    then show ?thesis
    proof cases
      case stop
      then have "rehash_step h = h1" using True sk by (simp add: rehash_step_def h1_def)
      then show ?thesis using inv1 e1 by simp
    next
      case fin
      then have "rehash_step h = rehash_finalize h1" using True sk by (simp add: rehash_step_def h1_def)
      moreover have "ri = ?z" using fin skip by simp
      ultimately show ?thesis using rehash_finalize_ok [OF inv1] e1 by simp
    next
      case mv
      define h2 where "h2 = rehash_move (st_bucket (ht_sub0 h1) ri) h1"
      define h3 where "h3 = h2\<lparr>ht_sub0 := st_set_bucket (ht_sub0 h2) ri [], ht_rehash_index := int (ri + 1)\<rparr>"
      have step: "rehash_step h = (if ri + 1 \<ge> ?z then rehash_finalize h3 else h3)"
        using mv True sk by (simp add: rehash_step_def h1_def h2_def h3_def Let_def)
      have "ri < st_size (ht_sub0 h1)" using mv e1 by simp
      note b = rehash_bucket_ok [OF inv1 e1(3) this h2_def h3_def]
      show ?thesis
      proof (cases "ri + 1 \<ge> ?z")
        case True
        then have "ht_rehash_index h3 = int (st_size (ht_sub0 h3))"
          using b(4) e1 mv by (simp add: h3_def)
        then show ?thesis using rehash_finalize_ok [OF b(1,2)] b(3) e1 step True by simp
      qed (use b e1 step in simp)
    qed
  qed
  then show "ht_inv (rehash_step h)" "mset (ht_entries (rehash_step h)) = mset (ht_entries h)" by auto
qed

section \<open>Insertion\<close>

lemma grow_size_ok:
  "n = 2 ^ m \<Longrightarrow> \<exists>k. grow_size n target = 2 ^ k \<and> m \<le> k \<and> target \<le> 2 ^ k"
proof (induction n target arbitrary: m rule: grow_size.induct)
  case (1 n target)
  show ?case
  proof (cases "n < target")
    case True
    have "2 * n = 2 ^ Suc m" using "1.prems" by simp
    then obtain k where "grow_size (2 * n) target = 2 ^ k" "Suc m \<le> k" "target \<le> 2 ^ k"
      using "1.IH" True "1.prems" by (metis zero_less_numeral zero_less_power)
    moreover have "grow_size n target = grow_size (2 * n) target"
      using True "1.prems" by (subst grow_size.simps) simp
    ultimately show ?thesis using Suc_leD by auto
  next
    case False
    then have "grow_size n target = n" by (subst grow_size.simps) simp
    then show ?thesis using False "1.prems" by auto
  qed
qed

lemma grow_size_pow2:
  assumes "pow2_size n" and "grow_size n target * 8 < 2 ^ 64"
  shows "pow2_size (grow_size n target)"
proof -
  obtain m where "n = 2 ^ m" using assms(1) by (auto simp: pow2_size_def)
  then obtain k where k: "grow_size n target = 2 ^ k" using grow_size_ok by blast
  then have "(2::nat) ^ k < 2 ^ 64" using assms(2) by simp
  then have "k < 64" using power_less_imp_less_exp [of 2 k 64] by simp
  then show ?thesis using k by (auto simp: pow2_size_def)
qed

lemma ht_set_sub_inv:
  assumes "ht_inv h" and "t = 0 \<or> t = 1 \<and> is_rehashing h"
    and "live_sub s" and "st_size s = st_size (ht_sub h t)"
    and "\<And>i. t = 0 \<Longrightarrow> is_rehashing h \<Longrightarrow> i < nat (ht_rehash_index h) \<Longrightarrow> st_bucket s i = []"
    and "distinct (map he_key (ht_entries (ht_set_sub h t s)))"
    and "\<And>e. e \<in> set (ht_entries (ht_set_sub h t s)) \<Longrightarrow> value_ok (he_value e)"
  shows "ht_inv (ht_set_sub h t s)"
  using assms by (auto simp: ht_inv_def ht_set_sub_def ht_sub_def is_rehashing_def)

lemma ht_set_sub_entries:
  "mset (ht_entries (ht_set_sub h t s)) + mset (sub_entries (ht_sub h t)) =
   mset (ht_entries h) + mset (sub_entries s)"
  by (auto simp: ht_entries_def ht_set_sub_def ht_sub_def)

text \<open>Writing one chain of the sub-table \<open>t\<close>: what every mutation of the table is.\<close>

definition put_chain :: "hashtable \<Rightarrow> nat \<Rightarrow> nat \<Rightarrow> chain \<Rightarrow> nat \<Rightarrow> hashtable" where
  "put_chain h t i c n = ht_set_sub h t ((st_set_bucket (ht_sub h t) i c)\<lparr>st_used := n\<rparr>)"

lemma live_sub_t: "ht_inv h \<Longrightarrow> t = 0 \<or> t = 1 \<and> is_rehashing h \<Longrightarrow> live_sub (ht_sub h t)"
  by (auto simp: ht_sub_def dest: ht_invD)

lemma put_chain_entries:
  assumes "ht_inv h" and "t = 0 \<or> t = 1 \<and> is_rehashing h" and "i < st_size (ht_sub h t)"
  shows "mset (ht_entries (put_chain h t i c n)) + mset (st_bucket (ht_sub h t) i) =
         mset (ht_entries h) + mset c"
proof -
  let ?s = "ht_sub h t"
  have "i < length (st_array ?s)"
    using assms live_subD(2) [OF live_sub_t [OF assms(1,2)]] by simp
  note b = mset_entries_set_bucket [OF this, of c]
  have "mset (ht_entries (put_chain h t i c n)) + mset (sub_entries ?s) =
        mset (ht_entries h) + mset (sub_entries (st_set_bucket ?s i c))"
    using ht_set_sub_entries [of h t] by (simp add: put_chain_def)
  then show ?thesis using b by (rule mset_exchange)
qed

lemma put_chain_inv:
  assumes inv: "ht_inv h" and t: "t = 0 \<or> t = 1 \<and> is_rehashing h"
    and i: "i < st_size (ht_sub h t)"
    and b: "bucket_ok (st_size (ht_sub h t)) i c"
    and n: "n + length (st_bucket (ht_sub h t) i) = st_used (ht_sub h t) + length c"
    and ne: "t = 0 \<Longrightarrow> is_rehashing h \<Longrightarrow> st_bucket (ht_sub h t) i \<noteq> []"
    and d: "distinct (map he_key (ht_entries (put_chain h t i c n)))"
    and v: "\<And>e. e \<in> set (ht_entries (put_chain h t i c n)) \<Longrightarrow> value_ok (he_value e)"
  shows "ht_inv (put_chain h t i c n)"
  unfolding put_chain_def
proof (rule ht_set_sub_inv [OF inv t])
  have live: "live_sub (ht_sub h t)" by (rule live_sub_t [OF inv t])
  show "live_sub ((st_set_bucket (ht_sub h t) i c)\<lparr>st_used := n\<rparr>)"
    by (rule live_sub_set_bucket [OF live i b n])
  show "st_bucket ((st_set_bucket (ht_sub h t) i c)\<lparr>st_used := n\<rparr>) j = []"
    if "t = 0" "is_rehashing h" "j < nat (ht_rehash_index h)" for j
  proof -
    have e: "st_bucket (ht_sub h t) j = []"
      using inv that by (auto simp: ht_inv_def ht_sub_def)
    then have "j \<noteq> i" using ne that by auto
    then show ?thesis using e i live_subD(2) [OF live] by (simp add: st_bucket_set_bucket)
  qed
  show "distinct (map he_key (ht_entries (ht_set_sub h t ((st_set_bucket (ht_sub h t) i c)\<lparr>st_used := n\<rparr>))))"
    using d by (simp add: put_chain_def)
  show "value_ok (he_value e)"
    if "e \<in> set (ht_entries (ht_set_sub h t ((st_set_bucket (ht_sub h t) i c)\<lparr>st_used := n\<rparr>)))" for e
    using v that by (simp add: put_chain_def)
qed simp

lemma bucket_ok_update:
  "bucket_ok z i c \<Longrightarrow> p < length c \<Longrightarrow> he_key e = he_key (c ! p) \<Longrightarrow> bucket_ok z i (c[p := e])"
  by (auto simp: bucket_ok_def dest!: set_update_subset_insert [THEN subsetD])

lemma store_value_ok:
  assumes inv: "ht_inv h" and q: "points_to h k q" and v: "value_ok v"
  shows "ht_inv (store_value h q v)" and "ht_map (store_value h q v) = (ht_map h)(k \<mapsto> v)"
proof -
  obtain t i p where qq: "q = (t, i, p)" by (cases q) auto
  let ?s = "ht_sub h t" let ?c = "st_bucket ?s i"
  let ?e = "?c ! p" let ?e' = "?e\<lparr>he_value := v\<rparr>"
  from q have t: "t = 0 \<or> t = 1 \<and> is_rehashing h" and i: "i < st_size ?s"
    and p: "p < length ?c" and k: "he_key ?e = k" by (auto simp: qq)
  let ?h = "put_chain h t i (?c[p := ?e']) (st_used ?s)"
  have sv: "store_value h q v = ?h"
    by (simp add: qq put_chain_def Let_def st_set_bucket_def)
  have upd: "mset (?c[p := ?e']) + {#?e#} = mset ?c + {#?e'#}"
    using p by (simp add: mset_update)
  have "mset (ht_entries ?h) + {#?e#} = mset (ht_entries h) + {#?e'#}"
    by (rule mset_exchange [OF put_chain_entries [OF inv t i] upd])
  then have m: "add_mset ?e (mset (ht_entries ?h)) = add_mset ?e' (mset (ht_entries h))" by simp
  have mem: "?e \<in> set (ht_entries h)" using points_to_entry(1) [OF inv q] by (simp add: qq)
  have "he_key ?e' = he_key ?e" by simp
  note r = kv_of_replace [OF m ht_invD(4) [OF inv] this mem]
  show "ht_map (store_value h q v) = (ht_map h)(k \<mapsto> v)"
    using r(2) k by (simp add: sv ht_map_kv_of)
  have vals: "value_ok (he_value e)" if "e \<in> set (ht_entries ?h)" for e
  proof -
    have "e \<in># add_mset ?e (mset (ht_entries ?h))" using that by simp
    then have "e \<in># add_mset ?e' (mset (ht_entries h))" by (simp only: m)
    then show ?thesis using v ht_invD(6) [OF inv] by auto
  qed
  have "bucket_ok (st_size ?s) i ?c" using live_sub_t [OF inv t] i by (simp add: live_sub_def)
  then have "bucket_ok (st_size ?s) i (?c[p := ?e'])" by (rule bucket_ok_update [OF _ p]) simp
  then show "ht_inv (store_value h q v)"
    unfolding sv by (intro put_chain_inv [OF inv t i] r(1) vals) (use p in auto)
qed


text \<open>The value entry \<open>set_value\<close> leaves behind.\<close>

definition entry_for :: "bytes \<Rightarrow> int \<Rightarrow> value_entry" where
  "entry_for data enc = \<lparr>ve_ptr = data @ [0], ve_type = 0, ve_encoding = of_int enc,
     ve_expirable = 0, ve_value_len = length data\<rparr>"

lemma entry_for_simps [simp]:
  "ve_data (entry_for data enc) = data" "value_ok (entry_for data enc)"
  "ve_encoding (entry_for data enc) = of_int enc" "ve_value_len (entry_for data enc) = length data"
  by (simp_all add: entry_for_def ve_data_def value_ok_def)

lemma make_value_entry_eq:
  "make_value_entry data enc a =
     (if fst (alloc a) then (Some (entry_for data enc), snd (alloc a)) else (None, snd (alloc a)))"
  by (simp add: make_value_entry_def entry_for_def split_def)

lemma overwrite_in_place:
  assumes "value_ok v" and "ve_value_len v = length data"
  shows "v\<lparr>ve_ptr := data @ drop (length data) (ve_ptr v), ve_encoding := of_int enc,
           ve_type := 0, ve_expirable := 0\<rparr> = entry_for data enc"
proof -
  have "length (drop (length data) (ve_ptr v)) = 1" using assms by (simp add: value_ok_def)
  moreover have "last (drop (length data) (ve_ptr v)) = 0"
    using assms by (simp add: value_ok_def last_drop)
  ultimately have "drop (length data) (ve_ptr v) = [0]"
    by (metis One_nat_def last.simps length_0_conv length_Suc_conv)
  then show ?thesis using assms by (simp add: entry_for_def)
qed

text \<open>A fresh table array: what \<open>calloc\<close> gives a resize.\<close>

lemma live_sub_fresh:
  "pow2_size n \<Longrightarrow> live_sub \<lparr>st_buckets = Some (replicate n []), st_size = n, st_used = 0\<rparr>"
  by (auto simp: live_sub_def st_array_def sub_entries_def st_bucket_def bucket_ok_def)

lemma maybe_start_rehash_ok:
  assumes "ht_inv h" and "maybe_start_rehash h a = (h', a')"
  shows "ht_inv h'" and "ht_entries h' = ht_entries h" and "alloc_safe a \<Longrightarrow> alloc_safe a'"
proof -
  let ?s = "ht_sub0 h"
  let ?n = "grow_size (st_size ?s) (st_used ?s * 2)"
  have z: "st_size ?s \<noteq> 0" using live_subD(3) [OF ht_invD(1) [OF assms(1)]] by simp
  obtain ok a1 where al: "alloc a = (ok, a1)" by (cases "alloc a") auto
  have "ht_inv h' \<and> ht_entries h' = ht_entries h \<and> (alloc_safe a \<longrightarrow> alloc_safe a')"
  proof (cases "\<not> is_rehashing h \<and> ok \<and> ?n * 8 < 2 ^ 64")
    case True
    then have h': "h' = h\<lparr>ht_sub1 := \<lparr>st_buckets = Some (replicate ?n []), st_size = ?n, st_used = 0\<rparr>,
        ht_rehash_index := 0\<rparr>" and a': "a' = a1"
      using assms(2) z al by (auto simp: maybe_start_rehash_def calloc_def Let_def)
    have "pow2_size ?n"
      using True live_subD(1) [OF ht_invD(1) [OF assms(1)]] by (intro grow_size_pow2) auto
    then have live: "live_sub (ht_sub1 h')" using live_sub_fresh by (simp add: h')
    have e: "ht_entries h' = ht_entries h"
      using ht_invD(3) [OF assms(1)] True
      by (simp add: h' ht_entries_def sub_entries_def st_array_def empty_subtable_def)
    have "ht_inv h'"
      using assms(1) live e by (auto simp: ht_inv_def h' is_rehashing_def)
    then show ?thesis using e al a' alloc_safeD [of a] by auto
  next
    case False
    then have "h' = h" "a' = a \<or> a' = a1"
      using assms(2) z al by (auto simp: maybe_start_rehash_def calloc_def Let_def split: if_splits)
    then show ?thesis using assms(1) al alloc_safeD [of a] by auto
  qed
  then show "ht_inv h'" "ht_entries h' = ht_entries h" "alloc_safe a \<Longrightarrow> alloc_safe a'" by auto
qed

lemma insert_node_ok:
  assumes inv: "ht_inv h" and k: "k \<notin> he_key ` set (ht_entries h)" and v: "value_ok v"
    and ins: "insert_node h k (djb2 k) v a = (ok, h', a')"
  shows "ht_inv h'" and "ht_map h' = (if ok then (ht_map h)(k \<mapsto> v) else ht_map h)"
    and "alloc_safe a \<Longrightarrow> ok \<and> alloc_safe a'"
proof -
  define t where "t = (if is_rehashing h then 1 else 0 :: nat)"
  let ?s = "ht_sub h t" let ?i = "fold_index (djb2 k) (st_size ?s)"
  let ?e = "\<lparr>he_key = k, he_value = v\<rparr>"
  let ?h = "put_chain h t ?i (?e # st_bucket ?s ?i) (st_used ?s + 1)"
  have t: "t = 0 \<or> t = 1 \<and> is_rehashing h" by (simp add: t_def)
  note live = live_sub_t [OF inv t]
  have i: "?i < st_size ?s" using live_subD(1) [OF live] by simp
  have "mset (ht_entries ?h) + {#} = mset (ht_entries h) + {#?e#}"
    by (rule mset_exchange [OF put_chain_entries [OF inv t i]]) simp
  then have m: "mset (ht_entries ?h) = add_mset ?e (mset (ht_entries h))" by simp
  have "he_key ?e \<notin> he_key ` set (ht_entries h)" using k by simp
  note r = kv_of_insert [OF m ht_invD(4) [OF inv] this]
  have "bucket_ok (st_size ?s) ?i (?e # st_bucket ?s ?i)"
    using live i by (auto simp: live_sub_def bucket_ok_def)
  moreover have "value_ok (he_value e)" if "e \<in> set (ht_entries ?h)" for e
  proof -
    have "e \<in># mset (ht_entries ?h)" using that by simp
    then have "e \<in># add_mset ?e (mset (ht_entries h))" by (simp only: m)
    then show ?thesis using v ht_invD(6) [OF inv] by auto
  qed
  ultimately have inv1: "ht_inv ?h"
    by (intro put_chain_inv [OF inv t i] r(1)) (auto simp: t_def)
  have map1: "ht_map ?h = (ht_map h)(k \<mapsto> v)" using r(2) by (simp add: ht_map_kv_of)
  obtain ok1 a1 where al: "alloc a = (ok1, a1)" by (cases "alloc a") auto
  obtain h2 a2 where st: "maybe_start_rehash ?h a1 = (h2, a2)" by (cases "maybe_start_rehash ?h a1") auto
  have "(ok, h', a') = (if \<not> ok1 then (False, h, a1)
      else if \<not> is_rehashing ?h \<and> st_used (ht_sub0 ?h) \<ge> st_size (ht_sub0 ?h)
      then (True, h2, a2) else (True, ?h, a1))"
    using ins al st by (auto simp: insert_node_def put_chain_def Let_def t_def [symmetric] split: if_splits)
  moreover note maybe_start_rehash_ok [OF inv1 st]
  moreover have "ht_map h2 = ht_map ?h" using maybe_start_rehash_ok(2) [OF inv1 st] by (simp add: ht_map_def)
  ultimately show "ht_inv h'" "ht_map h' = (if ok then (ht_map h)(k \<mapsto> v) else ht_map h)"
    "alloc_safe a \<Longrightarrow> ok \<and> alloc_safe a'"
    using inv inv1 map1 al alloc_safeD [of a] by (auto split: if_splits)
qed

lemma set_value_prelude:
  assumes "ht_inv h"
  defines "h1 \<equiv> if is_rehashing h then rehash_step h else h"
  shows "ht_inv h1" and "ht_map h1 = ht_map h"
  using rehash_step_ok [OF assms(1)] ht_map_mset [OF _ assms(1), of "rehash_step h"] assms(1)
  by (auto simp: h1_def)

lemma set_value_ok:
  assumes inv: "ht_inv h" and set: "set_value h k data enc a = (ok, h', a')"
  shows "ht_inv h'" and "ht_map h' = (if ok then (ht_map h)(k \<mapsto> entry_for data enc) else ht_map h)"
    and "alloc_safe a \<Longrightarrow> ok \<and> alloc_safe a'"
proof -
  define h1 where "h1 = (if is_rehashing h then rehash_step h else h)"
  note pre = set_value_prelude [OF inv, folded h1_def]
  have u: "ht_usable h" by (rule ht_invD(5) [OF inv])
  obtain ok1 a1 where al: "alloc a = (ok1, a1)" by (cases "alloc a") auto
  have "ht_inv h' \<and> ht_map h' = (if ok then (ht_map h)(k \<mapsto> entry_for data enc) else ht_map h) \<and>
    (alloc_safe a \<longrightarrow> ok \<and> alloc_safe a')"
  proof (cases "find_entry h1 k (djb2 k)")
    case (Some q)
    note q = find_entry_Some [OF pre(1) Some]
    let ?v = "he_value (deref h1 q)"
    have vok: "value_ok ?v" using points_to_entry(1) [OF pre(1) q] ht_invD(6) [OF pre(1)] by blast
    note st = store_value_ok [OF pre(1) q, of "entry_for data enc", simplified]
    show ?thesis
    proof (cases "ve_value_len ?v = length data")
      case True
      then have "(ok, h', a') = (True, store_value h1 q (entry_for data enc), a)"
        using set u Some overwrite_in_place [OF vok True]
        by (simp add: set_value_def h1_def [symmetric])
      then show ?thesis using st pre(2) by simp
    next
      case False
      then have "(ok, h', a') = (if ok1 then (True, store_value h1 q (entry_for data enc), a1) else (False, h1, a1))"
        using set u Some al by (simp add: set_value_def h1_def [symmetric] make_value_entry_eq split: if_splits)
      then show ?thesis using st pre al alloc_safeD [of a] by (auto split: if_splits)
    qed
  next
    case None
    then have k: "k \<notin> he_key ` set (ht_entries h1)" using find_entry_None [OF pre(1)] by blast
    have eq: "(ok, h', a') = (if ok1 then insert_node h1 k (djb2 k) (entry_for data enc) a1 else (False, h1, a1))"
      using set u None al by (simp add: set_value_def h1_def [symmetric] make_value_entry_eq split: if_splits)
    show ?thesis
    proof (cases ok1)
      case True
      then have "insert_node h1 k (djb2 k) (entry_for data enc) a1 = (ok, h', a')" using eq by simp
      note insert_node_ok [OF pre(1) k _ this, simplified]
      then show ?thesis using pre(2) al alloc_safeD [of a] by auto
    next
      case False
      then show ?thesis using eq pre al alloc_safeD [of a] by auto
    qed
  qed
  then show "ht_inv h'" "ht_map h' = (if ok then (ht_map h)(k \<mapsto> entry_for data enc) else ht_map h)"
    "alloc_safe a \<Longrightarrow> ok \<and> alloc_safe a'" by auto
qed

section \<open>Deletion\<close>

lemma unlink_mset: "p < length c \<Longrightarrow> add_mset (c ! p) (mset (unlink c p)) = mset c"
  by (metis (no_types, lifting) Cons_nth_drop_Suc append_take_drop_id mset.simps(2) mset_append union_mset_add_mset_right unlink_def)

lemma unlink_set: "set (unlink c p) \<subseteq> set c"
  by (auto simp: unlink_def dest: in_set_takeD in_set_dropD)

lemma delete_at_ok:
  assumes inv: "ht_inv h" and q: "points_to h k (t, i, p)"
  defines "h' \<equiv> put_chain h t i (unlink (st_bucket (ht_sub h t) i) p) (st_used (ht_sub h t) - 1)"
  shows "ht_inv h'" and "ht_map h' = (ht_map h)(k := None)"
proof -
  let ?s = "ht_sub h t" let ?c = "st_bucket ?s i" let ?e = "?c ! p"
  from q have t: "t = 0 \<or> t = 1 \<and> is_rehashing h" and i: "i < st_size ?s"
    and p: "p < length ?c" and k: "he_key ?e = k" by auto
  note live = live_sub_t [OF inv t]
  have un: "mset (unlink ?c p) + {#?e#} = mset ?c + {#}" using unlink_mset [OF p] by simp
  have "mset (ht_entries h') + {#?e#} = mset (ht_entries h) + {#}"
    unfolding h'_def by (rule mset_exchange [OF put_chain_entries [OF inv t i] un])
  then have m: "mset (ht_entries h) = add_mset ?e (mset (ht_entries h'))" by simp
  note r = kv_of_remove [OF m ht_invD(4) [OF inv]]
  show "ht_map h' = (ht_map h)(k := None)" using r(2) k by (simp add: ht_map_kv_of)
  have "i < length (st_array ?s)" using i live_subD(2) [OF live] by simp
  then have "set ?c \<subseteq> set (sub_entries ?s)" by (rule bucket_subset_entries)
  then have "sub_entries ?s \<noteq> []" using nth_mem [OF p] by auto
  then have used: "0 < st_used ?s" using live_subD(4) [OF live] by simp
  have len: "length (unlink ?c p) = length ?c - 1" using p by (simp add: unlink_def)
  have "bucket_ok (st_size ?s) i (unlink ?c p)"
    using live i unlink_set [of ?c p] by (auto simp: live_sub_def bucket_ok_def)
  moreover have "value_ok (he_value e)" if "e \<in> set (ht_entries h')" for e
  proof -
    have "e \<in># mset (ht_entries h)" using that by (simp add: m)
    then show ?thesis using ht_invD(6) [OF inv] by simp
  qed
  ultimately show "ht_inv h'"
    unfolding h'_def using r(1) used len p
    by (intro put_chain_inv [OF inv t i]) (auto simp: h'_def)
qed

lemma delete_value_eq:
  assumes inv: "ht_inv h"
  shows "delete_value h k =
     (case find_entry h k (djb2 k) of
        None \<Rightarrow> (False, h)
      | Some (t, i, p) \<Rightarrow>
          (True, put_chain h t i (unlink (st_bucket (ht_sub h t) i) p) (st_used (ht_sub h t) - 1)))"
  using ht_invD(5) [OF inv]
  by (auto simp: delete_value_def sub_delete_def find_entry_def put_chain_def ht_set_sub_def
      ht_sub_def Let_def split: option.splits)

lemma delete_value_ok:
  assumes inv: "ht_inv h" and del: "delete_value h k = (ok, h')"
  shows "ht_inv h'" and "ht_map h' = (ht_map h)(k := None)" and "ok \<longleftrightarrow> k \<in> dom (ht_map h)"
proof -
  have "ht_inv h' \<and> ht_map h' = (ht_map h)(k := None) \<and> (ok \<longleftrightarrow> k \<in> dom (ht_map h))"
  proof (cases "find_entry h k (djb2 k)")
    case None
    then have "ht_map h k = None" using find_entry_None [OF inv] ht_map_None by blast
    moreover have "ok = False" "h' = h" using del None by (simp_all add: delete_value_eq [OF inv])
    ultimately show ?thesis using inv by (auto simp: fun_eq_iff)
  next
    case (Some q)
    obtain t i p where qq: "q = (t, i, p)" by (cases q) auto
    note q = find_entry_Some [OF inv Some, unfolded qq]
    have "ok = True" "h' = put_chain h t i (unlink (st_bucket (ht_sub h t) i) p) (st_used (ht_sub h t) - 1)"
      using del Some by (simp_all add: delete_value_eq [OF inv] qq)
    then show ?thesis using delete_at_ok [OF inv q] ht_map_points_to [OF inv q] by auto
  qed
  then show "ht_inv h'" "ht_map h' = (ht_map h)(k := None)" "ok \<longleftrightarrow> k \<in> dom (ht_map h)" by auto
qed

section \<open>Creation and snapshots\<close>

lemma create_hash_table_ok:
  assumes "create_hash_table sz a = (Some h, a')" and "unat sz \<le> 2 ^ 60"
  shows "ht_inv h" and "ht_map h = Map.empty" and "\<not> is_rehashing h"
    and "unat sz \<le> st_size (ht_sub0 h)"
proof -
  have sz: "sz \<noteq> 0" using assms(1) by (auto simp: create_hash_table_def)
  then have "1 \<le> unat sz" by (metis One_nat_def Suc_leI unat_gt_0)
  then obtain m where m: "m \<le> 63" "unat (next_pow2 sz) = 2 ^ m" "unat sz \<le> 2 ^ m"
    using next_pow2_correct [of sz] assms(2) by auto
  have h: "h = \<lparr>ht_sub0 = \<lparr>st_buckets = Some (replicate (2 ^ m) []), st_size = 2 ^ m, st_used = 0\<rparr>,
      ht_sub1 = empty_subtable, ht_rehash_index = -1\<rparr>"
    using assms(1) sz m(2) by (auto simp: create_hash_table_def Let_def split: prod.splits if_splits)
  have p: "pow2_size (2 ^ m)" using m(1) by (auto simp: pow2_size_def)
  have e: "ht_entries h = []" by (simp add: h ht_entries_def sub_entries_def st_array_def empty_subtable_def)
  show "\<not> is_rehashing h" by (simp add: h is_rehashing_def)
  then show "ht_inv h" using live_sub_fresh [OF p] e by (simp add: ht_inv_def h)
  show "ht_map h = Map.empty" by (simp add: ht_map_def e)
  show "unat sz \<le> st_size (ht_sub0 h)" using m(3) by (simp add: h)
qed

lemma create_hash_table_succeeds:
  assumes "sz \<noteq> 0" and "unat sz \<le> 2 ^ 60" and "alloc_safe a"
  shows "\<exists>h a'. create_hash_table sz a = (Some h, a') \<and> alloc_safe a'"
proof -
  have "1 \<le> unat sz" using assms(1) by (metis One_nat_def Suc_leI unat_gt_0)
  then obtain m where m: "unat (next_pow2 sz) = 2 ^ m" "\<forall>k<m. 2 ^ k < unat sz"
    using next_pow2_correct [of sz] assms(2) by auto
  have "m \<le> 60"
  proof (rule ccontr)
    assume "\<not> m \<le> 60"
    then have "2 ^ 60 < unat sz" using m(2) [rule_format, of 60] by linarith
    then show False using assms(2) by simp
  qed
  then have "(2::nat) ^ m * 8 < 2 ^ 64"
    using power_increasing [of m 60 "2::nat"] by simp
  then show ?thesis
    using assms(1,3) m(1) alloc_safeD [of a] alloc_safeD [of "snd (alloc a)"]
    by (auto simp: create_hash_table_def calloc_def Let_def split_def)
qed

lemma entry_for_copy:
  assumes "value_ok v"
  shows "entry_for (ve_data v) (uint (ve_encoding v))
           \<lparr>ve_type := ve_type v, ve_expirable := ve_expirable v\<rparr> = v"
proof -
  have "take (ve_value_len v) (ve_ptr v) @ [0] = ve_ptr v"
    using assms by (metis add_diff_cancel_right' append_butlast_last_id butlast_conv_take length_0_conv
        one_neq_zero add_is_0 value_ok_def)
  then show ?thesis using assms by (simp add: entry_for_def ve_data_def value_ok_def)
qed

lemma get_value_map:
  assumes inv: "ht_inv h"
  shows "fst (get_value h k a) = (if fst (alloc a) then ht_map h k else None)"
    and "alloc_safe a \<Longrightarrow> alloc_safe (snd (get_value h k a))"
proof -
  have "fst (get_value h k a) = (if fst (alloc a) then ht_map h k else None) \<and>
    (alloc_safe a \<longrightarrow> alloc_safe (snd (get_value h k a)))"
  proof (cases "find_entry h k (djb2 k)")
    case None
    then have "ht_map h k = None" using find_entry_None [OF inv] ht_map_None by blast
    then show ?thesis using None by (simp add: get_value_def)
  next
    case (Some q)
    note q = find_entry_Some [OF inv Some]
    let ?v = "he_value (deref h q)"
    have v: "value_ok ?v" using points_to_entry(1) [OF inv q] ht_invD(6) [OF inv] by blast
    then have "entry_for (ve_data ?v) (uint (ve_encoding ?v))\<lparr>ve_type := ve_type ?v, ve_expirable := ve_expirable ?v\<rparr> = ?v"
      by (rule entry_for_copy)
    then show ?thesis using Some ht_invD(5) [OF inv] ht_map_points_to [OF inv q] alloc_safeD [of a]
      by (auto simp: get_value_def make_value_entry_eq)
  qed
  then show "fst (get_value h k a) = (if fst (alloc a) then ht_map h k else None)"
    "alloc_safe a \<Longrightarrow> alloc_safe (snd (get_value h k a))" by auto
qed

section \<open>A resize comes to its end\<close>

definition rehash_left :: "hashtable \<Rightarrow> nat" where
  "rehash_left h = (if is_rehashing h then st_size (ht_sub0 h) + 1 - nat (ht_rehash_index h) else 0)"

lemma rehash_step_progress:
  assumes "ht_inv h" and "is_rehashing h"
  shows "rehash_left (rehash_step h) < rehash_left h"
proof -
  let ?z = "st_size (ht_sub0 h)" and ?i = "nat (ht_rehash_index h)"
  obtain ri stop where sk: "rehash_skip (st_array (ht_sub0 h)) ?z ?i 0 = (ri, stop)"
    by (cases "rehash_skip (st_array (ht_sub0 h)) ?z ?i 0") auto
  have i: "?i \<le> ?z" using assms by (auto simp: ht_inv_def)
  note skip = rehash_skip_bounds [OF sk i]
  have fin: "rehash_left (rehash_finalize g) = 0" for g
    by (simp add: rehash_left_def rehash_finalize_def is_rehashing_def)
  have left: "rehash_left h = ?z + 1 - ?i" using assms(2) by (simp add: rehash_left_def)
  have mv: "st_size (ht_sub0 (rehash_move c g)) = st_size (ht_sub0 g)" for c g
    by (induction c arbitrary: g) (simp_all add: Let_def)
  let ?h1 = "h\<lparr>ht_rehash_index := int ri\<rparr>"
  let ?h2 = "rehash_move (st_bucket (ht_sub0 ?h1) ri) ?h1"
  let ?h3 = "?h2\<lparr>ht_sub0 := st_set_bucket (ht_sub0 ?h2) ri [], ht_rehash_index := int (ri + 1)\<rparr>"
  have step: "rehash_step h = (if stop then ?h1 else if ri \<ge> ?z then rehash_finalize ?h1
      else if ri + 1 \<ge> ?z then rehash_finalize ?h3 else ?h3)"
    using assms(2) sk by (simp add: rehash_step_def Let_def)
  have "rehash_left ?h1 = ?z + 1 - ri" by (simp add: rehash_left_def is_rehashing_def)
  moreover have "rehash_left ?h3 = ?z - ri" by (simp add: rehash_left_def is_rehashing_def mv nat_add_distrib)
  ultimately show ?thesis
    using step left i skip fin by (auto split: if_splits)
qed

lemma rehash_steps_inv: "ht_inv h \<Longrightarrow> ht_inv ((rehash_step ^^ n) h)"
  by (induction n) (auto intro: rehash_step_ok)

lemma rehash_steps_left:
  "ht_inv h \<Longrightarrow> rehash_left ((rehash_step ^^ n) h) \<le> rehash_left h - n"
proof (induction n)
  case (Suc n)
  let ?g = "(rehash_step ^^ n) h"
  have inv: "ht_inv ?g" by (rule rehash_steps_inv [OF Suc.prems])
  show ?case
  proof (cases "is_rehashing ?g")
    case True
    then show ?thesis using rehash_step_progress [OF inv True] Suc by simp
  next
    case False
    then have "rehash_step ?g = ?g" by (simp add: rehash_step_def)
    then have "rehash_left ((rehash_step ^^ Suc n) h) = 0" using False by (simp add: rehash_left_def)
    then show ?thesis by simp
  qed
qed simp

lemma rehash_left_0: "ht_inv h \<Longrightarrow> rehash_left h = 0 \<longleftrightarrow> \<not> is_rehashing h"
  by (auto simp: rehash_left_def ht_inv_def)

lemma resize_completes_lemma:
  assumes "ht_inv h"
  shows "\<not> is_rehashing ((rehash_step ^^ (st_size (ht_sub0 h) + 1)) h)"
proof -
  have "rehash_left h \<le> st_size (ht_sub0 h) + 1" by (simp add: rehash_left_def)
  then have "rehash_left ((rehash_step ^^ (st_size (ht_sub0 h) + 1)) h) = 0"
    using rehash_steps_left [OF assms, of "st_size (ht_sub0 h) + 1"] by linarith
  then show ?thesis using rehash_left_0 [OF rehash_steps_inv [OF assms]] by blast
qed

section \<open>The table as a component\<close>

text \<open>
  What the rest of the server relies on: a table that stands for a finite map, a lookup
  that reads the map, an insertion that updates it or leaves it alone, a deletion.
\<close>

locale kv_table =
  fixes inv :: "'t \<Rightarrow> bool"
    and contents :: "'t \<Rightarrow> bytes \<Rightarrow> value_entry option"
    and lookup :: "'t \<Rightarrow> bytes \<Rightarrow> value_entry option"
    and put :: "'t \<Rightarrow> bytes \<Rightarrow> bytes \<Rightarrow> int \<Rightarrow> allocs \<Rightarrow> bool \<times> 't \<times> allocs"
    and remove :: "'t \<Rightarrow> bytes \<Rightarrow> bool \<times> 't"
  assumes lookup_contents: "inv t \<Longrightarrow> lookup t k = contents t k"
    and put_inv: "inv t \<Longrightarrow> put t k d enc a = (ok, t', a') \<Longrightarrow> inv t'"
    and put_contents: "inv t \<Longrightarrow> put t k d enc a = (ok, t', a') \<Longrightarrow>
      contents t' = (if ok then (contents t)(k \<mapsto> entry_for d enc) else contents t)"
    and put_safe: "inv t \<Longrightarrow> put t k d enc a = (ok, t', a') \<Longrightarrow> alloc_safe a \<Longrightarrow> ok \<and> alloc_safe a'"
    and remove_inv: "inv t \<Longrightarrow> remove t k = (ok, t') \<Longrightarrow> inv t'"
    and remove_contents: "inv t \<Longrightarrow> remove t k = (ok, t') \<Longrightarrow> contents t' = (contents t)(k := None)"
    and remove_found: "inv t \<Longrightarrow> remove t k = (ok, t') \<Longrightarrow> ok \<longleftrightarrow> contents t k \<noteq> None"
begin

lemma lookup_after_put:
  assumes "inv t" and "put t k d enc a = (True, t', a')"
  shows "lookup t' k = Some (entry_for d enc)" and "j \<noteq> k \<Longrightarrow> lookup t' j = lookup t j"
  using assms lookup_contents put_contents [OF assms] put_inv [OF assms] by auto

lemma lookup_after_failed_put:
  assumes "inv t" and "put t k d enc a = (False, t', a')"
  shows "lookup t' j = lookup t j"
  using assms lookup_contents put_contents [OF assms] put_inv [OF assms] by auto

lemma lookup_after_remove:
  assumes "inv t" and "remove t k = (ok, t')"
  shows "lookup t' k = None" and "j \<noteq> k \<Longrightarrow> lookup t' j = lookup t j"
  using assms lookup_contents remove_contents [OF assms] remove_inv [OF assms] by auto

text \<open>Removing a key and putting its old bytes back restores what was visible of it.\<close>

lemma restore_contents:
  assumes "inv t" and "contents t k = Some v" and "v = entry_for d enc"
    and "put t k d' enc' a = (ok, t', a')" and "put t' k d enc b = (True, t'', b')"
  shows "contents t'' = contents t"
  using put_contents [OF assms(1,4)] put_contents [OF put_inv [OF assms(1,4)] assms(5)] assms(2,3)
  by (auto simp: fun_eq_iff)

end

interpretation ht: kv_table ht_inv ht_map lookup_value set_value delete_value
proof unfold_locales
  fix t k d enc a ok t' a'
  assume "ht_inv t" "set_value t k d enc a = (ok, t', a')"
  note s = set_value_ok [OF this]
  show "ht_inv t'" by (rule s(1))
  show "ht_map t' = (if ok then (ht_map t)(k \<mapsto> entry_for d enc) else ht_map t)" by (rule s(2))
  show "alloc_safe a \<Longrightarrow> ok \<and> alloc_safe a'" by (rule s(3))
next
  fix t k ok t'
  assume "ht_inv t" "delete_value t k = (ok, t')"
  note d = delete_value_ok [OF this]
  show "ht_inv t'" by (rule d(1))
  show "ht_map t' = (ht_map t)(k := None)" by (rule d(2))
  show "ok = (ht_map t k \<noteq> None)" using d(3) by (simp add: domIff)
qed (rule lookup_value_map)

section \<open>Sequences of operations\<close>

text \<open>A client's run of operations on one table, with the answers it sees, and the same run
  on a finite map of keys to bytes and encoding.\<close>

datatype ht_op = Op_set bytes bytes int | Op_get bytes | Op_delete bytes

datatype ht_answer = Ans_stored bool | Ans_value "(bytes \<times> 4 word) option" | Ans_deleted bool

definition view :: "value_entry \<Rightarrow> bytes \<times> 4 word" where
  "view v = (ve_data v, ve_encoding v)"

fun ht_run :: "ht_op list \<Rightarrow> hashtable \<Rightarrow> allocs \<Rightarrow> ht_answer list" where
  "ht_run [] h a = []"
| "ht_run (Op_set k d enc # ops) h a =
     (let (ok, h, a) = set_value h k d enc a in Ans_stored ok # ht_run ops h a)"
| "ht_run (Op_get k # ops) h a = Ans_value (map_option view (lookup_value h k)) # ht_run ops h a"
| "ht_run (Op_delete k # ops) h a =
     (let (ok, h) = delete_value h k in Ans_deleted ok # ht_run ops h a)"

fun map_run :: "ht_op list \<Rightarrow> (bytes \<rightharpoonup> bytes \<times> 4 word) \<Rightarrow> ht_answer list" where
  "map_run [] m = []"
| "map_run (Op_set k d enc # ops) m = Ans_stored True # map_run ops (m(k \<mapsto> (d, of_int enc)))"
| "map_run (Op_get k # ops) m = Ans_value (m k) # map_run ops m"
| "map_run (Op_delete k # ops) m = Ans_deleted (m k \<noteq> None) # map_run ops (m(k := None))"

definition ht_view :: "hashtable \<Rightarrow> bytes \<rightharpoonup> bytes \<times> 4 word" where
  "ht_view h k = map_option view (ht_map h k)"

lemma ht_run_refines:
  "ht_inv h \<Longrightarrow> alloc_safe a \<Longrightarrow> ht_run ops h a = map_run ops (ht_view h)"
proof (induction ops arbitrary: h a)
  case (Cons op ops)
  show ?case
  proof (cases op)
    case (Op_set k d enc)
    obtain ok h' a' where s: "set_value h k d enc a = (ok, h', a')" using prod_cases3 by blast
    note r = set_value_ok [OF Cons.prems(1) s]
    have "ht_view h' = (ht_view h)(k \<mapsto> (d, of_int enc))"
      using r(2) r(3) [OF Cons.prems(2)] by (auto simp: ht_view_def view_def fun_eq_iff)
    with Cons.IH [OF r(1), of a'] have "ht_run ops h' a' = map_run ops ((ht_view h)(k \<mapsto> (d, of_int enc)))"
      using r(3) [OF Cons.prems(2)] by metis
    then show ?thesis using r(3) [OF Cons.prems(2)] s Op_set by simp
  next
    case (Op_get k)
    then show ?thesis using Cons by (simp add: ht_view_def ht.lookup_contents)
  next
    case (Op_delete k)
    obtain ok h' where s: "delete_value h k = (ok, h')" by (cases "delete_value h k") auto
    have "ht_view h' = (ht_view h)(k := None)"
      using ht.remove_contents [OF Cons.prems(1) s] by (auto simp: ht_view_def fun_eq_iff)
    with Cons.IH [OF ht.remove_inv [OF Cons.prems(1) s] Cons.prems(2)]
    have "ht_run ops h' a = map_run ops ((ht_view h)(k := None))" by metis
    moreover have "ok \<longleftrightarrow> ht_view h k \<noteq> None"
      using ht.remove_found [OF Cons.prems(1) s] by (simp add: ht_view_def)
    ultimately show ?thesis using s Op_delete by simp
  qed
qed simp

section \<open>A small table\<close>

definition small_table :: hashtable where
  "small_table = \<lparr>ht_sub0 = \<lparr>st_buckets = Some [[], []], st_size = 2, st_used = 0\<rparr>,
     ht_sub1 = empty_subtable, ht_rehash_index = -1\<rparr>"

lemma small_table_inv: "ht_inv small_table"
  and small_table_empty: "ht_map small_table = Map.empty"
proof -
  have "replicate 2 [] = [[], []]" by (simp add: numeral_2_eq_2)
  then have "create_hash_table 2 [] = (Some small_table, [])"
    by (simp add: create_hash_table_def next_pow2_def calloc_def small_table_def)
  from create_hash_table_ok [OF this] show "ht_inv small_table" "ht_map small_table = Map.empty" by simp_all
qed

section \<open>Properties\<close>

text \<open>C4: The hash table refines a finite map.  For every sequence of insertions, lookups and
  deletions from a well-formed table, through any number of incremental resizes, the
  answers are those of a finite map from keys to bytes and encoding, whenever no
  allocation fails.\<close>

theorem hashtable_refines_map:
  assumes "ht_inv h" and "alloc_safe a"
  shows "ht_run ops h a = map_run ops (ht_view h)"
  using assms by (rule ht_run_refines)

theorem hashtable_refines_map_witness:
  "ht_run [Op_set [1] [10] 2, Op_set [2] [20] 2, Op_set [3] [30] 1, Op_set [1] [11, 12] 2,
     Op_delete [2], Op_get [1], Op_get [2], Op_get [3]] small_table [] =
   [Ans_stored True, Ans_stored True, Ans_stored True, Ans_stored True, Ans_deleted True,
    Ans_value (Some ([11, 12], 2)), Ans_value None, Ans_value (Some ([30], 1))]"
  by (subst hashtable_refines_map) (simp_all add: small_table_inv ht_view_def small_table_empty)

text \<open>C14: One insertion under any allocator: the invariant is kept, and the map the table
  stands for is updated at the key when the call reports success and is unchanged when it
  reports failure; it fails only if an allocation does.  A failed resize loses nothing.\<close>

theorem set_value_correct:
  assumes "ht_inv h" and "set_value h key data enc a = (ok, h', a')"
  shows "ht_inv h' \<and> (alloc_safe a \<longrightarrow> ok \<and> alloc_safe a')
    \<and> ht_map h' = (if ok then (ht_map h)(key \<mapsto> entry_for data enc) else ht_map h)"
  using set_value_ok [OF assms] by blast

theorem set_value_correct_witness:
  "\<exists>h' a'. set_value small_table [1] [10] 2 [False] = (False, h', a') \<and> ht_inv h' \<and> ht_map h' = Map.empty"
proof -
  obtain ok h' a' where s: "set_value small_table [1] [10] 2 [False] = (ok, h', a')" using prod_cases3 by blast
  have "ht_map small_table [1] = None" by (simp add: small_table_empty)
  then have "find_entry small_table [1] (djb2 [1]) = None"
    using find_entry_None [OF small_table_inv] ht_map_None by blast
  then have "fst (set_value small_table [1] [10] 2 [False]) = False"
    using ht_invD(5) [OF small_table_inv]
    by (simp add: set_value_def make_value_entry_def is_rehashing_def small_table_def)
  then have "\<not> ok" using s by simp
  then show ?thesis using s set_value_correct [OF small_table_inv s] small_table_empty by auto
qed

text \<open>C15: One deletion: the invariant is kept, the key is gone, every other key is kept, and
  the result says whether the key was there.\<close>

theorem delete_value_correct:
  assumes "ht_inv h" and "delete_value h key = (found, h')"
  shows "ht_inv h' \<and> ht_map h' = (ht_map h)(key := None) \<and> (found \<longleftrightarrow> key \<in> dom (ht_map h))"
  using delete_value_ok [OF assms] by blast

theorem delete_value_correct_witness:
  "\<exists>h'. delete_value small_table [1] = (False, h') \<and> ht_inv h' \<and> ht_map h' = Map.empty"
proof -
  obtain ok h' where s: "delete_value small_table [1] = (ok, h')" by (cases "delete_value small_table [1]") auto
  show ?thesis using s delete_value_correct [OF small_table_inv s] small_table_empty by auto
qed

text \<open>C16: Lookups do not depend on the state of a resize: the borrowing lookup returns the
  value the map holds, and \<open>get_value\<close> a copy of all its fields when its allocation
  succeeds and nothing otherwise.\<close>

theorem lookups_correct:
  assumes "ht_inv h"
  shows "lookup_value h key = ht_map h key
    \<and> fst (get_value h key a) = (if fst (alloc a) then ht_map h key else None)"
  using assms lookup_value_map get_value_map(1) by blast

theorem lookups_correct_witness:
  "lookup_value small_table [1] = ht_map small_table [1]
    \<and> fst (get_value small_table [1] [False]) = None"
  using lookups_correct [OF small_table_inv, of "[1]" "[False]"] by simp

text \<open>Creation: for a requested size between one and \<open>2 ^ 60\<close> and an allocator that does
  not fail, \<open>create_hash_table\<close> returns an empty well-formed table with at least that many
  buckets, and their number is the least power of two that is.\<close>

lemma create_hash_table_correct:
  assumes "sz \<noteq> 0" and "unat sz \<le> 2 ^ 60" and "alloc_safe a"
  shows "\<exists>h a' m. create_hash_table sz a = (Some h, a') \<and> ht_inv h \<and> ht_map h = Map.empty
    \<and> st_size (ht_sub0 h) = 2 ^ m \<and> unat sz \<le> 2 ^ m \<and> (\<forall>k<m. 2 ^ k < unat sz)"
proof -
  obtain h a' where c: "create_hash_table sz a = (Some h, a')"
    using create_hash_table_succeeds [OF assms] by blast
  have "1 \<le> unat sz" using assms(1) by (metis One_nat_def Suc_leI unat_gt_0)
  then obtain m where m: "unat (next_pow2 sz) = 2 ^ m" "unat sz \<le> 2 ^ m" "\<forall>k<m. 2 ^ k < unat sz"
    using next_pow2_correct [of sz] assms(2) by auto
  have "st_size (ht_sub0 h) = unat (next_pow2 sz)"
    using c by (auto simp: create_hash_table_def Let_def split: prod.splits if_splits)
  then show ?thesis using c m create_hash_table_ok [OF c assms(2)] by auto
qed

theorem create_hash_table_correct_witness:
  "\<exists>h a' m. create_hash_table 1000 [] = (Some h, a') \<and> ht_inv h \<and> ht_map h = Map.empty
    \<and> st_size (ht_sub0 h) = 2 ^ m \<and> unat (1000 :: u64) \<le> 2 ^ m \<and> (\<forall>k<m. 2 ^ k < unat (1000 :: u64))"
  by (rule create_hash_table_correct) simp_all

text \<open>C17: Incremental resizing: a step of it keeps the invariant and the contents of the
  table, strictly decreases what is left to do while a resize is in flight, and as many
  steps as the old table has buckets, plus one, end the resize.\<close>

theorem rehash_step_correct:
  assumes "ht_inv h"
  shows "ht_inv (rehash_step h) \<and> ht_map (rehash_step h) = ht_map h
    \<and> (is_rehashing h \<longrightarrow> rehash_left (rehash_step h) < rehash_left h)
    \<and> \<not> is_rehashing ((rehash_step ^^ (st_size (ht_sub0 h) + 1)) h)"
  using rehash_step_ok [OF assms] ht_map_mset [OF _ assms, of "rehash_step h"]
    rehash_step_progress [OF assms] resize_completes_lemma [OF assms] by simp

theorem rehash_step_correct_witness:
  "\<exists>h a. maybe_start_rehash small_table [] = (h, a) \<and> is_rehashing h
     \<and> \<not> is_rehashing ((rehash_step ^^ (st_size (ht_sub0 h) + 1)) h)"
proof -
  obtain h a where s: "maybe_start_rehash small_table [] = (h, a)" by (cases "maybe_start_rehash small_table []") auto
  have "is_rehashing h"
    using s by (auto simp: maybe_start_rehash_def is_rehashing_def small_table_def calloc_def grow_size.simps)
  moreover have "ht_inv h" using maybe_start_rehash_ok [OF small_table_inv s] by simp
  ultimately show ?thesis using s rehash_step_correct by blast
qed

end
