(* ===== verification/Ttl.thy ===== *)
theory Ttl
  imports Hashtable
begin

text \<open>
  \<open>src/ttl.c\<close>: deadlines are kept in a second hash table as eight big-endian bytes.  Model of
  the five operations and of the sampling sweep, then: the coding of deadlines is lossless,
  a deadline that is set is the one that is read, and a sweep removes exactly the expired
  keys of the buckets it visits.
\<close>

section \<open>Deadlines\<close>

text \<open>The eight stores \<open>(deadline_ms >> k) & 0xFF\<close>, and the expression that reads them back
  into a signed 64-bit integer.\<close>

definition deadline_bytes :: "int \<Rightarrow> bytes" where
  "deadline_bytes d =
     [of_int (drop_bit 56 d), of_int (drop_bit 48 d), of_int (drop_bit 40 d), of_int (drop_bit 32 d),
      of_int (drop_bit 24 d), of_int (drop_bit 16 d), of_int (drop_bit 8 d), of_int d]"

definition deadline_of :: "bytes \<Rightarrow> int" where
  "deadline_of b = sint
     (push_bit 56 (ucast (b ! 0) :: u64) OR push_bit 48 (ucast (b ! 1)) OR
      push_bit 40 (ucast (b ! 2)) OR push_bit 32 (ucast (b ! 3)) OR
      push_bit 24 (ucast (b ! 4)) OR push_bit 16 (ucast (b ! 5)) OR
      push_bit 8 (ucast (b ! 6)) OR ucast (b ! 7))"

definition set_expiry :: "hashtable \<Rightarrow> bytes \<Rightarrow> int \<Rightarrow> allocs \<Rightarrow> bool \<times> hashtable \<times> allocs" where
  "set_expiry expires key deadline_ms a =
     set_value expires key (deadline_bytes deadline_ms) VALUE_ENTRY_TYPE_INT a"

definition get_deadline :: "hashtable \<Rightarrow> bytes \<Rightarrow> int option" where
  "get_deadline expires key =
     (case lookup_value expires key of
        None \<Rightarrow> None
      | Some v \<Rightarrow> if ve_value_len v \<noteq> 8 then None else Some (deadline_of (ve_ptr v)))"

definition remove_expiry :: "hashtable \<Rightarrow> bytes \<Rightarrow> bool \<times> hashtable" where
  "remove_expiry expires key = delete_value expires key"

text \<open>The clock is read only when the key has a deadline.\<close>

definition is_expired :: "hashtable \<Rightarrow> bytes \<Rightarrow> env \<Rightarrow> bool \<times> env" where
  "is_expired expires key e =
     (case get_deadline expires key of
        None \<Rightarrow> (False, e)
      | Some deadline \<Rightarrow> let (now, e) = fkvs_now_ms e in (deadline \<le> now, e))"

definition get_ttl :: "hashtable \<Rightarrow> bytes \<Rightarrow> env \<Rightarrow> int \<times> env" where
  "get_ttl expires key e =
     (case get_deadline expires key of
        None \<Rightarrow> (-2, e)
      | Some deadline \<Rightarrow>
          let (now, e) = fkvs_now_ms e; remaining_ms = deadline - now
          in if remaining_ms \<le> 0 then (0, e) else (remaining_ms div 1000, e))"

section \<open>The sweep\<close>

text \<open>
  The inner loop follows the chain that the bucket holds when it is entered: each \<open>next\<close> is
  read before its entry is deleted, and a deletion frees no other entry.  The static cursor
  is an argument and a result.
\<close>

definition entry_expired :: "int \<Rightarrow> hash_table_entry \<Rightarrow> bool" where
  "entry_expired now en \<longleftrightarrow>
     ve_value_len (he_value en) = 8 \<and> deadline_of (ve_ptr (he_value en)) \<le> now"

fun sweep_chain :: "int \<Rightarrow> chain \<Rightarrow> hashtable \<Rightarrow> hashtable \<Rightarrow> nat \<Rightarrow> hashtable \<times> hashtable \<times> nat" where
  "sweep_chain now [] store expires deleted = (store, expires, deleted)"
| "sweep_chain now (en # next) store expires deleted =
     (if entry_expired now en
      then sweep_chain now next (snd (delete_value store (he_key en)))
             (snd (delete_value expires (he_key en))) (deleted + 1)
      else sweep_chain now next store expires deleted)"

definition bucket_at :: "hashtable \<Rightarrow> nat \<Rightarrow> chain" where
  "bucket_at h pos =
     (if pos < st_size (ht_sub0 h) then st_bucket (ht_sub0 h) pos
      else st_bucket (ht_sub1 h) (pos - st_size (ht_sub0 h)))"

definition bucket_total :: "hashtable \<Rightarrow> nat" where
  "bucket_total h = st_size (ht_sub0 h) + st_size (ht_sub1 h)"

fun sweep_buckets ::
  "int \<Rightarrow> nat list \<Rightarrow> hashtable \<Rightarrow> hashtable \<Rightarrow> nat \<Rightarrow> hashtable \<times> hashtable \<times> nat" where
  "sweep_buckets now [] store expires deleted = (store, expires, deleted)"
| "sweep_buckets now (pos # rest) store expires deleted =
     (let (store, expires, deleted) = sweep_chain now (bucket_at expires pos) store expires deleted
      in sweep_buckets now rest store expires deleted)"

definition expire_sweep ::
  "hashtable \<Rightarrow> hashtable \<Rightarrow> nat \<Rightarrow> nat \<Rightarrow> env \<Rightarrow> nat \<times> hashtable \<times> hashtable \<times> nat \<times> env" where
  "expire_sweep store expires sample_count cursor e =
     (let (now, e) = fkvs_now_ms e; total = bucket_total expires in
      if total = 0 then (0, store, expires, cursor, e)
      else let (store, expires, deleted) =
                 sweep_buckets now (map (\<lambda>i. (cursor + i) mod total) [0..<sample_count])
                   store expires 0
           in (deleted, store, expires, (cursor + sample_count) mod total, e))"

section \<open>The coding of deadlines is lossless\<close>

lemma bit_deadline_byte:
  "bit (push_bit k (ucast (of_int (drop_bit k d) :: byte) :: u64)) n \<longleftrightarrow> k \<le> n \<and> n < k + 8 \<and> n < 64 \<and> bit d n"
  by (auto simp: bit_push_bit_iff bit_ucast_iff bit_of_int_iff bit_drop_bit_eq)

lemma bit_deadline_last:
  "bit (ucast (of_int d :: byte) :: u64) n \<longleftrightarrow> n < 8 \<and> bit d n"
  by (auto simp: bit_ucast_iff bit_of_int_iff)

lemma deadline_word:
  "push_bit 56 (ucast (of_int (drop_bit 56 d) :: byte) :: u64) OR push_bit 48 (ucast (of_int (drop_bit 48 d) :: byte)) OR
   push_bit 40 (ucast (of_int (drop_bit 40 d) :: byte)) OR push_bit 32 (ucast (of_int (drop_bit 32 d) :: byte)) OR
   push_bit 24 (ucast (of_int (drop_bit 24 d) :: byte)) OR push_bit 16 (ucast (of_int (drop_bit 16 d) :: byte)) OR
   push_bit 8 (ucast (of_int (drop_bit 8 d) :: byte)) OR ucast (of_int d :: byte) = of_int d"
  (is "?w = _")
proof (rule bit_word_eqI)
  fix n
  assume "n < LENGTH(64)"
  then have n: "n < 64" by simp
  have "n < 8 \<or> 8 \<le> n \<and> n < 16 \<or> 16 \<le> n \<and> n < 24 \<or> 24 \<le> n \<and> n < 32 \<or> 32 \<le> n \<and> n < 40 \<or>
      40 \<le> n \<and> n < 48 \<or> 48 \<le> n \<and> n < 56 \<or> 56 \<le> n" by linarith
  then show "bit ?w n = bit (of_int d :: u64) n"
    using n unfolding bit_or_iff bit_deadline_byte bit_deadline_last bit_of_int_iff
    by (elim disjE) simp_all
qed

lemma deadline_of_bytes:
  assumes "INT64_MIN \<le> d" and "d \<le> INT64_MAX"
  shows "deadline_of (deadline_bytes d @ rest) = d"
proof -
  have "deadline_of (deadline_bytes d @ rest) = sint (of_int d :: u64)"
    by (simp add: deadline_of_def deadline_bytes_def nth_append deadline_word)
  also have "\<dots> = d" using assms by (simp add: signed_of_int signed_take_bit_int_eq_self)
  finally show ?thesis .
qed

lemma length_deadline_bytes [simp]: "length (deadline_bytes d) = 8"
  by (simp add: deadline_bytes_def)

text \<open>The deadlines a table holds, through its map.\<close>

definition deadlines :: "hashtable \<Rightarrow> bytes \<rightharpoonup> int" where
  "deadlines h k = (case ht_map h k of None \<Rightarrow> None
     | Some v \<Rightarrow> if ve_value_len v \<noteq> 8 then None else Some (deadline_of (ve_ptr v)))"

lemma get_deadline_map: "ht_inv h \<Longrightarrow> get_deadline h k = deadlines h k"
  by (simp add: get_deadline_def deadlines_def ht.lookup_contents)

lemma deadlines_put:
  assumes "ht_inv h" and "set_expiry h k d a = (ok, h', a')" and "INT64_MIN \<le> d" and "d \<le> INT64_MAX"
  shows "ht_inv h'" and "deadlines h' = (if ok then (deadlines h)(k \<mapsto> d) else deadlines h)"
    and "alloc_safe a \<Longrightarrow> ok \<and> alloc_safe a'"
    and "ht_map h' = (if ok then (ht_map h)(k \<mapsto> entry_for (deadline_bytes d) 1) else ht_map h)"
proof -
  note s = assms(1) assms(2) [unfolded set_expiry_def]
  have "deadline_of (ve_ptr (entry_for (deadline_bytes d) VALUE_ENTRY_TYPE_INT)) = d"
    using assms(3,4) by (simp add: entry_for_def deadline_of_bytes)
  then show "deadlines h' = (if ok then (deadlines h)(k \<mapsto> d) else deadlines h)"
    using ht.put_contents [OF s] by (auto simp: deadlines_def fun_eq_iff)
  show "ht_inv h'" "alloc_safe a \<Longrightarrow> ok \<and> alloc_safe a'"
    "ht_map h' = (if ok then (ht_map h)(k \<mapsto> entry_for (deadline_bytes d) 1) else ht_map h)"
    using ht.put_inv [OF s] ht.put_safe [OF s] ht.put_contents [OF s] by auto
qed

lemma deadlines_remove:
  assumes "ht_inv h" and "remove_expiry h k = (ok, h')"
  shows "ht_inv h'" and "deadlines h' = (deadlines h)(k := None)"
    and "ht_map h' = (ht_map h)(k := None)" and "ok \<longleftrightarrow> ht_map h k \<noteq> None"
  using ht.remove_inv [OF assms(1)] ht.remove_contents [OF assms(1)] ht.remove_found [OF assms(1)] assms(2)
  by (auto simp: remove_expiry_def deadlines_def)

section \<open>The sweep removes what it should\<close>

text \<open>Deleting a list of keys.\<close>

definition delete_all :: "bytes list \<Rightarrow> hashtable \<Rightarrow> hashtable" where
  "delete_all ks h = foldl (\<lambda>h k. snd (delete_value h k)) h ks"

lemma delete_all_simps [simp]:
  "delete_all [] h = h" "delete_all (k # ks) h = delete_all ks (snd (delete_value h k))"
  "delete_all (ks @ ls) h = delete_all ls (delete_all ks h)"
  by (simp_all add: delete_all_def)

lemma delete_one:
  assumes "ht_inv h"
  shows "ht_inv (snd (delete_value h k))" and "ht_map (snd (delete_value h k)) = (ht_map h)(k := None)"
  using assms ht.remove_inv ht.remove_contents by (metis prod.collapse)+

lemma delete_all_ok:
  "ht_inv h \<Longrightarrow> ht_inv (delete_all ks h) \<and> ht_map (delete_all ks h) = ht_map h |` (- set ks)"
proof (induction ks arbitrary: h)
  case (Cons k ks)
  then show ?case
    using delete_one [OF Cons.prems, of k] Cons.IH [of "snd (delete_value h k)"]
    by (auto simp: restrict_map_def fun_eq_iff)
qed (simp add: restrict_map_def fun_eq_iff)

text \<open>A deletion takes the key out of the bucket that holds it and touches no other.\<close>

lemma unlink_filter:
  assumes "p < length c" and "distinct (map he_key c)" and "he_key (c ! p) = k"
  shows "unlink c p = filter (\<lambda>e. he_key e \<noteq> k) c"
proof -
  have c: "c = take p c @ c ! p # drop (Suc p) c" by (rule id_take_nth_drop [OF assms(1)])
  then have d: "distinct (map he_key (take p c @ c ! p # drop (Suc p) c))" using assms(2) by simp
  have "filter (\<lambda>e. he_key e \<noteq> k) xs = xs" if "k \<notin> he_key ` set xs" for xs
    using that by (auto simp: filter_id_conv)
  from this [of "take p c"] this [of "drop (Suc p) c"]
  have "filter (\<lambda>e. he_key e \<noteq> k) (take p c @ c ! p # drop (Suc p) c) = unlink c p"
    using assms(3) d by (simp add: unlink_def)
  then show ?thesis using c by simp
qed

lemma distinct_map_concat:
  assumes "distinct (map f (concat bs))" and "i < length bs"
  shows "distinct (map f (bs ! i))"
    and "j < length bs \<Longrightarrow> k \<in> f ` set (bs ! i) \<Longrightarrow> k \<in> f ` set (bs ! j) \<Longrightarrow> i = j"
proof -
  show "distinct (map f (bs ! i))"
    using assms by (induction bs arbitrary: i) (auto simp: nth_Cons split: nat.splits)
  have "k \<notin> f ` set (bs ! j)" if "i < j" "j < length bs" "k \<in> f ` set (bs ! i)" for i j
    using assms(1) that
  proof (induction bs arbitrary: i j)
    case (Cons b bs)
    obtain j' where j: "j = Suc j'" using Cons.prems(2) by (cases j) auto
    show ?case
    proof (cases i)
      case 0
      have "f ` set (bs ! j') \<subseteq> f ` set (concat bs)" using Cons.prems(3) j set_concat_nth by fastforce
      then show ?thesis using Cons.prems 0 j by auto
    next
      case (Suc i')
      then show ?thesis using Cons.IH [of i' j'] Cons.prems j by auto
    qed
  qed simp
  then show "j < length bs \<Longrightarrow> k \<in> f ` set (bs ! i) \<Longrightarrow> k \<in> f ` set (bs ! j) \<Longrightarrow> i = j"
    using assms(2) by (metis linorder_neqE_nat)
qed

text \<open>The two bucket arrays as one: the space the sweep's positions range over.\<close>

lemma bucket_space:
  assumes "ht_inv h"
  defines "bs \<equiv> st_array (ht_sub0 h) @ st_array (ht_sub1 h)"
  shows "length bs = bucket_total h" and "concat bs = ht_entries h"
    and "\<And>pos. bucket_at h pos = bs ! pos"
proof -
  have l: "length (st_array (ht_sub0 h)) = st_size (ht_sub0 h)"
    "length (st_array (ht_sub1 h)) = st_size (ht_sub1 h)"
    using ht_invD(1-3) [OF assms(1)] live_subD(2) by (cases "is_rehashing h", auto)+
  then show "length bs = bucket_total h" "\<And>pos. bucket_at h pos = bs ! pos"
    by (auto simp: bs_def bucket_total_def bucket_at_def st_bucket_def nth_append)
  show "concat bs = ht_entries h" by (simp add: bs_def ht_entries_def sub_entries_def)
qed

lemma bucket_at_entries:
  assumes "ht_inv h" and "pos < bucket_total h"
  shows "set (bucket_at h pos) \<subseteq> set (ht_entries h)" and "distinct (map he_key (bucket_at h pos))"
    and "pos' < bucket_total h \<Longrightarrow> k \<in> he_key ` set (bucket_at h pos) \<Longrightarrow>
         k \<in> he_key ` set (bucket_at h pos') \<Longrightarrow> pos = pos'"
proof -
  note b = bucket_space [OF assms(1)]
  show "set (bucket_at h pos) \<subseteq> set (ht_entries h)"
  proof
    fix x
    assume "x \<in> set (bucket_at h pos)"
    then have "x \<in> set (concat (st_array (ht_sub0 h) @ st_array (ht_sub1 h)))"
      using assms(2) unfolding set_concat_nth b(1) b(3) by blast
    then show "x \<in> set (ht_entries h)" by (simp only: b(2))
  qed
  have "distinct (map he_key (concat (st_array (ht_sub0 h) @ st_array (ht_sub1 h))))"
    using ht_invD(4) [OF assms(1)] by (simp only: b(2))
  note d = distinct_map_concat [OF this, unfolded b(1), folded b(3), OF assms(2)]
  show "distinct (map he_key (bucket_at h pos))" by (rule d(1))
  show "pos' < bucket_total h \<Longrightarrow> k \<in> he_key ` set (bucket_at h pos) \<Longrightarrow>
         k \<in> he_key ` set (bucket_at h pos') \<Longrightarrow> pos = pos'" by (rule d(2))
qed

lemma bucket_at_delete:
  assumes inv: "ht_inv h" and pos: "pos < bucket_total h"
  shows "bucket_at (snd (delete_value h k)) pos = filter (\<lambda>e. he_key e \<noteq> k) (bucket_at h pos)"
    and "bucket_total (snd (delete_value h k)) = bucket_total h"
proof -
  have absent: "filter (\<lambda>e. he_key e \<noteq> k) c = c" if "k \<notin> he_key ` set c" for c
    using that by (auto simp: filter_id_conv)
  have "bucket_at (snd (delete_value h k)) pos = filter (\<lambda>e. he_key e \<noteq> k) (bucket_at h pos)
    \<and> bucket_total (snd (delete_value h k)) = bucket_total h"
  proof (cases "find_entry h k (djb2 k)")
    case None
    then have "k \<notin> he_key ` set (ht_entries h)" using find_entry_None [OF inv] by blast
    then have "k \<notin> he_key ` set (bucket_at h pos)" using bucket_at_entries(1) [OF assms] by auto
    then show ?thesis using None absent [of "bucket_at h pos"] by (simp add: delete_value_eq [OF inv])
  next
    case (Some q)
    obtain t i p where q: "q = (t, i, p)" by (cases q) auto
    note pt = find_entry_Some [OF inv Some, unfolded q]
    let ?s = "ht_sub h t"
    define pos' where "pos' = (if t = 0 then i else st_size (ht_sub0 h) + i)"
    have t: "t = 0 \<or> t = 1" and i: "i < st_size ?s" using pt by auto
    have pos': "pos' < bucket_total h" and at: "bucket_at h pos' = st_bucket ?s i"
      using t i by (auto simp: pos'_def bucket_total_def bucket_at_def ht_sub_def)
    have here: "unlink (st_bucket ?s i) p = filter (\<lambda>e. he_key e \<noteq> k) (st_bucket ?s i)"
      using pt bucket_at_entries(2) [OF inv pos'] by (intro unlink_filter) (auto simp: at)
    have live: "live_sub ?s" using live_sub_t [OF inv] pt by auto
    have "i < length (st_array ?s)" using i live_subD(2) [OF live] by simp
    then have new: "bucket_at (snd (delete_value h k)) pos =
        (if pos = pos' then unlink (st_bucket ?s i) p else bucket_at h pos)"
      using t i Some pos unfolding delete_value_eq [OF inv] q pos'_def put_chain_def
      by (auto simp: bucket_at_def ht_set_sub_def ht_sub_def st_bucket_set_bucket bucket_total_def)
    have other: "k \<notin> he_key ` set (bucket_at h pos)" if "pos \<noteq> pos'"
    proof
      assume k: "k \<in> he_key ` set (bucket_at h pos)"
      have "p < length (st_bucket ?s i)" and key: "k = he_key (st_bucket ?s i ! p)" using pt by auto
      then have "st_bucket ?s i ! p \<in> set (bucket_at h pos')" unfolding at by (intro nth_mem)
      with key have "k \<in> he_key ` set (bucket_at h pos')" by (rule image_eqI)
      then show False using bucket_at_entries(3) [OF inv pos pos' k] that by blast
    qed
    show ?thesis
      using new here other absent [of "bucket_at h pos"] at Some t
      by (auto simp: delete_value_eq [OF inv] q put_chain_def ht_set_sub_def ht_sub_def bucket_total_def)
  qed
  then show "bucket_at (snd (delete_value h k)) pos = filter (\<lambda>e. he_key e \<noteq> k) (bucket_at h pos)"
    "bucket_total (snd (delete_value h k)) = bucket_total h" by auto
qed


lemma bucket_at_delete_all:
  "ht_inv h \<Longrightarrow> pos < bucket_total h \<Longrightarrow>
   bucket_at (delete_all ks h) pos = filter (\<lambda>e. he_key e \<notin> set ks) (bucket_at h pos)
   \<and> bucket_total (delete_all ks h) = bucket_total h"
proof (induction ks arbitrary: h)
  case (Cons k ks)
  note d = bucket_at_delete [OF Cons.prems, of k]
  have "ht_inv (snd (delete_value h k))" by (rule delete_one(1) [OF Cons.prems(1)])
  then show ?case using Cons.IH [of "snd (delete_value h k)"] Cons.prems d by (auto intro: filter_cong)
qed simp

definition expired_keys :: "int \<Rightarrow> chain \<Rightarrow> bytes list" where
  "expired_keys now c = map he_key (filter (entry_expired now) c)"

lemma sweep_chain_eq:
  "sweep_chain now c store expires n =
     (delete_all (expired_keys now c) store, delete_all (expired_keys now c) expires,
      n + length (expired_keys now c))"
  by (induction c arbitrary: store expires n) (auto simp: expired_keys_def)

definition swept_keys :: "int \<Rightarrow> hashtable \<Rightarrow> nat set \<Rightarrow> bytes set" where
  "swept_keys now h P = (\<Union>pos \<in> P. set (expired_keys now (bucket_at h pos)))"

lemma sweep_buckets_eq:
  assumes "ht_inv expires" and "set ps \<subseteq> {..<bucket_total expires}"
  shows "\<exists>ks. sweep_buckets now ps store expires n =
      (delete_all ks store, delete_all ks expires, n + length ks)
    \<and> distinct ks \<and> set ks = swept_keys now expires (set ps)"
  using assms
proof (induction ps arbitrary: store expires n)
  case Nil
  show ?case by (rule exI [of _ "[]"]) (simp add: swept_keys_def)
next
  case (Cons p ps)
  define ks where "ks = expired_keys now (bucket_at expires p)"
  let ?h = "delete_all ks expires"
  have inv: "ht_inv ?h" using delete_all_ok [OF Cons.prems(1)] by blast
  have at: "bucket_at ?h q = filter (\<lambda>e. he_key e \<notin> set ks) (bucket_at expires q)"
    and tot: "bucket_total ?h = bucket_total expires" if "q < bucket_total expires" for q
    using bucket_at_delete_all [OF Cons.prems(1) that] by auto
  have "p < bucket_total expires" using Cons.prems(2) by auto
  then have "set ps \<subseteq> {..<bucket_total ?h}" using Cons.prems(2) tot by auto
  from Cons.IH [OF inv this, of "delete_all ks store" "n + length ks"]
  obtain ls where ls: "sweep_buckets now ps (delete_all ks store) ?h (n + length ks) =
      (delete_all ls (delete_all ks store), delete_all ls ?h, n + length ks + length ls)"
      "distinct ls" "set ls = swept_keys now ?h (set ps)" by auto
  have "set (expired_keys now (bucket_at ?h q)) = set (expired_keys now (bucket_at expires q)) - set ks"
    if "q \<in> set ps" for q
    using at [of q] Cons.prems(2) that by (auto simp: expired_keys_def)
  then have sw: "set ls = swept_keys now expires (set ps) - set ks"
    by (auto simp: ls(3) swept_keys_def)
  have "distinct (map he_key (bucket_at expires p))"
    using bucket_at_entries(2) [OF Cons.prems(1)] Cons.prems(2) by auto
  then have "distinct ks" unfolding ks_def expired_keys_def by (rule distinct_map_filter)
  then show ?case
    using ls(1,2) sw
    by (intro exI [of _ "ks @ ls"]) (auto simp: sweep_chain_eq ks_def [symmetric] swept_keys_def)
qed

text \<open>The buckets a sweep visits from a cursor on.\<close>

definition sweep_window :: "hashtable \<Rightarrow> nat \<Rightarrow> nat \<Rightarrow> nat set" where
  "sweep_window h cursor n = (\<lambda>i. (cursor + i) mod bucket_total h) ` {..<n}"

lemma bucket_total_pos: "ht_inv h \<Longrightarrow> 0 < bucket_total h"
  using live_subD(3) [OF ht_invD(1)] by (simp add: bucket_total_def)

lemma expire_sweep_ok:
  assumes "ht_inv store" and "ht_inv expires"
    and "expire_sweep store expires n cursor e = (deleted, store', expires', cursor', e')"
  defines "K \<equiv> swept_keys (fst (fkvs_now_ms e)) expires (sweep_window expires cursor n)"
  shows "ht_inv store'" and "ht_inv expires'" and "ht_map store' = ht_map store |` (- K)"
    and "ht_map expires' = ht_map expires |` (- K)" and "deleted = card K"
    and "cursor' = (cursor + n) mod bucket_total expires" and "e' = snd (fkvs_now_ms e)"
proof -
  let ?ps = "map (\<lambda>i. (cursor + i) mod bucket_total expires) [0..<n]"
  have z: "bucket_total expires \<noteq> 0" using bucket_total_pos [OF assms(2)] by simp
  then have "set ?ps \<subseteq> {..<bucket_total expires}" by auto
  from sweep_buckets_eq [OF assms(2) this, of "fst (fkvs_now_ms e)" store 0]
  obtain ks where ks: "sweep_buckets (fst (fkvs_now_ms e)) ?ps store expires 0 =
      (delete_all ks store, delete_all ks expires, length ks)" "distinct ks"
      "set ks = swept_keys (fst (fkvs_now_ms e)) expires (set ?ps)" by auto
  have "set ?ps = sweep_window expires cursor n" by (auto simp: sweep_window_def)
  then have K: "set ks = K" using ks(3) by (simp add: K_def)
  have r: "store' = delete_all ks store" "expires' = delete_all ks expires" "deleted = length ks"
    and c: "cursor' = (cursor + n) mod bucket_total expires" "e' = snd (fkvs_now_ms e)"
    using assms(3) z ks(1) by (auto simp: expire_sweep_def Let_def split: prod.splits)
  show "cursor' = (cursor + n) mod bucket_total expires" "e' = snd (fkvs_now_ms e)" by (fact c)+
  show "ht_inv store'" "ht_inv expires'" "ht_map store' = ht_map store |` (- K)"
    "ht_map expires' = ht_map expires |` (- K)"
    using delete_all_ok [OF assms(1), of ks] delete_all_ok [OF assms(2), of ks] K by (simp_all add: r)
  show "deleted = card K" using ks(2) K r(3) distinct_card by metis
qed

lemma swept_key_expired:
  assumes "ht_inv h" and "k \<in> swept_keys now h P" and "P \<subseteq> {..<bucket_total h}"
  shows "\<exists>d. deadlines h k = Some d \<and> d \<le> now"
proof -
  from assms(2) obtain pos en where en: "pos \<in> P" "en \<in> set (bucket_at h pos)" "entry_expired now en"
      "he_key en = k"
    by (auto simp: swept_keys_def expired_keys_def)
  then have "en \<in> set (ht_entries h)" using bucket_at_entries(1) [OF assms(1)] assms(3) by blast
  then have "ht_map h k = Some (he_value en)" using ht_map_eq [OF assms(1)] en(4) by blast
  then show ?thesis using en(3) by (auto simp: deadlines_def entry_expired_def)
qed

lemma sweep_window_bound: "ht_inv h \<Longrightarrow> sweep_window h cursor n \<subseteq> {..<bucket_total h}"
  using bucket_total_pos by (auto simp: sweep_window_def)

text \<open>A window as long as the bucket space covers it.\<close>

lemma sweep_window_all:
  assumes "ht_inv h" and "bucket_total h \<le> n"
  shows "sweep_window h cursor n = {..<bucket_total h}"
proof
  let ?t = "bucket_total h"
  have t: "0 < ?t" by (rule bucket_total_pos [OF assms(1)])
  show "{..<?t} \<subseteq> sweep_window h cursor n"
  proof
    fix p
    assume "p \<in> {..<?t}"
    then have p: "p < ?t" by simp
    define i where "i = (p + (?t - cursor mod ?t)) mod ?t"
    have le: "cursor mod ?t \<le> ?t" using t by (simp add: less_imp_le)
    have "(cursor + i) mod ?t = (cursor mod ?t + (p + (?t - cursor mod ?t))) mod ?t"
      unfolding i_def by (simp add: mod_simps)
    also have "cursor mod ?t + (p + (?t - cursor mod ?t)) = p + ?t" using le by simp
    finally have "(cursor + i) mod ?t = p" using p by simp
    moreover have "i < n"
      unfolding i_def by (rule order_less_le_trans [OF mod_less_divisor [OF t] assms(2)])
    ultimately show "p \<in> sweep_window h cursor n" by (force simp: sweep_window_def)
  qed
qed (rule sweep_window_bound [OF assms(1)])

lemma swept_keys_all:
  assumes "ht_inv h"
  shows "swept_keys now h {..<bucket_total h} = {k. \<exists>d. deadlines h k = Some d \<and> d \<le> now}"
proof (intro equalityI subsetI)
  fix k
  assume "k \<in> swept_keys now h {..<bucket_total h}"
  then show "k \<in> {k. \<exists>d. deadlines h k = Some d \<and> d \<le> now}" using swept_key_expired [OF assms] by blast
next
  fix k
  assume "k \<in> {k. \<exists>d. deadlines h k = Some d \<and> d \<le> now}"
  then obtain v where v: "ht_map h k = Some v" "ve_value_len v = 8" "deadline_of (ve_ptr v) \<le> now"
    by (auto simp: deadlines_def split: option.splits if_splits)
  then obtain en where en: "en \<in> set (ht_entries h)" "he_key en = k" "he_value en = v"
    using ht_map_eq [OF assms] by blast
  note b = bucket_space [OF assms]
  have "en \<in> set (concat (st_array (ht_sub0 h) @ st_array (ht_sub1 h)))" using en(1) by (simp only: b(2))
  then obtain pos where pos: "pos < bucket_total h" "en \<in> set (bucket_at h pos)"
    unfolding set_concat_nth b(1) b(3) by blast
  then show "k \<in> swept_keys now h {..<bucket_total h}"
    using en v by (auto simp: swept_keys_def expired_keys_def entry_expired_def)
qed


section \<open>Properties\<close>

text \<open>C21: The deadline that is set is the deadline that is read: for every signed 64-bit
  deadline, a successful \<open>set_expiry\<close> makes \<open>get_deadline\<close> return it for the key and
  changes the deadline of no other key; a failed one changes none; and it fails only when
  an allocation does.\<close>

theorem set_expiry_roundtrip:
  assumes "ht_inv expires" and "INT64_MIN \<le> d" and "d \<le> INT64_MAX"
    and "set_expiry expires key d a = (ok, expires', a')"
  shows "ht_inv expires' \<and> (alloc_safe a \<longrightarrow> ok)
    \<and> get_deadline expires' j = (if ok \<and> j = key then Some d else get_deadline expires j)"
  using deadlines_put [OF assms(1,4,2,3)] get_deadline_map [OF assms(1)] get_deadline_map [of expires' j]
  by auto

theorem set_expiry_roundtrip_witness:
  "\<exists>ok t a. set_expiry small_table [107] 1234567890123 [] = (ok, t, a) \<and> ok
     \<and> get_deadline t [107] = Some 1234567890123"
proof -
  obtain ok t a where s: "set_expiry small_table [107] 1234567890123 [] = (ok, t, a)"
    using prod_cases3 by blast
  show ?thesis using s set_expiry_roundtrip [OF small_table_inv _ _ s, of "[107]"] by auto
qed


text \<open>A store and an expiry table in which one key is past its deadline.\<close>

definition late_expires :: hashtable where
  "late_expires = fst (snd (set_expiry small_table [107] 5 []))"

lemma late_expires_ok:
  "ht_inv late_expires" "deadlines late_expires = [[107] \<mapsto> 5]"
proof -
  obtain ok t a where s: "set_expiry small_table [107] 5 [] = (ok, t, a)" using prod_cases3 by blast
  have "ok" "ht_inv t" "deadlines t = (deadlines small_table)([107] \<mapsto> 5)"
    using deadlines_put [OF small_table_inv s] by auto
  then show "ht_inv late_expires" "deadlines late_expires = [[107] \<mapsto> 5]"
    using s small_table_empty by (auto simp: late_expires_def deadlines_def fun_eq_iff)
qed

lemma late_store_ok: "ht_map late_expires [107] \<noteq> None"
  using late_expires_ok(2) by (auto simp: deadlines_def fun_eq_iff split: option.splits if_splits)

abbreviation (input) late_env :: env where
  "late_env \<equiv> \<lparr>env_allocs = [], env_clock = [], env_now = 7, env_sends = [],
     env_time = 0, env_maxrss = 0\<rparr>"


text \<open>C23: A sweep whose sample is at least the number of buckets leaves no expired key:
  afterwards the store and the expiry table hold exactly the keys whose deadline, if they
  have one, is still to come.\<close>

theorem expire_sweep_complete:
  assumes "ht_inv store" and "ht_inv expires" and "bucket_total expires \<le> n"
    and "expire_sweep store expires n cursor e = (deleted, store', expires', cursor', e')"
  shows "ht_map store' = ht_map store |` {k. \<forall>d. deadlines expires k = Some d \<longrightarrow> fst (fkvs_now_ms e) < d}
    \<and> deadlines expires' = deadlines expires |` {k. \<forall>d. deadlines expires k = Some d \<longrightarrow> fst (fkvs_now_ms e) < d}"
proof -
  let ?live = "{k. \<forall>d. deadlines expires k = Some d \<longrightarrow> fst (fkvs_now_ms e) < d}"
  have "- swept_keys (fst (fkvs_now_ms e)) expires (sweep_window expires cursor n) = ?live"
    by (simp only: sweep_window_all [OF assms(2,3)] swept_keys_all [OF assms(2)]) auto
  with expire_sweep_ok(3,4) [OF assms(1,2,4)]
  have "ht_map store' = ht_map store |` ?live" "ht_map expires' = ht_map expires |` ?live" by simp_all
  then show ?thesis by (auto simp: deadlines_def restrict_map_def fun_eq_iff)
qed

theorem expire_sweep_complete_witness:
  "\<exists>deleted store' expires' cursor' e'.
     expire_sweep late_expires late_expires (bucket_total late_expires) 3 late_env
       = (deleted, store', expires', cursor', e')
     \<and> ht_map late_expires [107] \<noteq> None \<and> ht_map store' [107] = None"
proof -
  obtain deleted store' expires' cursor' e' where
    s: "expire_sweep late_expires late_expires (bucket_total late_expires) 3 late_env
      = (deleted, store', expires', cursor', e')"
    using prod_cases5 by blast
  show ?thesis
    using s expire_sweep_complete [OF late_expires_ok(1) late_expires_ok(1) order_refl s]
      late_expires_ok(2) late_store_ok
    by (auto simp: fkvs_now_ms_def)
qed

end
