(* ===== verification/Registry.thy ===== *)
theory Registry
  imports Prelude
begin

text \<open>
  The server side of a connection: the state of \<open>src/client.h\<close> and \<open>src/client.c\<close>, and the
  response queue and framed replies of \<open>src/commands/common/command_registry.c\<close>.  Proved:
  the bound on the queue, that a reply is queued whole or the connection is marked failed,
  that bytes leave in order, and that reply frames decode uniquely.
\<close>

section \<open>The connection\<close>

abbreviation (input) FKVS_CLIENT_READ_BUFFER_SIZE :: nat where "FKVS_CLIENT_READ_BUFFER_SIZE \<equiv> 65536"
abbreviation (input) FKVS_CLIENT_WRITE_BUFFER_INITIAL_CAPACITY :: nat where
  "FKVS_CLIENT_WRITE_BUFFER_INITIAL_CAPACITY \<equiv> 65536"
abbreviation (input) FKVS_CLIENT_WRITE_BUFFER_MAX_CAPACITY :: nat where
  "FKVS_CLIENT_WRITE_BUFFER_MAX_CAPACITY \<equiv> 1048576"

text \<open>
  \<open>cl_wbuf\<close> are the queued bytes, so \<open>wbuf_used\<close> is its length; a NULL \<open>wbuf\<close> is capacity
  zero, since both are set together.  \<open>cl_sent\<close> records the bytes the socket has accepted.
\<close>

record client =
  cl_fd :: int
  cl_buffer :: bytes
  cl_buf_used :: nat
  cl_frame_need :: int
  cl_wbuf :: bytes
  cl_wbuf_capacity :: nat
  cl_write_failed :: bool
  cl_write_registered :: bool
  cl_sent :: bytes

definition init_client :: "int \<Rightarrow> env \<Rightarrow> client option \<times> env" where
  "init_client client_fd e =
     (let (ok, e) = env_alloc e in
      if \<not> ok then (None, e)
      else let (ok, e) = env_alloc e in
        if \<not> ok then (None, e)
        else (Some \<lparr>cl_fd = client_fd, cl_buffer = replicate FKVS_CLIENT_READ_BUFFER_SIZE 0,
                   cl_buf_used = 0, cl_frame_need = -1, cl_wbuf = [],
                   cl_wbuf_capacity = FKVS_CLIENT_WRITE_BUFFER_INITIAL_CAPACITY,
                   cl_write_failed = False, cl_write_registered = False, cl_sent = []\<rparr>, e))"

section \<open>The response queue\<close>

text \<open>
  The loop of \<open>wbuf_flush\<close>: the number of bytes accepted and whether a real error ended it.
  \<open>send\<close> accepts at most what it is given.
\<close>

fun flush_loop :: "nat \<Rightarrow> nat \<Rightarrow> send_result list \<Rightarrow> nat \<times> bool \<times> send_result list" where
  "flush_loop used sent [] = (sent, False, [])"
| "flush_loop used sent (r # rs) =
     (if sent < used
      then case r of
          Sent n \<Rightarrow> if n > 0 then flush_loop used (sent + min n (used - sent)) rs else (sent, False, rs)
        | Send_again \<Rightarrow> (sent, False, rs)
        | Send_intr \<Rightarrow> flush_loop used sent rs
        | Send_error \<Rightarrow> (sent, True, rs)
      else (sent, False, r # rs))"

definition wbuf_flush :: "client \<Rightarrow> env \<Rightarrow> client \<times> env" where
  "wbuf_flush c e =
     (if cl_wbuf_capacity c = 0 \<or> length (cl_wbuf c) = 0 \<or> cl_write_failed c then (c, e)
      else let (sent, failed, rs) = flush_loop (length (cl_wbuf c)) 0 (env_sends e);
               e = e\<lparr>env_sends := rs\<rparr>;
               c' = c\<lparr>cl_sent := cl_sent c @ take sent (cl_wbuf c)\<rparr>
           in if failed then (c'\<lparr>cl_wbuf := [], cl_write_failed := True\<rparr>, e)
              else (c'\<lparr>cl_wbuf := drop sent (cl_wbuf c)\<rparr>, e))"

text \<open>The doubling loop; the capacity is not zero there.\<close>

function wbuf_grow :: "nat \<Rightarrow> nat \<Rightarrow> nat" where
  "wbuf_grow new_capacity needed =
     (if 0 < new_capacity \<and> new_capacity < needed \<and> new_capacity < FKVS_CLIENT_WRITE_BUFFER_MAX_CAPACITY
      then wbuf_grow (if new_capacity > FKVS_CLIENT_WRITE_BUFFER_MAX_CAPACITY div 2
                      then FKVS_CLIENT_WRITE_BUFFER_MAX_CAPACITY else new_capacity * 2) needed
      else new_capacity)"
  by pat_completeness auto
termination
  by (relation "measure (\<lambda>(n, _). FKVS_CLIENT_WRITE_BUFFER_MAX_CAPACITY - n)") auto

declare wbuf_grow.simps [simp del]

definition fail_write :: "client \<Rightarrow> client" where
  "fail_write c = c\<lparr>cl_write_failed := True\<rparr>"

definition wbuf_reserve :: "nat \<Rightarrow> client \<Rightarrow> env \<Rightarrow> bool \<times> client \<times> env" where
  "wbuf_reserve len c e =
     (if cl_write_failed c then (False, c, e)
      else if len = 0 then (True, c, e)
      else if len > FKVS_CLIENT_WRITE_BUFFER_MAX_CAPACITY - length (cl_wbuf c) then (False, fail_write c, e)
      else if cl_wbuf_capacity c = 0 then (False, fail_write c, e)
      else if length (cl_wbuf c) + len \<le> cl_wbuf_capacity c then (True, c, e)
      else let (c, e) = (if length (cl_wbuf c) > 0 then wbuf_flush c e else (c, e)) in
        if cl_write_failed c then (False, c, e)
        else let needed = length (cl_wbuf c) + len in
          if needed \<le> cl_wbuf_capacity c then (True, c, e)
          else let new_capacity = wbuf_grow (cl_wbuf_capacity c) needed in
            if new_capacity < needed then (False, fail_write c, e)
            else let (ok, e) = env_alloc e in
              if \<not> ok then (False, fail_write c, e)
              else (True, c\<lparr>cl_wbuf_capacity := new_capacity\<rparr>, e))"

definition wbuf_append :: "bytes \<Rightarrow> client \<Rightarrow> env \<Rightarrow> client \<times> env" where
  "wbuf_append data c e =
     (let (ok, c, e) = wbuf_reserve (length data) c e in
      if \<not> ok then (c, e) else (c\<lparr>cl_wbuf := cl_wbuf c @ data\<rparr>, e))"

section \<open>Replies\<close>

abbreviation (input) STATUS_SUCCESS :: byte where "STATUS_SUCCESS \<equiv> 1"
abbreviation (input) STATUS_FAILURE :: byte where "STATUS_FAILURE \<equiv> 0"
abbreviation (input) CMD_SET :: byte where "CMD_SET \<equiv> 1"
abbreviation (input) CMD_GET :: byte where "CMD_GET \<equiv> 2"
abbreviation (input) CMD_INCR :: byte where "CMD_INCR \<equiv> 3"
abbreviation (input) CMD_INCR_BY :: byte where "CMD_INCR_BY \<equiv> 4"
abbreviation (input) CMD_PING :: byte where "CMD_PING \<equiv> 5"
abbreviation (input) CMD_DECR :: byte where "CMD_DECR \<equiv> 6"
abbreviation (input) CMD_INFO :: byte where "CMD_INFO \<equiv> 7"
abbreviation (input) CMD_DECR_BY :: byte where "CMD_DECR_BY \<equiv> 8"
abbreviation (input) CMD_DEL :: byte where "CMD_DEL \<equiv> 9"
abbreviation (input) CMD_EXPIRE :: byte where "CMD_EXPIRE \<equiv> 10"
abbreviation (input) CMD_TTL :: byte where "CMD_TTL \<equiv> 11"
abbreviation (input) CMD_PERSIST :: byte where "CMD_PERSIST \<equiv> 12"
abbreviation (input) CMD_KEYS :: byte where "CMD_KEYS \<equiv> 13"

definition send_ok :: "client \<Rightarrow> env \<Rightarrow> client \<times> env" where
  "send_ok c e = (if cl_fd c < 0 then (c, e) else wbuf_append [0, 1, STATUS_SUCCESS] c e)"

definition send_error :: "client \<Rightarrow> env \<Rightarrow> client \<times> env" where
  "send_error c e = (if cl_fd c < 0 then (c, e) else wbuf_append [0, 1, STATUS_FAILURE] c e)"

text \<open>What \<open>send_reply\<close>, \<open>send_keys_reply\<close>, \<open>send_info_reply\<close> and \<open>send_pong\<close> do with their
  own tag: reserve the whole frame, then queue the five header bytes and the data.\<close>

definition queue_frame :: "byte \<Rightarrow> bytes \<Rightarrow> client \<Rightarrow> env \<Rightarrow> client \<times> env" where
  "queue_frame tag data c e =
     (let core_cmd_len = length data + 3; full_frame_length = core_cmd_len + 2 in
      if core_cmd_len > UINT16_MAX then send_error c e
      else let (ok, c, e) = wbuf_reserve full_frame_length c e in
        if \<not> ok then (c, e)
        else let (c, e) = wbuf_append (put_u16 core_cmd_len @ [tag] @ put_u16 (length data)) c e
             in wbuf_append data c e)"

definition send_reply :: "bytes \<Rightarrow> client \<Rightarrow> env \<Rightarrow> client \<times> env" where
  "send_reply data c e = (if cl_fd c < 0 then (c, e) else queue_frame STATUS_SUCCESS data c e)"

definition send_keys_reply :: "bytes \<Rightarrow> client \<Rightarrow> env \<Rightarrow> client \<times> env" where
  "send_keys_reply data c e = (if cl_fd c < 0 then (c, e) else queue_frame CMD_KEYS data c e)"

definition send_info_reply :: "bytes \<Rightarrow> client \<Rightarrow> env \<Rightarrow> client \<times> env" where
  "send_info_reply data c e = (if cl_fd c < 0 then (c, e) else queue_frame CMD_INFO data c e)"

definition send_pong :: "bytes \<Rightarrow> nat \<Rightarrow> client \<Rightarrow> env \<Rightarrow> (client \<times> env) option" where
  "send_pong buffer bytes_read c e =
     (if cl_fd c < 0 then Some (c, e)
      else if bytes_read < 5 then Some (send_error c e)
      else do {
        value_len \<leftarrow> rd_u16 buffer 3;
        if 5 + value_len > bytes_read then Some (send_error c e)
        else do {
          data \<leftarrow> slice buffer 5 value_len;
          Some (queue_frame CMD_PING data c e)
        }
      })"

section \<open>The queue is bounded and keeps its order\<close>

text \<open>What every connection of the server satisfies, and the bytes it has been given to send.\<close>

definition client_inv :: "client \<Rightarrow> bool" where
  "client_inv c \<longleftrightarrow> 0 \<le> cl_fd c \<and> length (cl_buffer c) = FKVS_CLIENT_READ_BUFFER_SIZE
     \<and> cl_buf_used c \<le> FKVS_CLIENT_READ_BUFFER_SIZE
     \<and> 0 < cl_wbuf_capacity c \<and> length (cl_wbuf c) \<le> cl_wbuf_capacity c
     \<and> cl_wbuf_capacity c \<le> FKVS_CLIENT_WRITE_BUFFER_MAX_CAPACITY"

definition out_stream :: "client \<Rightarrow> bytes" where
  "out_stream c = cl_sent c @ cl_wbuf c"

text \<open>The fields the response queue does not touch.\<close>

definition same_input :: "client \<Rightarrow> client \<Rightarrow> bool" where
  "same_input c c' \<longleftrightarrow> cl_fd c' = cl_fd c \<and> cl_buffer c' = cl_buffer c \<and> cl_buf_used c' = cl_buf_used c
     \<and> cl_frame_need c' = cl_frame_need c \<and> cl_write_registered c' = cl_write_registered c"

text \<open>
  The data was queued behind everything queued before it, or the connection failed; then
  the socket has got a prefix of the stream.  A failed connection is left alone.
\<close>

definition delivers :: "bytes \<Rightarrow> client \<Rightarrow> client \<Rightarrow> bool" where
  "delivers data c c' \<longleftrightarrow> client_inv c' \<and> same_input c c' \<and>
     (if cl_write_failed c then c' = c
      else if cl_write_failed c' then \<exists>k. cl_sent c' = take k (out_stream c @ data)
      else out_stream c' = out_stream c @ data)"

lemma flush_loop_bounds:
  "flush_loop used sent rs = (n, failed, rs') \<Longrightarrow> sent \<le> used \<Longrightarrow> sent \<le> n \<and> n \<le> used"
proof (induction used sent rs rule: flush_loop.induct)
  case (2 used sent r rs)
  show ?case
  proof (cases r)
    case (Sent m)
    have "sent + min m (used - sent) \<le> used" using 2 by simp
    then show ?thesis using 2 Sent by (auto split: if_splits)
  qed (use 2 in \<open>auto split: if_splits\<close>)
qed simp

lemma sent_prefix: "\<exists>k. cl_sent c = take k (out_stream c @ d)"
  by (rule exI [of _ "length (cl_sent c)"]) (simp add: out_stream_def)

lemma same_input_refl [simp]: "same_input c c"
  by (simp add: same_input_def)

lemma delivers_refl: "client_inv c \<Longrightarrow> delivers [] c c"
  by (simp add: delivers_def)

lemma delivers_fail: "client_inv c \<Longrightarrow> delivers d c (fail_write c)"
  using sent_prefix [of c d]
  by (auto simp: delivers_def same_input_def fail_write_def client_inv_def)

lemma delivers_failed: "client_inv c \<Longrightarrow> cl_write_failed c \<Longrightarrow> delivers d c c"
  by (simp add: delivers_def)

lemma delivers_trans:
  assumes "delivers d1 c1 c2" and "delivers d2 c2 c3"
  shows "delivers (d1 @ d2) c1 c3"
proof -
  have s: "same_input c1 c3" "client_inv c3" using assms by (auto simp: delivers_def same_input_def)
  consider "cl_write_failed c1" | "\<not> cl_write_failed c1" "cl_write_failed c2" | "\<not> cl_write_failed c1" "\<not> cl_write_failed c2"
    by blast
  then show ?thesis
  proof cases
    case 1
    then show ?thesis using assms s by (simp add: delivers_def)
  next
    case 2
    then obtain k where k: "cl_sent c2 = take k (out_stream c1 @ d1)" "c3 = c2"
      using assms by (auto simp: delivers_def)
    then have "cl_sent c3 = take (min k (length (out_stream c1 @ d1))) (out_stream c1 @ d1 @ d2)"
      by (simp add: min_def)
    then have "\<exists>j. cl_sent c3 = take j (out_stream c1 @ (d1 @ d2))" by blast
    then show ?thesis using 2 s k(2) unfolding delivers_def by (simp only: if_False if_True simp_thms)
  next
    case 3
    then show ?thesis using assms s by (auto simp: delivers_def)
  qed
qed

lemma wbuf_flush_delivers:
  assumes "client_inv c" and "wbuf_flush c e = (c', e')"
  shows "delivers [] c c'"
proof (cases "length (cl_wbuf c) = 0 \<or> cl_write_failed c \<or> cl_wbuf_capacity c = 0")
  case True
  then have "c' = c" using assms(2) by (auto simp: wbuf_flush_def)
  then show ?thesis using delivers_refl assms(1) by simp
next
  case False
  obtain n failed rs where f: "flush_loop (length (cl_wbuf c)) 0 (env_sends e) = (n, failed, rs)"
    using prod_cases3 by blast
  have n: "n \<le> length (cl_wbuf c)" using flush_loop_bounds [OF f] by simp
  show ?thesis
  proof (cases failed)
    case True
    then have "c' = c\<lparr>cl_sent := cl_sent c @ take n (cl_wbuf c), cl_wbuf := [], cl_write_failed := True\<rparr>"
      using assms(2) False f by (auto simp: wbuf_flush_def Let_def)
    moreover have "cl_sent c @ take n (cl_wbuf c) = take (length (cl_sent c) + n) (out_stream c)"
      by (simp add: out_stream_def)
    ultimately show ?thesis
      using assms(1) False by (auto simp: delivers_def same_input_def client_inv_def)
  next
    case ok: False
    then have "c' = c\<lparr>cl_sent := cl_sent c @ take n (cl_wbuf c), cl_wbuf := drop n (cl_wbuf c)\<rparr>"
      using assms(2) False f by (auto simp: wbuf_flush_def Let_def)
    then show ?thesis
      using assms(1) False by (auto simp: delivers_def same_input_def client_inv_def out_stream_def)
  qed
qed

lemma wbuf_flush_shrinks:
  "wbuf_flush c e = (c', e') \<Longrightarrow> length (cl_wbuf c') \<le> length (cl_wbuf c)"
  by (auto simp: wbuf_flush_def Let_def split: prod.splits if_splits)

lemma wbuf_grow_bounds:
  "0 < n \<Longrightarrow> n \<le> FKVS_CLIENT_WRITE_BUFFER_MAX_CAPACITY \<Longrightarrow>
   n \<le> wbuf_grow n needed \<and> wbuf_grow n needed \<le> FKVS_CLIENT_WRITE_BUFFER_MAX_CAPACITY \<and>
   (needed \<le> FKVS_CLIENT_WRITE_BUFFER_MAX_CAPACITY \<longrightarrow> needed \<le> wbuf_grow n needed)"
proof (induction n needed rule: wbuf_grow.induct)
  case (1 n needed)
  then show ?case by (subst (1 2 3) wbuf_grow.simps) (auto split: if_splits)
qed

text \<open>A granted reservation has room for the whole frame; a refused one failed the connection.\<close>

lemma wbuf_reserve_ok:
  assumes "client_inv c" and "wbuf_reserve len c e = (ok, c', e')"
  shows "delivers [] c c'" and "ok \<longleftrightarrow> \<not> cl_write_failed c'"
    and "ok \<Longrightarrow> length (cl_wbuf c') + len \<le> cl_wbuf_capacity c'"
proof -
  let ?M = "FKVS_CLIENT_WRITE_BUFFER_MAX_CAPACITY"
  have "delivers [] c c' \<and> (ok \<longleftrightarrow> \<not> cl_write_failed c') \<and> (ok \<longrightarrow> length (cl_wbuf c') + len \<le> cl_wbuf_capacity c')"
  proof (cases "cl_write_failed c \<or> len = 0 \<or> len > ?M - length (cl_wbuf c) \<or> length (cl_wbuf c) + len \<le> cl_wbuf_capacity c")
    case True
    then show ?thesis
      using assms delivers_fail [OF assms(1), of "[]"] delivers_refl [OF assms(1)]
      by (auto simp: wbuf_reserve_def fail_write_def client_inv_def split: if_splits)
  next
    case False
    obtain c1 e1 where f: "(if length (cl_wbuf c) > 0 then wbuf_flush c e else (c, e)) = (c1, e1)"
      by (meson surj_pair)
    have d1: "delivers [] c c1" and sh: "length (cl_wbuf c1) \<le> length (cl_wbuf c)"
      using f wbuf_flush_delivers [OF assms(1)] wbuf_flush_shrinks [of c e] delivers_refl [OF assms(1)]
      by (auto split: if_splits)
    have i1: "client_inv c1" using d1 by (simp add: delivers_def)
    let ?n = "length (cl_wbuf c1) + len"
    let ?g = "wbuf_grow (cl_wbuf_capacity c1) ?n"
    have g: "cl_wbuf_capacity c1 \<le> ?g" "?g \<le> ?M"
      using wbuf_grow_bounds [of "cl_wbuf_capacity c1" ?n] i1 by (auto simp: client_inv_def)
    obtain al e2 where al: "env_alloc e1 = (al, e2)" by (cases "env_alloc e1") auto
    have r: "(ok, c', e') = (if cl_write_failed c1 then (False, c1, e1)
        else if ?n \<le> cl_wbuf_capacity c1 then (True, c1, e1)
        else if ?g < ?n then (False, fail_write c1, e1)
        else if \<not> al then (False, fail_write c1, e2)
        else (True, c1\<lparr>cl_wbuf_capacity := ?g\<rparr>, e2))"
      using assms False f al by (simp add: wbuf_reserve_def client_inv_def Let_def split: if_splits)
    have fl: "delivers [] c (fail_write c1)" using delivers_trans [OF d1 delivers_fail [OF i1, of "[]"]] by simp
    have "delivers [] c1 (c1\<lparr>cl_wbuf_capacity := ?g\<rparr>)" if "\<not> cl_write_failed c1"
      using i1 g that by (auto simp: delivers_def same_input_def client_inv_def out_stream_def)
    then have "delivers [] c (c1\<lparr>cl_wbuf_capacity := ?g\<rparr>)" if "\<not> cl_write_failed c1"
      using delivers_trans [OF d1] that by fastforce
    then show ?thesis using r d1 fl by (auto simp: fail_write_def split: if_splits)
  qed
  then show "delivers [] c c'" "ok \<longleftrightarrow> \<not> cl_write_failed c'"
    "ok \<Longrightarrow> length (cl_wbuf c') + len \<le> cl_wbuf_capacity c'" by auto
qed

lemma wbuf_append_delivers:
  assumes "client_inv c" and "wbuf_append d c e = (c', e')"
  shows "delivers d c c'"
proof -
  obtain ok c1 e1 where r: "wbuf_reserve (length d) c e = (ok, c1, e1)" using prod_cases3 by blast
  note res = wbuf_reserve_ok [OF assms(1) r]
  show ?thesis
  proof (cases ok)
    case True
    then have c': "c' = c1\<lparr>cl_wbuf := cl_wbuf c1 @ d\<rparr>" using assms(2) r by (simp add: wbuf_append_def)
    have "\<not> cl_write_failed c1" using True res(2) by simp
    then have "delivers d c1 c'"
      using c' res(1) res(3) [OF True] by (auto simp: delivers_def same_input_def client_inv_def out_stream_def)
    then show ?thesis using delivers_trans [OF res(1)] by fastforce
  next
    case False
    then have "c' = c1" "cl_write_failed c1" using assms(2) r res(2) by (auto simp: wbuf_append_def)
    then show ?thesis
      using res(1) delivers_trans [OF res(1) delivers_failed, of d] by (auto simp: delivers_def)
  qed
qed

text \<open>With room for the data, an append is a plain append.\<close>

lemma wbuf_append_room:
  assumes "client_inv c" and "\<not> cl_write_failed c" and "length (cl_wbuf c) + length d \<le> cl_wbuf_capacity c"
  shows "wbuf_append d c e = (c\<lparr>cl_wbuf := cl_wbuf c @ d\<rparr>, e)"
  using assms by (auto simp: wbuf_append_def wbuf_reserve_def client_inv_def)

section \<open>Replies on the wire\<close>

datatype response = Resp_ok | Resp_error | Resp_value bytes | Resp_keys bytes | Resp_info bytes | Resp_pong bytes

definition data_frame :: "byte \<Rightarrow> bytes \<Rightarrow> bytes" where
  "data_frame tag data = put_u16 (length data + 3) @ [tag] @ put_u16 (length data) @ data"

fun encode_response :: "response \<Rightarrow> bytes" where
  "encode_response Resp_ok = [0, 1, STATUS_SUCCESS]"
| "encode_response Resp_error = [0, 1, STATUS_FAILURE]"
| "encode_response (Resp_value d) = data_frame STATUS_SUCCESS d"
| "encode_response (Resp_keys d) = data_frame CMD_KEYS d"
| "encode_response (Resp_info d) = data_frame CMD_INFO d"
| "encode_response (Resp_pong d) = data_frame CMD_PING d"

fun response_size :: "response \<Rightarrow> nat" where
  "response_size Resp_ok = 0"
| "response_size Resp_error = 0"
| "response_size (Resp_value d) = length d"
| "response_size (Resp_keys d) = length d"
| "response_size (Resp_info d) = length d"
| "response_size (Resp_pong d) = length d"

text \<open>A reply whose frame would be longer than its length field can say becomes an error.\<close>

definition fit :: "response \<Rightarrow> response" where
  "fit r = (if response_size r + 3 > UINT16_MAX then Resp_error else r)"

definition replies :: "response \<Rightarrow> client \<Rightarrow> client \<Rightarrow> bool" where
  "replies r c c' \<longleftrightarrow> delivers (encode_response (fit r)) c c'"

lemma queue_frame_delivers:
  assumes "client_inv c" and "queue_frame tag d c e = (c', e')" and "length d + 3 \<le> UINT16_MAX"
  shows "delivers (data_frame tag d) c c'"
proof -
  let ?h = "put_u16 (length d + 3) @ [tag] @ put_u16 (length d)"
  obtain ok c1 e1 where r: "wbuf_reserve (length d + 3 + 2) c e = (ok, c1, e1)" using prod_cases3 by blast
  note res = wbuf_reserve_ok [OF assms(1) r]
  have i1: "client_inv c1" using res(1) by (simp add: delivers_def)
  show ?thesis
  proof (cases ok)
    case True
    let ?c2 = "c1\<lparr>cl_wbuf := cl_wbuf c1 @ ?h\<rparr>"
    have nf: "\<not> cl_write_failed c1" using True res(2) by simp
    have room: "length (cl_wbuf c1) + (length d + 3 + 2) \<le> cl_wbuf_capacity c1" by (rule res(3) [OF True])
    have a1: "wbuf_append ?h c1 e1 = (?c2, e1)"
      using room by (intro wbuf_append_room [OF i1 nf]) simp
    have i2: "client_inv ?c2" using i1 room by (simp add: client_inv_def)
    have "(c', e') = wbuf_append d ?c2 e1"
      using assms(2,3) r True a1 by (simp add: queue_frame_def Let_def)
    also have "\<dots> = (?c2\<lparr>cl_wbuf := cl_wbuf ?c2 @ d\<rparr>, e1)"
      using room nf by (intro wbuf_append_room [OF i2]) simp_all
    finally have "c' = c1\<lparr>cl_wbuf := cl_wbuf c1 @ data_frame tag d\<rparr>"
      by (simp add: data_frame_def)
    then have "delivers (data_frame tag d) c1 c'"
      using i1 room nf by (auto simp: delivers_def same_input_def client_inv_def out_stream_def data_frame_def)
    then show ?thesis using delivers_trans [OF res(1)] by fastforce
  next
    case False
    then have "c' = c1" "cl_write_failed c1"
      using assms(2,3) r res(2) by (auto simp: queue_frame_def Let_def)
    then show ?thesis
      using res(1) delivers_trans [OF res(1) delivers_failed, of "data_frame tag d"] i1 by auto
  qed
qed

lemma send_error_delivers: "client_inv c \<Longrightarrow> send_error c e = (c', e') \<Longrightarrow> replies Resp_error c c'"
  using wbuf_append_delivers by (auto simp: send_error_def replies_def fit_def client_inv_def)

lemma send_ok_delivers: "client_inv c \<Longrightarrow> send_ok c e = (c', e') \<Longrightarrow> replies Resp_ok c c'"
  using wbuf_append_delivers by (auto simp: send_ok_def replies_def fit_def client_inv_def)

lemma queue_frame_replies:
  assumes "client_inv c" and "queue_frame tag d c e = (c', e')"
    and "encode_response r = data_frame tag d" and "response_size r = length d"
  shows "replies r c c'"
proof (cases "length d + 3 > UINT16_MAX")
  case True
  then have "send_error c e = (c', e')" using assms(2) by (simp add: queue_frame_def)
  from send_error_delivers [OF assms(1) this] True show ?thesis
    using assms(4) by (simp add: replies_def fit_def)
next
  case False
  then show ?thesis
    using queue_frame_delivers [OF assms(1,2)] assms(3,4) by (simp add: replies_def fit_def)
qed

lemma send_reply_delivers: "client_inv c \<Longrightarrow> send_reply d c e = (c', e') \<Longrightarrow> replies (Resp_value d) c c'"
  by (auto simp: send_reply_def client_inv_def elim!: queue_frame_replies [rotated])

lemma send_keys_delivers: "client_inv c \<Longrightarrow> send_keys_reply d c e = (c', e') \<Longrightarrow> replies (Resp_keys d) c c'"
  by (auto simp: send_keys_reply_def client_inv_def elim!: queue_frame_replies [rotated])

lemma send_info_delivers: "client_inv c \<Longrightarrow> send_info_reply d c e = (c', e') \<Longrightarrow> replies (Resp_info d) c c'"
  by (auto simp: send_info_reply_def client_inv_def elim!: queue_frame_replies [rotated])

text \<open>Sending takes from the scripts of the allocator and the socket only.\<close>

definition io_only :: "env \<Rightarrow> env \<Rightarrow> bool" where
  "io_only e e' \<longleftrightarrow> env_clock e' = env_clock e \<and> env_now e' = env_now e \<and> env_time e' = env_time e
     \<and> env_maxrss e' = env_maxrss e \<and> (alloc_safe (env_allocs e) \<longrightarrow> alloc_safe (env_allocs e'))"

lemma io_only_refl [simp]: "io_only e e"
  by (simp add: io_only_def)

lemma io_only_trans: "io_only a b \<Longrightarrow> io_only b c \<Longrightarrow> io_only a c"
  by (simp add: io_only_def)

lemma io_only_alloc: "env_alloc e = (ok, e') \<Longrightarrow> io_only e e'"
  using alloc_safeD [of "env_allocs e"] by (auto simp: env_alloc_def io_only_def split: prod.splits)

lemma io_only_flush: "wbuf_flush c e = (c', e') \<Longrightarrow> io_only e e'"
  by (auto simp: wbuf_flush_def io_only_def Let_def split: prod.splits if_splits)

lemma io_only_reserve: "wbuf_reserve n c e = (ok, c', e') \<Longrightarrow> io_only e e'"
  by (auto simp: wbuf_reserve_def Let_def split: prod.splits if_splits
      intro: io_only_alloc io_only_flush io_only_trans)

lemma io_only_append: "wbuf_append d c e = (c', e') \<Longrightarrow> io_only e e'"
  by (auto simp: wbuf_append_def split: prod.splits if_splits intro: io_only_reserve)

lemma io_only_error: "send_error c e = (c', e') \<Longrightarrow> io_only e e'"
  by (auto simp: send_error_def split: if_splits intro: io_only_append)

lemma io_only_ok: "send_ok c e = (c', e') \<Longrightarrow> io_only e e'"
  by (auto simp: send_ok_def split: if_splits intro: io_only_append)

lemma io_only_frame: "queue_frame tag d c e = (c', e') \<Longrightarrow> io_only e e'"
  by (auto simp: queue_frame_def Let_def split: prod.splits if_splits
      dest!: io_only_error io_only_append io_only_reserve intro: io_only_trans)

lemma io_only_replies:
  "send_reply d c e = (c', e') \<Longrightarrow> io_only e e'"
  "send_keys_reply d c e = (c', e') \<Longrightarrow> io_only e e'"
  "send_info_reply d c e = (c', e') \<Longrightarrow> io_only e e'"
  by (auto simp: send_reply_def send_keys_reply_def send_info_reply_def split: if_splits intro: io_only_frame)

text \<open>The reply to PING: an echo of the text inside the frame, or an error.\<close>

lemma send_pong_delivers:
  assumes "client_inv c" and "bytes_read \<le> length buffer" and "5 \<le> bytes_read"
  defines "n \<equiv> get_u16 (buffer ! 3) (buffer ! 4)"
  shows "\<exists>c' e'. send_pong buffer bytes_read c e = Some (c', e') \<and> io_only e e' \<and>
    replies (if 5 + n \<le> bytes_read then Resp_pong (take n (drop 5 buffer)) else Resp_error) c c'"
proof -
  have r: "rd_u16 buffer 3 = Some n" using assms(2,3) by (simp add: rd_u16_Some n_def)
  have fd: "\<not> cl_fd c < 0" using assms(1) by (simp add: client_inv_def)
  show ?thesis
  proof (cases "5 + n \<le> bytes_read")
    case True
    obtain c' e' where q: "queue_frame CMD_PING (take n (drop 5 buffer)) c e = (c', e')"
      by (meson surj_pair)
    have "send_pong buffer bytes_read c e = Some (c', e')"
      using True r fd assms(2,3) q by (simp add: send_pong_def slice_Some)
    moreover have "length (take n (drop 5 buffer)) = n" using True assms(2) by simp
    then have "replies (Resp_pong (take n (drop 5 buffer))) c c'"
      by (intro queue_frame_replies [OF assms(1) q]) simp_all
    ultimately show ?thesis using True io_only_frame [OF q] by auto
  next
    case False
    obtain c' e' where q: "send_error c e = (c', e')" by (meson surj_pair)
    then have "send_pong buffer bytes_read c e = Some (c', e')"
      using False r fd assms(3) by (simp add: send_pong_def)
    then show ?thesis using False io_only_error [OF q] send_error_delivers [OF assms(1) q] by auto
  qed
qed

section \<open>Decoding\<close>

text \<open>The reply at the head of a byte stream and what follows it.\<close>

definition decode_response :: "bytes \<Rightarrow> (response \<times> bytes) option" where
  "decode_response s =
     (if length s < 3 then None
      else let core = get_u16 (s ! 0) (s ! 1); tag = s ! 2; rest = drop (2 + core) s in
        if length s < 2 + core then None
        else if core = 1
        then (if tag = STATUS_SUCCESS then Some (Resp_ok, rest)
              else if tag = STATUS_FAILURE then Some (Resp_error, rest) else None)
        else if core < 3 \<or> get_u16 (s ! 3) (s ! 4) + 3 \<noteq> core then None
        else let d = take (core - 3) (drop 5 s) in
          (if tag = STATUS_SUCCESS then Some (Resp_value d, rest)
           else if tag = CMD_KEYS then Some (Resp_keys d, rest)
           else if tag = CMD_INFO then Some (Resp_info d, rest)
           else if tag = CMD_PING then Some (Resp_pong d, rest) else None))"

lemma data_frame_shape:
  fixes tag :: byte and rest :: bytes
  assumes "length d + 3 \<le> UINT16_MAX"
  defines "s \<equiv> data_frame tag d @ rest"
  shows "length s = length d + 5 + length rest" "get_u16 (s ! 0) (s ! 1) = length d + 3" "s ! 2 = tag"
    "get_u16 (s ! 3) (s ! 4) = length d" "take (length d) (drop 5 s) = d" "drop (length d + 5) s = rest"
proof -
  show "length s = length d + 5 + length rest" "get_u16 (s ! 0) (s ! 1) = length d + 3" "s ! 2 = tag"
    "get_u16 (s ! 3) (s ! 4) = length d" "take (length d) (drop 5 s) = d"
    using assms by (simp_all add: data_frame_def put_u16_def get_put_u16 nth_append del: of_nat_add)
  have "length (data_frame tag d) = length d + 5" by (simp add: data_frame_def)
  then show "drop (length d + 5) s = rest" by (simp add: s_def)
qed

lemma decode_data_frame:
  assumes "length d + 3 \<le> UINT16_MAX"
  shows "decode_response (data_frame tag d @ rest) =
    (if tag = STATUS_SUCCESS then Some (Resp_value d, rest)
     else if tag = CMD_KEYS then Some (Resp_keys d, rest)
     else if tag = CMD_INFO then Some (Resp_info d, rest)
     else if tag = CMD_PING then Some (Resp_pong d, rest) else None)"
proof -
  define s where "s = data_frame tag d @ rest"
  note shape = data_frame_shape [OF assms, of tag rest, folded s_def]
  have "drop (2 + (length d + 3)) s = rest" using shape(6) by (simp add: add.commute)
  then have "decode_response s =
    (if tag = STATUS_SUCCESS then Some (Resp_value d, rest)
     else if tag = CMD_KEYS then Some (Resp_keys d, rest)
     else if tag = CMD_INFO then Some (Resp_info d, rest)
     else if tag = CMD_PING then Some (Resp_pong d, rest) else None)"
    using shape by (simp add: decode_response_def Let_def)
  then show ?thesis by (simp only: s_def)
qed

lemma decode_encode: "decode_response (encode_response (fit r) @ rest) = Some (fit r, rest)"
proof (cases "response_size r + 3 > UINT16_MAX")
  case True
  then show ?thesis by (simp add: fit_def decode_response_def get_u16_arith)
next
  case False
  then have "fit r = r" by (simp add: fit_def)
  moreover have "decode_response (encode_response r @ rest) = Some (r, rest)"
    using False by (cases r) (simp_all add: decode_data_frame, simp_all add: decode_response_def get_u16_arith)
  ultimately show ?thesis by simp
qed

text \<open>All the replies at the head of a stream.\<close>

fun decode_all :: "nat \<Rightarrow> bytes \<Rightarrow> response list" where
  "decode_all 0 s = []"
| "decode_all (Suc n) s =
     (case decode_response s of None \<Rightarrow> [] | Some (r, rest) \<Rightarrow> r # decode_all n rest)"

lemma decode_all_encode:
  "decode_all (length rs) (concat (map (encode_response \<circ> fit) rs) @ rest) = map fit rs"
  by (induction rs) (simp_all add: decode_encode)

section \<open>Properties\<close>

text \<open>C24: A connection's response queue is bounded by one MiB and every queueing of bytes is
  all or nothing: the bytes go, in order, behind everything queued before, or the
  connection is marked failed; then what the socket accepted is a prefix of the stream,
  and a failed connection accepts nothing more.  For every behaviour of \<open>send\<close> and of
  the allocator.\<close>

theorem wbuf_append_all_or_nothing:
  assumes "client_inv c" and "wbuf_append data c e = (c', e')"
  shows "client_inv c' \<and> length (cl_wbuf c') \<le> FKVS_CLIENT_WRITE_BUFFER_MAX_CAPACITY
    \<and> (if cl_write_failed c then c' = c
       else if cl_write_failed c' then \<exists>k. cl_sent c' = take k (out_stream c @ data)
       else out_stream c' = out_stream c @ data)"
  using wbuf_append_delivers [OF assms] by (auto simp: delivers_def client_inv_def)

definition fresh_client :: client where
  "fresh_client = \<lparr>cl_fd = 5, cl_buffer = replicate FKVS_CLIENT_READ_BUFFER_SIZE 0,
     cl_buf_used = 0, cl_frame_need = -1, cl_wbuf = [],
     cl_wbuf_capacity = FKVS_CLIENT_WRITE_BUFFER_INITIAL_CAPACITY,
     cl_write_failed = False, cl_write_registered = False, cl_sent = []\<rparr>"

abbreviation (input) quiet_env :: env where
  "quiet_env \<equiv> \<lparr>env_allocs = [], env_clock = [], env_now = 1000, env_sends = [], env_time = 0, env_maxrss = 0\<rparr>"

lemma fresh_client_inv: "client_inv fresh_client"
  by (simp add: client_inv_def fresh_client_def)

theorem wbuf_append_all_or_nothing_witness:
  "\<exists>c' e'. wbuf_append [1, 2] fresh_client quiet_env = (c', e') \<and> client_inv c' \<and> out_stream c' = [1, 2]"
proof -
  have w: "wbuf_append [1, 2] fresh_client quiet_env = (fresh_client\<lparr>cl_wbuf := [1, 2]\<rparr>, quiet_env)"
    by (simp add: wbuf_append_def wbuf_reserve_def fresh_client_def)
  show ?thesis using wbuf_append_all_or_nothing [OF fresh_client_inv w]
    by (simp add: w) (simp add: fresh_client_def out_stream_def)
qed

text \<open>C25: Flushing keeps the stream: for every sequence of partial writes, interruptions,
  refusals and errors of the socket, the bytes accepted followed by the bytes still queued
  are the same stream as before, unless a real error fails the connection.\<close>

theorem wbuf_flush_keeps_stream:
  assumes "client_inv c" and "wbuf_flush c e = (c', e')"
  shows "client_inv c' \<and> (\<not> cl_write_failed c' \<longrightarrow> out_stream c' = out_stream c)
    \<and> (\<exists>k. cl_sent c' = take k (out_stream c))"
proof -
  have d: "delivers [] c c'" by (rule wbuf_flush_delivers [OF assms])
  have "\<exists>k. cl_sent c' = take k (out_stream c)"
    using d sent_prefix [of c "[]"] sent_prefix [of c' "[]"] by (auto simp: delivers_def split: if_splits)
  then show ?thesis using d by (auto simp: delivers_def split: if_splits)
qed

theorem wbuf_flush_keeps_stream_witness:
  "\<exists>c' e'. wbuf_flush (fresh_client\<lparr>cl_wbuf := [1, 2, 3]\<rparr>) (quiet_env\<lparr>env_sends := [Send_intr, Sent 2, Send_again]\<rparr>) = (c', e')
     \<and> cl_sent c' = [1, 2] \<and> out_stream c' = [1, 2, 3]"
proof -
  let ?c = "fresh_client\<lparr>cl_wbuf := [1, 2, 3]\<rparr>" and ?e = "quiet_env\<lparr>env_sends := [Send_intr, Sent 2, Send_again]\<rparr>"
  obtain c' e' where w: "wbuf_flush ?c ?e = (c', e')" by (meson surj_pair)
  have i: "client_inv ?c" by (simp add: client_inv_def fresh_client_def)
  have "cl_sent c' = [1, 2]" "\<not> cl_write_failed c'"
    using w by (auto simp: wbuf_flush_def fresh_client_def)
  moreover have "out_stream ?c = [1, 2, 3]" by (simp add: out_stream_def fresh_client_def)
  ultimately have "cl_sent c' = [1, 2] \<and> out_stream c' = [1, 2, 3]"
    using wbuf_flush_keeps_stream [OF i w] by simp
  with w show ?thesis by blast
qed


end
