(* ===== verification/Numeric_Parse.thy ===== *)
theory Numeric_Parse
  imports Prelude
begin

text \<open>
  \<open>src/numeric_parse.c\<close> and the integer printing of \<open>src/utils.h\<close>.  The parser works on
  unsigned 64-bit words as the code does, including the subtraction \<open>limit - digit\<close>, which
  wraps for a limit below nine.  Proved: agreement with an unbounded reference parser for
  every limit the callers use, the round trip with the printer, and the bound on printed
  text.
\<close>

section \<open>The parser\<close>

definition signed_abs_limit :: "int \<Rightarrow> u64" where
  "signed_abs_limit v =
     (if v = INT64_MIN then of_int INT64_MAX + 1
      else if v < 0 then of_int (- v) else of_int v)"

fun parse_digits :: "bytes \<Rightarrow> u64 \<Rightarrow> u64 \<Rightarrow> u64 option" where
  "parse_digits [] limit v = Some v"
| "parse_digits (ch # rest) limit v =
     (if ch < 48 \<or> ch > 57 then None
      else let digit = ucast (ch - 48)
           in if v > (limit - digit) div 10 then None
              else parse_digits rest limit (v * 10 + digit))"

text \<open>\<open>*out\<close> is read by the callers only when the function returns true.\<close>

definition fkvs_parse_i64_decimal :: "bytes \<Rightarrow> int \<Rightarrow> int \<Rightarrow> int option" where
  "fkvs_parse_i64_decimal buf min_value max_value =
     (if length buf = 0 \<or> min_value > max_value then None
      else let signed = (hd buf = 43 \<or> hd buf = 45);
               negative = (hd buf = 45);
               digits = (if signed then tl buf else buf)
           in if signed \<and> digits = [] then None
              else if negative \<and> min_value \<ge> 0 then None
              else if \<not> negative \<and> max_value < 0 then None
              else let limit = (if negative then signed_abs_limit min_value else of_int max_value)
                   in case parse_digits digits limit 0 of
                        None \<Rightarrow> None
                      | Some v \<Rightarrow>
                          let out = (if negative
                                     then if v = of_int INT64_MAX + 1 then INT64_MIN else - sint v
                                     else sint v)
                          in if out \<ge> min_value \<and> out \<le> max_value then Some out else None)"

definition fkvs_parse_deadline_ms :: "bytes \<Rightarrow> int \<Rightarrow> int option" where
  "fkvs_parse_deadline_ms buf now_ms =
     (case fkvs_parse_i64_decimal buf 0 (INT64_MAX div 1000) of
        None \<Rightarrow> None
      | Some seconds \<Rightarrow>
          if seconds > (INT64_MAX - now_ms) div 1000 then None
          else Some (now_ms + seconds * 1000))"

section \<open>Printing\<close>

text \<open>Decimal text, and \<open>snprintf\<close> into a buffer of \<open>n\<close> bytes: at most \<open>n - 1\<close> of them.\<close>

fun dec_nat :: "nat \<Rightarrow> bytes" where
  "dec_nat n = (if n < 10 then [of_nat (48 + n)] else dec_nat (n div 10) @ [of_nat (48 + n mod 10)])"

declare dec_nat.simps [simp del]

definition dec_int :: "int \<Rightarrow> bytes" where
  "dec_int i = (if i < 0 then 45 # dec_nat (nat (- i)) else dec_nat (nat i))"

definition snprintf_text :: "nat \<Rightarrow> bytes \<Rightarrow> bytes" where
  "snprintf_text n text = take (n - 1) text"

definition int64_to_string :: "int \<Rightarrow> allocs \<Rightarrow> bytes option \<times> allocs" where
  "int64_to_string number a =
     (let (ok, a) = alloc a in
      if \<not> ok then (None, a) else (Some (snprintf_text 32 (dec_int number)), a))"

definition uint64_to_string :: "u64 \<Rightarrow> allocs \<Rightarrow> bytes option \<times> allocs" where
  "uint64_to_string number a =
     (let (ok, a) = alloc a in
      if \<not> ok then (None, a) else (Some (snprintf_text 22 (dec_nat (unat number))), a))"

fun all_digits :: "bytes \<Rightarrow> bool" where
  "all_digits [] = True"
| "all_digits (c # cs) = (if c < 48 \<or> c > 57 then False else all_digits cs)"

definition is_integer :: "bytes \<Rightarrow> bool" where
  "is_integer str =
     (if length str = 0 then False
      else if hd str = 43 \<or> hd str = 45
      then if 1 \<ge> length str then False else all_digits (tl str)
      else all_digits str)"

section \<open>A reference parser\<close>

text \<open>The unbounded integer a text denotes: an optional sign and at least one digit.\<close>

definition digit_value :: "byte \<Rightarrow> nat" where
  "digit_value c = unat c - 48"

definition digits_value :: "nat \<Rightarrow> bytes \<Rightarrow> nat" where
  "digits_value v ds = foldl (\<lambda>v c. v * 10 + digit_value c) v ds"

definition decimal_value :: "bytes \<Rightarrow> int option" where
  "decimal_value s =
     (if \<not> is_integer s then None
      else Some (if hd s = 45 then - int (digits_value 0 (tl s))
                 else if hd s = 43 then int (digits_value 0 (tl s))
                 else int (digits_value 0 s)))"

lemma digits_value_Cons [simp]: "digits_value v (c # cs) = digits_value (v * 10 + digit_value c) cs"
  by (simp add: digits_value_def)

lemma digits_value_Nil [simp]: "digits_value v [] = v"
  by (simp add: digits_value_def)

lemma digits_value_ge: "v \<le> digits_value v ds"
proof (induction ds arbitrary: v)
  case (Cons c cs)
  have "v \<le> v * 10 + digit_value c" by simp
  also have "\<dots> \<le> digits_value v (c # cs)" using Cons.IH by simp
  finally show ?case .
qed simp

lemma digit_ucast:
  fixes ch :: byte
  assumes "\<not> (ch < 48 \<or> ch > 57)"
  shows "unat (ucast (ch - 48) :: u64) = digit_value ch" and "digit_value ch \<le> 9"
proof -
  have c: "48 \<le> unat ch" "unat ch \<le> 57"
    using assms by (auto simp: word_less_nat_alt word_le_nat_alt not_less)
  have "unat (ch - 48) = unat ch - 48"
    using c by (subst unat_sub) (auto simp: word_le_nat_alt)
  moreover have "unat (ucast (ch - 48) :: u64) = unat (ch - 48)"
    using byte_less [of "ch - 48"] by (simp add: unsigned_ucast_eq take_bit_nat_eq_self)
  ultimately show "unat (ucast (ch - 48) :: u64) = digit_value ch" by (simp add: digit_value_def)
  show "digit_value ch \<le> 9" using c by (simp add: digit_value_def)
qed

text \<open>One step of the loop: the guard accepts exactly the extensions within the limit.\<close>

lemma digit_guard:
  fixes limit v d :: u64
  assumes "9 \<le> unat limit" and "unat d \<le> 9"
  shows "v > (limit - d) div 10 \<longleftrightarrow> unat limit < unat v * 10 + unat d"
    and "unat v * 10 + unat d \<le> unat limit \<Longrightarrow> unat (v * 10 + d) = unat v * 10 + unat d"
proof -
  have "unat (limit - d) = unat limit - unat d"
    using assms by (intro unat_sub) (simp add: word_le_nat_alt)
  then have "unat ((limit - d) div 10) = (unat limit - unat d) div 10"
    by (simp add: unat_div)
  then show "v > (limit - d) div 10 \<longleftrightarrow> unat limit < unat v * 10 + unat d"
    using assms by (simp add: word_less_nat_alt less_mult_imp_div_less div_less_iff_less_mult) arith
  assume "unat v * 10 + unat d \<le> unat limit"
  moreover have "unat limit < 2 ^ LENGTH(64)" by (rule unsigned_less)
  ultimately have "unat v * 10 + unat d < 2 ^ 64" by simp
  then show "unat (v * 10 + d) = unat v * 10 + unat d"
    by (simp add: unat_word_ariths)
qed

lemma parse_digits_eq:
  assumes "9 \<le> unat limit" and "unat v \<le> unat limit"
  shows "parse_digits ds limit v =
    (if all_digits ds \<and> digits_value (unat v) ds \<le> unat limit
     then Some (of_nat (digits_value (unat v) ds)) else None)"
  using assms(2)
proof (induction ds arbitrary: v)
  case Nil
  then show ?case by simp
next
  case (Cons ch ds)
  show ?case
  proof (cases "ch < 48 \<or> ch > 57")
    case True
    then show ?thesis by simp
  next
    case False
    let ?d = "ucast (ch - 48) :: u64"
    note d = digit_ucast [OF False]
    have d9: "unat ?d \<le> 9" using d by simp
    note g = digit_guard [OF assms(1) d9, of v]
    show ?thesis
    proof (cases "unat limit < unat v * 10 + unat ?d")
      case True
      have "unat limit < digits_value (unat v) (ch # ds)"
        using True d digits_value_ge [of "unat v * 10 + digit_value ch" ds] by simp
      then show ?thesis using True False g(1) by (simp add: Let_def)
    next
      case within: False
      have u: "unat (v * 10 + ?d) = unat v * 10 + digit_value ch" using g(2) within d by simp
      moreover have "unat (v * 10 + ?d) \<le> unat limit" using within u d by simp
      ultimately show ?thesis
        using Cons.IH [of "v * 10 + ?d"] False within g(1) by (simp add: Let_def)
    qed
  qed
qed

section \<open>Agreement with the reference\<close>

text \<open>
  The limits for which \<open>limit - digit\<close> does not wrap: at least nine in absolute value, on
  each side that is used.
\<close>

definition limits_ok :: "int \<Rightarrow> int \<Rightarrow> bool" where
  "limits_ok lo hi \<longleftrightarrow> INT64_MIN \<le> lo \<and> lo \<le> hi \<and> hi \<le> INT64_MAX
     \<and> (lo \<ge> 0 \<or> lo \<le> - 9) \<and> (hi < 0 \<or> hi \<ge> 9)"

lemma unat_of_int_u64: "0 \<le> i \<Longrightarrow> i \<le> INT64_MAX \<Longrightarrow> unat (of_int i :: u64) = nat i"
  by (simp add: unsigned_of_int take_bit_int_eq_self)

lemma unat_signed_abs_limit:
  "INT64_MIN \<le> v \<Longrightarrow> v < 0 \<Longrightarrow> unat (signed_abs_limit v) = nat (- v)"
  using unat_of_int_u64 [of "- v"] by (cases "v = INT64_MIN") (auto simp: signed_abs_limit_def)

lemma sint_of_nat_u64: "int n \<le> INT64_MAX \<Longrightarrow> sint (of_nat n :: u64) = int n"
  by (simp add: signed_of_nat signed_take_bit_int_eq_self)

lemma parse_digits_pos:
  assumes "9 \<le> hi" and "hi \<le> INT64_MAX"
  shows "parse_digits ds (of_int hi) 0 =
    (if all_digits ds \<and> int (digits_value 0 ds) \<le> hi then Some (of_nat (digits_value 0 ds)) else None)"
proof -
  have u: "unat (of_int hi :: u64) = nat hi" using assms by (simp add: unat_of_int_u64)
  then have "9 \<le> unat (of_int hi :: u64)" using assms by simp
  from parse_digits_eq [OF this, of 0 ds] show ?thesis using assms by (simp add: u nat_le_iff le_nat_iff)
qed

lemma parse_digits_neg:
  assumes "INT64_MIN \<le> lo" and "lo \<le> - 9"
  shows "parse_digits ds (signed_abs_limit lo) 0 =
    (if all_digits ds \<and> int (digits_value 0 ds) \<le> - lo then Some (of_nat (digits_value 0 ds)) else None)"
proof -
  have u: "unat (signed_abs_limit lo) = nat (- lo)" using assms by (simp add: unat_signed_abs_limit)
  then have "9 \<le> unat (signed_abs_limit lo)" using assms by simp
  from parse_digits_eq [OF this, of 0 ds] show ?thesis using assms by (simp add: u nat_le_iff le_nat_iff)
qed

text \<open>Reading the unsigned magnitude back as a negative number.\<close>

lemma negative_out:
  assumes "int n \<le> - INT64_MIN"
  shows "(if (of_nat n :: u64) = of_int INT64_MAX + 1 then INT64_MIN else - sint (of_nat n :: u64))
    = - int n"
proof (cases "int n = - INT64_MIN")
  case True
  then have "n = 9223372036854775808" by simp
  then show ?thesis by simp
next
  case False
  then have n: "int n \<le> INT64_MAX" using assms by simp
  have "(of_nat n :: u64) \<noteq> of_int INT64_MAX + 1"
  proof
    assume "(of_nat n :: u64) = of_int INT64_MAX + 1"
    then have "unat (of_nat n :: u64) = unat (9223372036854775808 :: u64)" by simp
    then show False using n by (simp add: unat_of_nat)
  qed
  then show ?thesis using n sint_of_nat_u64 [of n] by simp
qed

definition bounded :: "int \<Rightarrow> int \<Rightarrow> int option \<Rightarrow> int option" where
  "bounded lo hi v = (case v of None \<Rightarrow> None | Some i \<Rightarrow> if lo \<le> i \<and> i \<le> hi then Some i else None)"

text \<open>
  The specification of the bounded parser: the denoted integer when it lies in the range.
  A minus sign is refused outright when the range has no negative number, and a text
  without one when it has no other.
\<close>

definition parse_spec :: "bytes \<Rightarrow> int \<Rightarrow> int \<Rightarrow> int option" where
  "parse_spec s lo hi =
     (if s \<noteq> [] \<and> hd s = 45 \<and> lo \<ge> 0 then None else bounded lo hi (decimal_value s))"

text \<open>The parser with its sign consumed.\<close>

lemma parse_minus:
  assumes "lo \<le> hi" and "lo < 0" and "cs \<noteq> []"
  shows "fkvs_parse_i64_decimal (45 # cs) lo hi =
    (case parse_digits cs (signed_abs_limit lo) 0 of None \<Rightarrow> None
     | Some v \<Rightarrow> bounded lo hi (Some (if v = of_int INT64_MAX + 1 then INT64_MIN else - sint v)))"
  using assms by (simp add: fkvs_parse_i64_decimal_def Let_def bounded_def split del: if_split split: option.split)

lemma parse_plain:
  assumes "lo \<le> hi" and "0 \<le> hi" and "c \<noteq> 45" and "ds = (if c = 43 then cs else c # cs)" and "ds \<noteq> []"
  shows "fkvs_parse_i64_decimal (c # cs) lo hi =
    (case parse_digits ds (of_int hi) 0 of None \<Rightarrow> None | Some v \<Rightarrow> bounded lo hi (Some (sint v)))"
proof (cases "c = 43")
  case True
  then have "ds = cs" using assms(4) by simp
  then show ?thesis using assms(1,2,5) True
    by (simp add: fkvs_parse_i64_decimal_def Let_def bounded_def split: option.split)
next
  case False
  then have "ds = c # cs" using assms(4) by simp
  then show ?thesis using assms(1-3) False
    by (simp add: fkvs_parse_i64_decimal_def Let_def bounded_def split: option.split)
qed

lemma decimal_value_Cons:
  "decimal_value (c # cs) =
    (let ds = (if c = 43 \<or> c = 45 then cs else c # cs) in
     if ds \<noteq> [] \<and> all_digits ds then Some ((if c = 45 then -1 else 1) * int (digits_value 0 ds)) else None)"
  by (cases "c = 43"; cases "c = 45"; cases cs) (simp_all add: decimal_value_def is_integer_def)

lemma spec_minus:
  assumes "INT64_MIN \<le> lo" and "lo \<le> hi" and "lo \<ge> 0 \<or> lo \<le> - 9"
  shows "fkvs_parse_i64_decimal (45 # cs) lo hi = parse_spec (45 # cs) lo hi"
proof (cases "lo \<ge> 0 \<or> cs = []")
  case True
  then show ?thesis
    using assms(2) by (auto simp: fkvs_parse_i64_decimal_def parse_spec_def decimal_value_Cons bounded_def)
next
  case False
  then have lo: "lo \<le> - 9" "lo < 0" "cs \<noteq> []" using assms(3) by auto
  let ?n = "digits_value 0 cs"
  have out: "(if (of_nat ?n :: u64) = of_int INT64_MAX + 1 then INT64_MIN else - sint (of_nat ?n :: u64)) = - int ?n"
    if "int ?n \<le> - lo" using that assms(1) by (intro negative_out) simp
  have s: "parse_spec (45 # cs) lo hi = (if all_digits cs then bounded lo hi (Some (- int ?n)) else None)"
    using lo by (simp add: parse_spec_def decimal_value_Cons bounded_def)
  show ?thesis
  proof (cases "all_digits cs \<and> int ?n \<le> - lo")
    case True
    then show ?thesis
      using out s by (simp only: parse_minus [OF assms(2) lo(2,3)] parse_digits_neg [OF assms(1) lo(1)]) simp
  next
    case False
    then show ?thesis
      by (simp only: s parse_minus [OF assms(2) lo(2,3)] parse_digits_neg [OF assms(1) lo(1)])
        (auto simp: bounded_def)
  qed
qed

lemma spec_plain:
  assumes "c \<noteq> 45" and "lo \<le> hi" and "hi \<le> INT64_MAX" and "hi < 0 \<or> hi \<ge> 9"
  shows "fkvs_parse_i64_decimal (c # cs) lo hi = parse_spec (c # cs) lo hi"
proof -
  define ds where "ds = (if c = 43 then cs else c # cs)"
  let ?n = "digits_value 0 ds"
  have s: "parse_spec (c # cs) lo hi = (if ds \<noteq> [] \<and> all_digits ds then bounded lo hi (Some (int ?n)) else None)"
    using assms(1) by (simp add: parse_spec_def decimal_value_Cons bounded_def ds_def Let_def)
  show ?thesis
  proof (cases "hi < 0 \<or> ds = []")
    case True
    then have "fkvs_parse_i64_decimal (c # cs) lo hi = None"
      using assms(1) by (auto simp: fkvs_parse_i64_decimal_def ds_def Let_def split: if_splits)
    then show ?thesis using s True by (auto simp: bounded_def)
  next
    case False
    then have hi: "9 \<le> hi" "0 \<le> hi" "ds \<noteq> []" using assms(4) by auto
    have p: "fkvs_parse_i64_decimal (c # cs) lo hi =
        (case parse_digits ds (of_int hi) 0 of None \<Rightarrow> None | Some v \<Rightarrow> bounded lo hi (Some (sint v)))"
      by (rule parse_plain [OF assms(2) hi(2) assms(1) ds_def hi(3)])
    show ?thesis
    proof (cases "all_digits ds \<and> int ?n \<le> hi")
      case True
      then have "sint (of_nat ?n :: u64) = int ?n" using assms(3) by (intro sint_of_nat_u64) simp
      then show ?thesis using True hi(3) s p by (simp add: parse_digits_pos [OF hi(1) assms(3)])
    next
      case False
      then show ?thesis using s p by (auto simp: parse_digits_pos [OF hi(1) assms(3)] bounded_def)
    qed
  qed
qed

lemma fkvs_parse_i64_decimal_spec:
  assumes "limits_ok lo hi"
  shows "fkvs_parse_i64_decimal s lo hi = parse_spec s lo hi"
proof (cases s)
  case Nil
  then show ?thesis
    by (simp add: fkvs_parse_i64_decimal_def parse_spec_def bounded_def decimal_value_def is_integer_def)
next
  case (Cons c cs)
  then show ?thesis
    using assms spec_minus [of lo hi cs] spec_plain [of c lo hi cs] unfolding limits_ok_def by blast
qed

section \<open>Round trip and bounds\<close>

lemma dec_nat_digits:
  "all_digits (dec_nat n) \<and> dec_nat n \<noteq> [] \<and> hd (dec_nat n) \<noteq> 45 \<and> hd (dec_nat n) \<noteq> 43"
proof (induction n rule: dec_nat.induct)
  case (1 n)
  have d: "\<not> (of_nat (48 + k) < (48 :: byte)) \<and> \<not> (of_nat (48 + k) > (57 :: byte))
      \<and> of_nat (48 + k) \<noteq> (45 :: byte) \<and> of_nat (48 + k) \<noteq> (43 :: byte)" if "k < 10" for k
  proof -
    have "unat (of_nat (48 + k) :: byte) = 48 + k" using that by (simp only: unat_of_nat) simp
    then show ?thesis using that
      by (auto simp: word_less_nat_alt simp del: of_nat_add dest!: arg_cong [where f = unat])
  qed
  have app: "all_digits (xs @ ys) \<longleftrightarrow> all_digits xs \<and> all_digits ys" for xs ys
    by (induction xs) auto
  show ?case
    using 1 d [of n] d [of "n mod 10"]
    by (cases "n < 10") (auto simp: dec_nat.simps [of n] app)
qed

lemma digits_value_append: "digits_value v (xs @ ys) = digits_value (digits_value v xs) ys"
  by (simp add: digits_value_def)

lemma digits_value_dec_nat: "digits_value 0 (dec_nat n) = n"
proof (induction n rule: dec_nat.induct)
  case (1 n)
  have d: "digit_value (of_nat (48 + k)) = k" if "k < 10" for k
  proof -
    have "unat (of_nat (48 + k) :: byte) = 48 + k" using that by (simp only: unat_of_nat) simp
    then show ?thesis by (simp add: digit_value_def del: of_nat_add)
  qed
  show ?case
    using 1 d [of n] d [of "n mod 10"]
    by (cases "n < 10") (auto simp: dec_nat.simps [of n] digits_value_append simp del: of_nat_add)
qed

lemma decimal_value_dec_int: "decimal_value (dec_int i) = Some i"
  using dec_nat_digits [of "nat i"] dec_nat_digits [of "nat (- i)"]
    digits_value_dec_nat [of "nat i"] digits_value_dec_nat [of "nat (- i)"]
  by (cases "dec_nat (nat (- i))"; cases "dec_nat (nat i)")
    (auto simp: decimal_value_def dec_int_def is_integer_def)

lemma length_dec_nat: "n < 10 ^ k \<Longrightarrow> 0 < k \<Longrightarrow> length (dec_nat n) \<le> k"
proof (induction k arbitrary: n)
  case (Suc k)
  show ?case
  proof (cases "n < 10")
    case False
    then have "0 < k" using Suc.prems by (cases k) auto
    moreover have "n div 10 < 10 ^ k" using Suc.prems by (simp add: less_mult_imp_div_less)
    ultimately show ?thesis using Suc.IH [of "n div 10"] False by (subst dec_nat.simps) simp
  qed (simp add: dec_nat.simps)
qed simp

lemma length_dec_int: "INT64_MIN \<le> i \<Longrightarrow> i \<le> INT64_MAX \<Longrightarrow> length (dec_int i) \<le> 20"
  using length_dec_nat [of "nat i" 19] length_dec_nat [of "nat (- i)" 19]
  by (auto simp: dec_int_def nat_less_iff)

lemma snprintf_fits: "length s < n \<Longrightarrow> snprintf_text n s = s"
  by (simp add: snprintf_text_def)

text \<open>The printed text is never truncated, and reads back as the number.\<close>

lemma int64_to_string_eq:
  assumes "INT64_MIN \<le> i" and "i \<le> INT64_MAX"
  shows "int64_to_string i a =
    (if fst (alloc a) then Some (dec_int i) else None, snd (alloc a))"
  using snprintf_fits [of "dec_int i" 32] length_dec_int [OF assms]
  by (simp add: int64_to_string_def case_prod_beta)

lemma parse_dec_int:
  assumes "limits_ok lo hi" and "lo \<le> i" and "i \<le> hi"
  shows "fkvs_parse_i64_decimal (dec_int i) lo hi = Some i"
proof -
  have "hd (dec_int i) = 45 \<longleftrightarrow> i < 0" "dec_int i \<noteq> []"
    using dec_nat_digits [of "nat i"] by (auto simp: dec_int_def)
  then show ?thesis
    using assms by (simp add: fkvs_parse_i64_decimal_spec parse_spec_def decimal_value_dec_int bounded_def)
qed

lemma parse_i64_range:
  "fkvs_parse_i64_decimal s lo hi = Some v \<Longrightarrow> lo \<le> v \<and> v \<le> hi"
  by (auto simp: fkvs_parse_i64_decimal_def Let_def split: if_splits option.splits)

lemma le_div_1000: "(s :: int) \<le> a div 1000 \<longleftrightarrow> s * 1000 \<le> a"
proof
  assume "s \<le> a div 1000"
  then have "s * 1000 \<le> a div 1000 * 1000" by simp
  also have "\<dots> \<le> a" by (metis add.commute add_increasing div_mult_mod_eq pos_mod_sign zero_less_numeral order_refl)
  finally show "s * 1000 \<le> a" .
next
  assume "s * 1000 \<le> a"
  then have "s * 1000 div 1000 \<le> a div 1000" by (rule zdiv_mono1) simp
  then show "s \<le> a div 1000" by simp
qed

lemma deadline_guard:
  "secs > (INT64_MAX - now) div 1000 \<longleftrightarrow> \<not> now + secs * 1000 \<le> INT64_MAX"
  using le_div_1000 [of secs "INT64_MAX - now"] by linarith

lemma parse_deadline_eq:
  "fkvs_parse_deadline_ms s now =
    (case fkvs_parse_i64_decimal s 0 (INT64_MAX div 1000) of None \<Rightarrow> None
     | Some secs \<Rightarrow> if now + secs * 1000 \<le> INT64_MAX then Some (now + secs * 1000) else None)"
  unfolding fkvs_parse_deadline_ms_def deadline_guard by (simp split: option.split)

lemma parse_deadline_Some:
  assumes "fkvs_parse_deadline_ms s now = Some d" and "0 \<le> now"
  shows "0 \<le> d \<and> d \<le> INT64_MAX \<and> now \<le> d"
proof (cases "fkvs_parse_i64_decimal s 0 (INT64_MAX div 1000)")
  case None
  with assms(1) show ?thesis unfolding parse_deadline_eq by (simp only: option.case option.distinct)
next
  case (Some secs)
  have d: "(if now + secs * 1000 \<le> INT64_MAX then Some (now + secs * 1000) else None) = Some d"
    using assms(1) unfolding parse_deadline_eq Some by (simp only: option.case)
  have "0 \<le> secs" using parse_i64_range [OF Some] by blast
  moreover have "d = now + secs * 1000" "d \<le> INT64_MAX" using d by (auto split: if_splits)
  ultimately show ?thesis using assms(2) by linarith
qed

section \<open>Properties\<close>

text \<open>C18: For every pair of limits of absolute value at least nine, which the limits of all
  callers are, the bounded parser of 64-bit arithmetic returns exactly the integer the text
  denotes in unbounded arithmetic when that lies between the limits, and refuses every
  other text; no accumulation overflows.\<close>

theorem parse_i64_equiv_reference:
  assumes "limits_ok lo hi"
  shows "fkvs_parse_i64_decimal s lo hi = parse_spec s lo hi"
  using assms by (rule fkvs_parse_i64_decimal_spec)

theorem parse_i64_equiv_reference_witness:
  "limits_ok INT64_MIN INT64_MAX
   \<and> fkvs_parse_i64_decimal [45, 52, 50] INT64_MIN INT64_MAX = parse_spec [45, 52, 50] INT64_MIN INT64_MAX
   \<and> parse_spec [45, 52, 50] INT64_MIN INT64_MAX = Some (- 42)"
proof -
  have l: "limits_ok INT64_MIN INT64_MAX" by (simp add: limits_ok_def)
  have "parse_spec [45, 52, 50] INT64_MIN INT64_MAX = Some (- 42)" by (simp add: parse_spec_def bounded_def decimal_value_def is_integer_def digit_value_def)
  with l parse_i64_equiv_reference [OF l] show ?thesis by simp
qed

text \<open>C19: Round trip of the counters: the text \<open>int64_to_string\<close> allocates for any 64-bit
  integer is not truncated by its 32-byte buffer, has at most 20 bytes, and the parser
  INCR, DECR, INCRBY and DECRBY use reads it back as the same integer.\<close>

theorem int64_print_parse_roundtrip:
  assumes "INT64_MIN \<le> i" and "i \<le> INT64_MAX" and "int64_to_string i a = (Some s, a')"
  shows "fkvs_parse_i64_decimal s INT64_MIN INT64_MAX = Some i \<and> length s \<le> 20"
proof -
  have "s = dec_int i" using assms int64_to_string_eq [of i a] by (auto split: if_splits)
  moreover have "limits_ok INT64_MIN INT64_MAX" by (simp add: limits_ok_def)
  ultimately show ?thesis using assms(1,2) parse_dec_int length_dec_int by simp
qed

theorem int64_print_parse_roundtrip_witness:
  "\<exists>s a'. int64_to_string INT64_MIN [] = (Some s, a')
     \<and> fkvs_parse_i64_decimal s INT64_MIN INT64_MAX = Some INT64_MIN \<and> length s \<le> 20"
proof -
  have e: "int64_to_string INT64_MIN [] = (Some (dec_int INT64_MIN), [])"
    by (simp add: int64_to_string_eq)
  show ?thesis using e int64_print_parse_roundtrip [OF _ _ e] by simp
qed

text \<open>C20: A deadline that EX or EXPIRE computes is the clock reading plus a non-negative
  number of seconds in milliseconds, and it never overflows a signed 64-bit integer; the
  guard on the seconds is exact, so every representable deadline is accepted.\<close>

theorem deadline_exact:
  "fkvs_parse_deadline_ms s now = Some d \<longleftrightarrow>
    (\<exists>secs. parse_spec s 0 (INT64_MAX div 1000) = Some secs \<and> d = now + secs * 1000 \<and> d \<le> INT64_MAX)"
proof -
  have l: "limits_ok 0 (INT64_MAX div 1000)" by (simp add: limits_ok_def)
  show ?thesis
    unfolding parse_deadline_eq fkvs_parse_i64_decimal_spec [OF l]
    by (auto split: option.splits if_splits)
qed

text \<open>The hypothesis on the limits is needed: for an upper limit below nine the
  subtraction \<open>limit - digit\<close> wraps, the guard is disabled, and a text denoting a number
  above \<open>INT64_MAX\<close> is accepted as a negative number.\<close>

lemma parse_i64_small_limit_wraps:
  "fkvs_parse_i64_decimal (replicate 19 57) INT64_MIN 5 = Some (- 8446744073709551617)
   \<and> parse_spec (replicate 19 57) INT64_MIN 5 = None"
proof -
  have r: "replicate 19 (57 :: byte) = [57, 57, 57, 57, 57, 57, 57, 57, 57, 57, 57, 57, 57, 57, 57, 57, 57, 57, 57]"
    by (simp add: numeral_eq_Suc)
  have "fkvs_parse_i64_decimal (replicate 19 57) INT64_MIN 5 = Some (- 8446744073709551617)"
    unfolding r fkvs_parse_i64_decimal_def by (simp add: Let_def)
  moreover have "parse_spec (replicate 19 57) INT64_MIN 5 = None"
    unfolding r parse_spec_def by (simp add: bounded_def decimal_value_def is_integer_def digit_value_def)
  ultimately show ?thesis by simp
qed

end
