(* ===== verification/Server_State.thy ===== *)
theory Server_State
  imports Numeric_Parse "HOL-Library.Signed_Division"
begin

text \<open>
  The server's own state: \<open>src/server.h\<close>, the counters of \<open>src/counter.c\<close>, the connection
  limit of \<open>src/server_limits.c\<close>, the memory figures of \<open>src/memory.c\<close> in the build for
  Linux without jemalloc, and the text of the INFO reply.  The database, the clients and
  the sockets are in the theories of their components.
\<close>

section \<open>Counters\<close>

record counter =
  ct_memory_usage :: u64
  ct_num_executed_commands :: u64
  ct_disconnected_clients :: int
  ct_start_time :: int

datatype event_loop_dispatcher_kind = kqueue_kind | epoll_kind | io_uring_kind

datatype socket_domain = TCP_IP | UNIX

text \<open>The scalar fields of \<open>server_t\<close>.  A NULL path is \<open>None\<close>.\<close>

record server =
  sv_config_file_path :: bytes
  sv_bind_address :: "bytes option"
  sv_uds_socket_path :: "bytes option"
  sv_metrics :: counter
  sv_port :: int
  sv_fd :: int
  sv_event_loop_max_events :: int
  sv_num_disconnected_clients :: int
  sv_pid :: int
  sv_num_clients :: "32 word"
  sv_max_clients :: "32 word"
  sv_socket_domain :: socket_domain
  sv_event_dispatcher_kind :: event_loop_dispatcher_kind
  sv_use_io_uring :: bool
  sv_is_logging_enabled :: bool
  sv_verbose :: bool
  sv_show_logo :: bool
  sv_daemonize :: bool
  sv_owns_bind_address :: bool
  sv_owns_uds_socket_path :: bool

text \<open>\<open>init_counter\<close> leaves \<open>disconnected_clients\<close> as \<open>malloc\<close> returned it: an argument.\<close>

definition init_counter :: "int \<Rightarrow> env \<Rightarrow> counter option \<times> env" where
  "init_counter garbage e =
     (let (ok, e) = env_alloc e in
      if \<not> ok then (None, e)
      else (Some \<lparr>ct_memory_usage = 0, ct_num_executed_commands = 0,
                 ct_disconnected_clients = garbage, ct_start_time = env_time e\<rparr>, e))"

definition get_private_memory_usage_bytes :: "env \<Rightarrow> u64" where
  "get_private_memory_usage_bytes e = of_nat (env_maxrss e) * 1024"

definition update_memory_usage :: "env \<Rightarrow> counter \<Rightarrow> counter" where
  "update_memory_usage e ct = ct\<lparr>ct_memory_usage := get_private_memory_usage_bytes e\<rparr>"

definition increment_command_count :: "counter \<Rightarrow> counter" where
  "increment_command_count ct = ct\<lparr>ct_num_executed_commands := ct_num_executed_commands ct + 1\<rparr>"

definition update_disconnected_clients :: "int \<Rightarrow> counter \<Rightarrow> counter" where
  "update_disconnected_clients n ct = ct\<lparr>ct_disconnected_clients := n\<rparr>"

section \<open>The connection limit\<close>

abbreviation (input) INT_MAX :: int where "INT_MAX \<equiv> 2147483647"

definition fkvs_server_can_accept_client :: "server \<Rightarrow> bool" where
  "fkvs_server_can_accept_client srv \<longleftrightarrow>
     sv_max_clients srv > 0 \<and> sv_num_clients srv < sv_max_clients srv"

definition fkvs_server_record_rejected_client :: "server \<Rightarrow> server" where
  "fkvs_server_record_rejected_client srv =
     (let n = (if sv_num_disconnected_clients srv < INT_MAX
               then sv_num_disconnected_clients srv + 1 else sv_num_disconnected_clients srv)
      in srv\<lparr>sv_num_disconnected_clients := n,
             sv_metrics := (sv_metrics srv)\<lparr>ct_disconnected_clients := n\<rparr>\<rparr>)"

definition server_listen_backlog :: "server \<Rightarrow> int" where
  "server_listen_backlog srv =
     (if sv_max_clients srv = 0 then 128
      else if uint (sv_max_clients srv) > INT_MAX then INT_MAX
      else uint (sv_max_clients srv))"

section \<open>The INFO text\<close>

text \<open>Assignment to an \<open>int\<close>.\<close>

definition to_int :: "int \<Rightarrow> int" where
  "to_int i = sint (of_int i :: 32 word)"

definition format_uptime :: "env \<Rightarrow> counter \<Rightarrow> nat \<Rightarrow> bytes" where
  "format_uptime e ct buffer_len =
     (let uptime_seconds = env_time e - ct_start_time ct;
          days = to_int (uptime_seconds sdiv 86400);
          hours = to_int ((uptime_seconds smod 86400) sdiv 3600);
          minutes = to_int ((uptime_seconds smod 3600) sdiv 60);
          seconds = to_int (uptime_seconds smod 60)
      in snprintf_text buffer_len
           (dec_int days @ bytes_of_string '' days, '' @ dec_int hours @ bytes_of_string '' hours, '' @
            dec_int minutes @ bytes_of_string '' min, '' @ dec_int seconds @ bytes_of_string '' sec''))"

fun event_loop_dispatcher_kind_to_string :: "event_loop_dispatcher_kind \<Rightarrow> bytes" where
  "event_loop_dispatcher_kind_to_string kqueue_kind = bytes_of_string ''kqueue''"
| "event_loop_dispatcher_kind_to_string epoll_kind = bytes_of_string ''epoll''"
| "event_loop_dispatcher_kind_to_string io_uring_kind = bytes_of_string ''io_uring''"

definition get_allocator_name :: bytes where
  "get_allocator_name = bytes_of_string ''system (libc malloc)''"

definition metric_line :: "string \<Rightarrow> bytes \<Rightarrow> bytes" where
  "metric_line label text = bytes_of_string label @ text @ [32, 10]"

text \<open>The text \<open>snprintf\<close> formats for INFO; \<open>%d\<close> of an unsigned count reads it as \<open>int\<close> and
  \<open>%lu\<close> of a \<open>long\<close> as unsigned.\<close>

definition info_text :: "env \<Rightarrow> server \<Rightarrow> bytes" where
  "info_text e srv =
     (let ct = sv_metrics srv in
      bytes_of_string ''# Server '' @ [10] @
      metric_line ''pid: '' (dec_int (sv_pid srv)) @
      metric_line ''port: '' (dec_int (sv_port srv)) @
      metric_line ''config file: '' (sv_config_file_path srv) @
      metric_line ''Uptime: '' (format_uptime e ct 50) @
      metric_line ''event_loop_max_events: '' (dec_int (sv_event_loop_max_events srv)) @
      metric_line ''event_dispatcher_kind: ''
        (event_loop_dispatcher_kind_to_string (sv_event_dispatcher_kind srv)) @
      [10] @ bytes_of_string ''# Clients '' @ [10] @
      metric_line ''connected clients: '' (dec_int (sint (sv_num_clients srv))) @
      metric_line ''disconnected clients: '' (dec_nat (unat (of_int (ct_disconnected_clients ct) :: u64))) @
      [10] @ bytes_of_string ''#Stats '' @ [10] @
      metric_line ''commands executed: '' (dec_nat (unat (ct_num_executed_commands ct))) @
      [10] @ bytes_of_string ''# Memory '' @ [10] @
      bytes_of_string ''Memory Usage: '' @ dec_nat (unat (ct_memory_usage ct)) @
      bytes_of_string '' bytes ('' @ dec_nat (unat (ct_memory_usage ct div 1024)) @
      bytes_of_string '' KiB)'' @ [10] @
      metric_line ''mem_allocator: '' get_allocator_name @
      [10])"

end
