(* ===== verification/Server_Handlers.thy ===== *)
theory Server_Handlers
  imports Ttl Registry Server_State
begin

text \<open>
  \<open>src/commands/server/server_command_handlers.c\<close>: the thirteen command handlers.  A handler
  gets the memory from the start of its frame to the end of the client's read buffer and the
  length of the frame; \<open>None\<close> is a read outside that memory.  Diagnostics to the terminal
  are left out.
\<close>

section \<open>State of the handlers\<close>

text \<open>The connection being served, the two tables of the database, the server's counters and
  the environment.\<close>

record ctx =
  cx_client :: client
  cx_table :: hashtable
  cx_expires :: hashtable
  cx_server :: server
  cx_env :: env

definition cx_send :: "(client \<Rightarrow> env \<Rightarrow> client \<times> env) \<Rightarrow> ctx \<Rightarrow> ctx" where
  "cx_send f cx = (let (c, e) = f (cx_client cx) (cx_env cx) in cx\<lparr>cx_client := c, cx_env := e\<rparr>)"

definition cx_set_allocs :: "allocs \<Rightarrow> ctx \<Rightarrow> ctx" where
  "cx_set_allocs a cx = cx\<lparr>cx_env := (cx_env cx)\<lparr>env_allocs := a\<rparr>\<rparr>"

text \<open>The calls the handlers make on the two tables.\<close>

definition table_set :: "bytes \<Rightarrow> bytes \<Rightarrow> int \<Rightarrow> ctx \<Rightarrow> bool \<times> ctx" where
  "table_set key data enc cx =
     (let (ok, h, a) = set_value (cx_table cx) key data enc (env_allocs (cx_env cx))
      in (ok, cx_set_allocs a (cx\<lparr>cx_table := h\<rparr>)))"

definition expires_set :: "bytes \<Rightarrow> bytes \<Rightarrow> int \<Rightarrow> ctx \<Rightarrow> bool \<times> ctx" where
  "expires_set key data enc cx =
     (let (ok, h, a) = set_value (cx_expires cx) key data enc (env_allocs (cx_env cx))
      in (ok, cx_set_allocs a (cx\<lparr>cx_expires := h\<rparr>)))"

definition expires_put :: "bytes \<Rightarrow> int \<Rightarrow> ctx \<Rightarrow> bool \<times> ctx" where
  "expires_put key deadline_ms cx =
     (let (ok, h, a) = set_expiry (cx_expires cx) key deadline_ms (env_allocs (cx_env cx))
      in (ok, cx_set_allocs a (cx\<lparr>cx_expires := h\<rparr>)))"

definition table_delete :: "bytes \<Rightarrow> ctx \<Rightarrow> ctx" where
  "table_delete key cx = cx\<lparr>cx_table := snd (delete_value (cx_table cx) key)\<rparr>"

definition expires_delete :: "bytes \<Rightarrow> ctx \<Rightarrow> ctx" where
  "expires_delete key cx = cx\<lparr>cx_expires := snd (delete_value (cx_expires cx) key)\<rparr>"

definition expires_remove :: "bytes \<Rightarrow> ctx \<Rightarrow> ctx" where
  "expires_remove key cx = cx\<lparr>cx_expires := snd (remove_expiry (cx_expires cx) key)\<rparr>"

definition table_snapshot :: "bytes \<Rightarrow> ctx \<Rightarrow> value_entry option \<times> ctx" where
  "table_snapshot key cx =
     (let (v, a) = get_value (cx_table cx) key (env_allocs (cx_env cx)) in (v, cx_set_allocs a cx))"

definition expires_snapshot :: "bytes \<Rightarrow> ctx \<Rightarrow> value_entry option \<times> ctx" where
  "expires_snapshot key cx =
     (let (v, a) = get_value (cx_expires cx) key (env_allocs (cx_env cx)) in (v, cx_set_allocs a cx))"

definition cx_malloc :: "ctx \<Rightarrow> bool \<times> ctx" where
  "cx_malloc cx = (let (ok, e) = env_alloc (cx_env cx) in (ok, cx\<lparr>cx_env := e\<rparr>))"

definition cx_int64_to_string :: "int \<Rightarrow> ctx \<Rightarrow> bytes option \<times> ctx" where
  "cx_int64_to_string n cx =
     (let (s, a) = int64_to_string n (env_allocs (cx_env cx)) in (s, cx_set_allocs a cx))"

definition cx_now_ms :: "ctx \<Rightarrow> int \<times> ctx" where
  "cx_now_ms cx = (let (now, e) = fkvs_now_ms (cx_env cx) in (now, cx\<lparr>cx_env := e\<rparr>))"

definition check_and_expire :: "bytes \<Rightarrow> ctx \<Rightarrow> bool \<times> ctx" where
  "check_and_expire key cx =
     (let (expired, e) = is_expired (cx_expires cx) key (cx_env cx); cx = cx\<lparr>cx_env := e\<rparr> in
      if expired then (True, table_delete key (expires_delete key cx)) else (False, cx))"

section \<open>SET\<close>

text \<open>The optional EX suffix: \<open>Inl\<close> is an error reply, \<open>Inr None\<close> no expiry.\<close>

definition set_deadline :: "bytes \<Rightarrow> ctx \<Rightarrow> (unit + int option) \<times> ctx" where
  "set_deadline sec_buf cx =
     (let (now, cx) = cx_now_ms cx in
      case fkvs_parse_deadline_ms sec_buf now of
        None \<Rightarrow> (Inl (), cx)
      | Some deadline_ms \<Rightarrow> (Inr (Some deadline_ms), cx))"

definition parse_set_expiry ::
  "bytes \<Rightarrow> nat \<Rightarrow> nat \<Rightarrow> bool \<Rightarrow> ctx \<Rightarrow> ((unit + int option) \<times> ctx) option" where
  "parse_set_expiry buffer bytes_read ex_offset has_ex cx =
     (if \<not> has_ex then Some (Inr None, cx)
      else if ex_offset + 2 > bytes_read then Some (Inl (), cx)
      else do {
        ex_len \<leftarrow> rd_u16 buffer ex_offset;
        let pos_ex = ex_offset + 2;
        if pos_ex + ex_len > bytes_read then Some (Inl (), cx)
        else do {
          let copy_len = min ex_len 31;
          sec_buf \<leftarrow> slice buffer pos_ex copy_len;
          Some (if copy_len \<noteq> ex_len then (Inl (), cx) else set_deadline sec_buf cx)
        }
      })"

text \<open>What a failed \<open>set_expiry\<close> undoes.\<close>

definition rollback_set :: "bytes \<Rightarrow> value_entry option \<Rightarrow> value_entry option \<Rightarrow> ctx \<Rightarrow> ctx" where
  "rollback_set key old_value old_expiry cx =
     (let cx = (case old_value of
                  Some v \<Rightarrow> snd (table_set key (ve_data v) (uint (ve_encoding v)) cx)
                | None \<Rightarrow> table_delete key cx)
      in case old_expiry of
           Some v \<Rightarrow> snd (expires_set key (ve_data v) (uint (ve_encoding v)) cx)
         | None \<Rightarrow> expires_delete key cx)"

definition store_set :: "bytes \<Rightarrow> bytes \<Rightarrow> int option \<Rightarrow> ctx \<Rightarrow> ctx" where
  "store_set key data deadline cx =
     (let value_encoding =
            (case fkvs_parse_i64_decimal data INT64_MIN INT64_MAX of
               Some _ \<Rightarrow> VALUE_ENTRY_TYPE_INT | None \<Rightarrow> VALUE_ENTRY_TYPE_RAW);
          (old_value, cx) = (if deadline \<noteq> None then table_snapshot key cx else (None, cx));
          (old_expiry, cx) = (if deadline \<noteq> None then expires_snapshot key cx else (None, cx));
          (stored, cx) = table_set key data value_encoding cx
      in if \<not> stored then cx_send send_error cx
         else case deadline of
             Some deadline_ms \<Rightarrow>
               let (ok, cx) = expires_put key deadline_ms cx in
               if \<not> ok then rollback_set key old_value old_expiry (cx_send send_error cx)
               else cx_send (send_reply data) cx
           | None \<Rightarrow> cx_send (send_reply data) (expires_remove key cx))"

definition handle_set_command :: "bytes \<Rightarrow> nat \<Rightarrow> ctx \<Rightarrow> ctx option" where
  "handle_set_command buffer bytes_read cx =
     (if bytes_read < 5 then Some (cx_send send_error cx)
      else do {
        core_len \<leftarrow> rd_u16 buffer 0;
        let total_needed = core_len + 2;
        if bytes_read < total_needed then Some (cx_send send_error cx)
        else do {
          cmd \<leftarrow> rd buffer 2;
          if cmd \<noteq> CMD_SET then Some (cx_send send_error cx)
          else do {
            key_len \<leftarrow> rd_u16 buffer 3;
            let pos_key = 5;
            let after_key = pos_key + key_len;
            let min_core_up_to_key = 3 + key_len;
            if min_core_up_to_key > core_len then Some (cx_send send_error cx)
            else if after_key + 2 > bytes_read then Some (cx_send send_error cx)
            else do {
              value_len \<leftarrow> rd_u16 buffer after_key;
              let pos_value = after_key + 2;
              let end_value = pos_value + value_len;
              let core_payload_size = 5 + key_len + value_len;
              if core_payload_size > core_len \<or> end_value > bytes_read
              then Some (cx_send send_error cx)
              else do {
                (ex, cx) \<leftarrow> parse_set_expiry buffer bytes_read end_value (core_payload_size < core_len) cx;
                case ex of
                  Inl _ \<Rightarrow> Some (cx_send send_error cx)
                | Inr deadline \<Rightarrow> do {
                    key \<leftarrow> slice buffer pos_key key_len;
                    data \<leftarrow> slice buffer pos_value value_len;
                    Some (store_set key data deadline cx)
                  }
              }
            }
          }
        }
      })"

section \<open>GET\<close>

definition reply_lookup :: "bytes \<Rightarrow> ctx \<Rightarrow> ctx" where
  "reply_lookup key cx =
     (case lookup_value (cx_table cx) key of
        Some v \<Rightarrow> cx_send (send_reply (ve_data v)) cx
      | None \<Rightarrow> cx_send send_error cx)"

definition serve_get :: "bytes \<Rightarrow> ctx \<Rightarrow> ctx" where
  "serve_get key cx =
     (let (expired, cx) = check_and_expire key cx
      in if expired then cx_send send_error cx else reply_lookup key cx)"

definition handle_get_command :: "bytes \<Rightarrow> nat \<Rightarrow> ctx \<Rightarrow> ctx option" where
  "handle_get_command buffer bytes_read cx =
     (if bytes_read < 5 then Some (cx_send send_error cx)
      else do {
        command_len \<leftarrow> rd_u16 buffer 0;
        key_len \<leftarrow> rd_u16 buffer 3;
        cmd \<leftarrow> rd buffer 2;
        if cmd \<noteq> CMD_GET then Some (cx_send send_error cx)
        else if bytes_read - 2 = command_len then do {
          key \<leftarrow> slice buffer 5 key_len;
          Some (serve_get key cx)
        }
        else Some (cx_send send_error cx)
      })"

section \<open>Counters\<close>

text \<open>
  The part the four counter commands share, from the lazy expiry on: a missing key is
  created as 0, \<open>change\<close> is the new value or \<open>None\<close> when it is out of range.
\<close>

definition fetch_or_zero :: "bytes \<Rightarrow> ctx \<Rightarrow> value_entry option \<times> ctx" where
  "fetch_or_zero key cx =
     (case lookup_value (cx_table cx) key of
        Some v \<Rightarrow> (Some v, cx)
      | None \<Rightarrow>
          let (ok, cx) = table_set key [48] VALUE_ENTRY_TYPE_INT cx in
          if \<not> ok then (None, cx) else (lookup_value (cx_table cx) key, cx))"

definition store_counter :: "bytes \<Rightarrow> int \<Rightarrow> ctx \<Rightarrow> ctx" where
  "store_counter key n cx =
     (let (text, cx) = cx_int64_to_string n cx in
      case text of
        None \<Rightarrow> cx_send send_error cx
      | Some reply \<Rightarrow>
          let (ok, cx) = table_set key reply VALUE_ENTRY_TYPE_INT cx in
          if \<not> ok then cx_send send_error cx else cx_send (send_reply reply) cx)"

definition change_counter :: "bytes \<Rightarrow> (int \<Rightarrow> int option) \<Rightarrow> ctx \<Rightarrow> ctx" where
  "change_counter key change cx =
     (let (expired, cx) = check_and_expire key cx;
          (v, cx) = fetch_or_zero key cx
      in case v of
           None \<Rightarrow> cx_send send_error cx
         | Some v \<Rightarrow>
             if ve_encoding v \<noteq> of_int VALUE_ENTRY_TYPE_INT then cx_send send_error cx
             else case fkvs_parse_i64_decimal (ve_data v) INT64_MIN INT64_MAX of
                 None \<Rightarrow> cx_send send_error cx
               | Some current \<Rightarrow>
                   (case change current of
                      None \<Rightarrow> cx_send send_error cx
                    | Some n \<Rightarrow> store_counter key n cx))"

definition incr_one :: "int \<Rightarrow> int option" where
  "incr_one current = (if current = INT64_MAX then None else Some (current + 1))"

definition decr_one :: "int \<Rightarrow> int option" where
  "decr_one current = (if current = INT64_MIN then None else Some (current - 1))"

definition incr_by :: "bytes \<Rightarrow> int \<Rightarrow> int option" where
  "incr_by incr_str current =
     (case fkvs_parse_i64_decimal incr_str INT64_MIN INT64_MAX of
        None \<Rightarrow> None
      | Some increment \<Rightarrow>
          if (increment > 0 \<and> current > INT64_MAX - increment) \<or>
             (increment < 0 \<and> current < INT64_MIN - increment)
          then None else Some (current + increment))"

definition decr_by :: "bytes \<Rightarrow> int \<Rightarrow> int option" where
  "decr_by decr_str current =
     (case fkvs_parse_i64_decimal decr_str INT64_MIN INT64_MAX of
        None \<Rightarrow> None
      | Some decrement \<Rightarrow>
          if (decrement > 0 \<and> current < INT64_MIN + decrement) \<or>
             (decrement < 0 \<and> current > INT64_MAX + decrement)
          then None else Some (current - decrement))"

definition handle_incr_command :: "bytes \<Rightarrow> nat \<Rightarrow> ctx \<Rightarrow> ctx option" where
  "handle_incr_command buffer bytes_read cx =
     (if bytes_read < 5 then Some (cx_send send_error cx)
      else do {
        command_length \<leftarrow> rd_u16 buffer 0;
        key_len \<leftarrow> rd_u16 buffer 3;
        if key_len < 1 \<or> command_length < 1 then Some (cx_send send_error cx)
        else do {
          cmd \<leftarrow> rd buffer 2;
          if cmd \<noteq> CMD_INCR then Some (cx_send send_error cx)
          else if bytes_read - 2 \<noteq> command_length then Some (cx_send send_error cx)
          else do {
            key \<leftarrow> slice buffer 5 key_len;
            Some (change_counter key incr_one cx)
          }
        }
      })"

definition handle_decr_command :: "bytes \<Rightarrow> nat \<Rightarrow> ctx \<Rightarrow> ctx option" where
  "handle_decr_command buffer bytes_read cx =
     (if bytes_read < 5 then Some (cx_send send_error cx)
      else do {
        command_length \<leftarrow> rd_u16 buffer 0;
        key_len \<leftarrow> rd_u16 buffer 3;
        cmd \<leftarrow> rd buffer 2;
        if cmd \<noteq> CMD_DECR then Some (cx_send send_error cx)
        else if bytes_read - 2 \<noteq> command_length then Some (cx_send send_error cx)
        else do {
          key \<leftarrow> slice buffer 5 key_len;
          Some (change_counter key decr_one cx)
        }
      })"

text \<open>INCRBY and DECRBY differ in their command byte and in the change.\<close>

definition handle_by_command ::
  "byte \<Rightarrow> (bytes \<Rightarrow> int \<Rightarrow> int option) \<Rightarrow> bytes \<Rightarrow> nat \<Rightarrow> ctx \<Rightarrow> ctx option" where
  "handle_by_command cmd_id change buffer bytes_read cx =
     (if bytes_read < 5 then Some (cx_send send_error cx)
      else do {
        command_length \<leftarrow> rd_u16 buffer 0;
        key_len \<leftarrow> rd_u16 buffer 3;
        let pos = 5 + key_len;
        let offset = 2;
        cmd \<leftarrow> rd buffer 2;
        if cmd \<noteq> cmd_id then Some (cx_send send_error cx)
        else if pos + offset > bytes_read then Some (cx_send send_error cx)
        else do {
          value_length \<leftarrow> rd_u16 buffer pos;
          if pos + offset + value_length > bytes_read then Some (cx_send send_error cx)
          else do {
            let (ok, cx) = cx_malloc cx;
            if \<not> ok then Some (cx_send send_error cx)
            else do {
              amount \<leftarrow> slice buffer (pos + offset) value_length;
              if bytes_read - offset \<noteq> command_length then Some (cx_send send_error cx)
              else do {
                key \<leftarrow> slice buffer 5 key_len;
                Some (change_counter key (change amount) cx)
              }
            }
          }
        }
      })"

definition handle_incr_by_command :: "bytes \<Rightarrow> nat \<Rightarrow> ctx \<Rightarrow> ctx option" where
  "handle_incr_by_command = handle_by_command CMD_INCR_BY incr_by"

definition handle_decr_by_command :: "bytes \<Rightarrow> nat \<Rightarrow> ctx \<Rightarrow> ctx option" where
  "handle_decr_by_command = handle_by_command CMD_DECR_BY decr_by"

section \<open>PING and INFO\<close>

definition handle_ping_command :: "bytes \<Rightarrow> nat \<Rightarrow> ctx \<Rightarrow> ctx option" where
  "handle_ping_command buffer bytes_read cx =
     (if bytes_read < 5 then Some (cx_send send_error cx)
      else do {
        command_length \<leftarrow> rd_u16 buffer 0;
        cmd \<leftarrow> rd buffer 2;
        if cmd \<noteq> CMD_PING then Some (cx_send send_error cx)
        else if bytes_read - 2 = command_length then do {
          (c, e) \<leftarrow> send_pong buffer bytes_read (cx_client cx) (cx_env cx);
          Some (cx\<lparr>cx_client := c, cx_env := e\<rparr>)
        }
        else Some (cx_send send_error cx)
      })"

definition handle_info_command :: "bytes \<Rightarrow> nat \<Rightarrow> ctx \<Rightarrow> ctx option" where
  "handle_info_command buffer bytes_read cx =
     (if bytes_read < 3 then Some (cx_send send_error cx)
      else do {
        cmd \<leftarrow> rd buffer 2;
        if cmd \<noteq> CMD_INFO then Some (cx_send send_error cx)
        else do {
          let srv = cx_server cx;
          let srv = srv\<lparr>sv_metrics := update_memory_usage (cx_env cx) (sv_metrics srv)\<rparr>;
          let cx = cx\<lparr>cx_server := srv\<rparr>;
          let metrics = info_text (cx_env cx) srv;
          Some (if length metrics \<ge> 768 then cx_send send_error cx
                else cx_send (send_info_reply metrics) cx)
        }
      })"

section \<open>DEL, EXPIRE, TTL and PERSIST\<close>

definition serve_del :: "bytes \<Rightarrow> ctx \<Rightarrow> ctx" where
  "serve_del key cx = cx_send send_ok (expires_delete key (table_delete key cx))"

definition handle_del_command :: "bytes \<Rightarrow> nat \<Rightarrow> ctx \<Rightarrow> ctx option" where
  "handle_del_command buffer bytes_read cx =
     (if bytes_read < 5 then Some (cx_send send_error cx)
      else do {
        command_len \<leftarrow> rd_u16 buffer 0;
        key_len \<leftarrow> rd_u16 buffer 3;
        cmd \<leftarrow> rd buffer 2;
        if cmd \<noteq> CMD_DEL then Some (cx_send send_error cx)
        else if bytes_read - 2 \<noteq> command_len then Some (cx_send send_error cx)
        else do {
          key \<leftarrow> slice buffer 5 key_len;
          Some (serve_del key cx)
        }
      })"

text \<open>The part of EXPIRE after its frame is read: the seconds' text is copied to a buffer of 32
  bytes and refused when it does not fit.\<close>

definition serve_expire :: "bytes \<Rightarrow> nat \<Rightarrow> bytes \<Rightarrow> ctx \<Rightarrow> ctx" where
  "serve_expire key ttl_str_len sec_buf cx =
     (if length sec_buf \<noteq> ttl_str_len then cx_send send_error cx
      else let (now, cx) = cx_now_ms cx in
        case fkvs_parse_deadline_ms sec_buf now of
          None \<Rightarrow> cx_send send_error cx
        | Some deadline_ms \<Rightarrow>
            let (ok, cx) = expires_put key deadline_ms cx in
            if \<not> ok then cx_send send_error cx else cx_send send_ok cx)"

definition handle_expire_command :: "bytes \<Rightarrow> nat \<Rightarrow> ctx \<Rightarrow> ctx option" where
  "handle_expire_command buffer bytes_read cx =
     (if bytes_read < 5 then Some (cx_send send_error cx)
      else do {
        core_len \<leftarrow> rd_u16 buffer 0;
        cmd \<leftarrow> rd buffer 2;
        if cmd \<noteq> CMD_EXPIRE then Some (cx_send send_error cx)
        else if bytes_read - 2 < core_len then Some (cx_send send_error cx)
        else do {
          key_len \<leftarrow> rd_u16 buffer 3;
          let pos_key = 5;
          let after_key = pos_key + key_len;
          if after_key + 2 > bytes_read then Some (cx_send send_error cx)
          else do {
            ttl_str_len \<leftarrow> rd_u16 buffer after_key;
            let pos_ttl = after_key + 2;
            if pos_ttl + ttl_str_len > bytes_read then Some (cx_send send_error cx)
            else do {
              key \<leftarrow> slice buffer pos_key key_len;
              if lookup_value (cx_table cx) key = None then Some (cx_send send_error cx)
              else do {
                let copy_len = min ttl_str_len 31;
                sec_buf \<leftarrow> slice buffer pos_ttl copy_len;
                Some (serve_expire key ttl_str_len sec_buf cx)
              }
            }
          }
        }
      })"

definition reply_ttl :: "bytes \<Rightarrow> ctx \<Rightarrow> ctx" where
  "reply_ttl key cx =
     (let (expired, cx) = check_and_expire key cx;
          (ttl, cx) =
            (if lookup_value (cx_table cx) key = None then (-2, cx)
             else let (ttl, e) = get_ttl (cx_expires cx) key (cx_env cx)
                  in (if ttl = -2 then -1 else ttl, cx\<lparr>cx_env := e\<rparr>))
      in cx_send (send_reply (snprintf_text 32 (dec_int ttl))) cx)"

definition handle_ttl_command :: "bytes \<Rightarrow> nat \<Rightarrow> ctx \<Rightarrow> ctx option" where
  "handle_ttl_command buffer bytes_read cx =
     (if bytes_read < 5 then Some (cx_send send_error cx)
      else do {
        command_len \<leftarrow> rd_u16 buffer 0;
        key_len \<leftarrow> rd_u16 buffer 3;
        cmd \<leftarrow> rd buffer 2;
        if cmd \<noteq> CMD_TTL then Some (cx_send send_error cx)
        else if bytes_read - 2 \<noteq> command_len then Some (cx_send send_error cx)
        else do {
          key \<leftarrow> slice buffer 5 key_len;
          Some (reply_ttl key cx)
        }
      })"

definition serve_persist :: "bytes \<Rightarrow> ctx \<Rightarrow> ctx" where
  "serve_persist key cx = cx_send send_ok (expires_remove key cx)"

definition handle_persist_command :: "bytes \<Rightarrow> nat \<Rightarrow> ctx \<Rightarrow> ctx option" where
  "handle_persist_command buffer bytes_read cx =
     (if bytes_read < 5 then Some (cx_send send_error cx)
      else do {
        command_len \<leftarrow> rd_u16 buffer 0;
        key_len \<leftarrow> rd_u16 buffer 3;
        cmd \<leftarrow> rd buffer 2;
        if cmd \<noteq> CMD_PERSIST then Some (cx_send send_error cx)
        else if bytes_read - 2 \<noteq> command_len then Some (cx_send send_error cx)
        else do {
          key \<leftarrow> slice buffer 5 key_len;
          Some (serve_persist key cx)
        }
      })"

section \<open>KEYS\<close>

text \<open>
  The output buffer is the list of its \<open>used\<close> bytes; its capacity decides when it is
  reallocated.  As in the sweep, each chain is followed from the state in which it is
  entered.  \<open>None\<close> is an error reply.
\<close>

abbreviation (input) keys_max_output :: nat where "keys_max_output \<equiv> 65500"

definition keys_reserve :: "nat \<Rightarrow> nat \<Rightarrow> ctx \<Rightarrow> nat option \<times> ctx" where
  "keys_reserve needed capacity cx =
     (if needed > capacity
      then let new_cap = capacity * 2;
               new_cap = (if new_cap > keys_max_output then keys_max_output else new_cap);
               new_cap = (if new_cap < needed then needed else new_cap);
               (ok, cx) = cx_malloc cx
           in (if ok then Some new_cap else None, cx)
      else (Some capacity, cx))"

fun keys_chain :: "chain \<Rightarrow> bytes \<Rightarrow> nat \<Rightarrow> nat \<Rightarrow> ctx \<Rightarrow> (bytes \<times> nat \<times> nat) option \<times> ctx" where
  "keys_chain [] buf cnt capacity cx = (Some (buf, cnt, capacity), cx)"
| "keys_chain (entry # next) buf cnt capacity cx =
     (let (expired, cx) = check_and_expire (he_key entry) cx in
      if expired then keys_chain next buf cnt capacity cx
      else let num_buf = dec_nat (cnt + 1) @ [41, 32] in
        if length num_buf \<ge> 24 then (None, cx)
        else let line_len = length num_buf + length (he_key entry) + 1 in
          if line_len > keys_max_output - length buf then (None, cx)
          else let (capacity, cx) = keys_reserve (length buf + line_len) capacity cx in
            case capacity of
              None \<Rightarrow> (None, cx)
            | Some capacity \<Rightarrow>
                keys_chain next (buf @ num_buf @ he_key entry @ [10]) (cnt + 1) capacity cx)"

fun keys_buckets ::
  "(nat \<times> nat) list \<Rightarrow> bytes \<Rightarrow> nat \<Rightarrow> nat \<Rightarrow> ctx \<Rightarrow> (bytes \<times> nat \<times> nat) option \<times> ctx" where
  "keys_buckets [] buf cnt capacity cx = (Some (buf, cnt, capacity), cx)"
| "keys_buckets ((t, i) # rest) buf cnt capacity cx =
     (let (r, cx) = keys_chain (st_bucket (ht_sub (cx_table cx) t) i) buf cnt capacity cx in
      case r of
        None \<Rightarrow> (None, cx)
      | Some (buf, cnt, capacity) \<Rightarrow> keys_buckets rest buf cnt capacity cx)"

definition keys_positions :: "hashtable \<Rightarrow> (nat \<times> nat) list" where
  "keys_positions h =
     concat (map (\<lambda>t. if st_buckets (ht_sub h t) = None then []
                      else map (Pair t) [0..<st_size (ht_sub h t)]) [0, 1])"

definition list_keys :: "ctx \<Rightarrow> ctx" where
  "list_keys cx =
     (let (ok, cx) = cx_malloc cx in
      if \<not> ok then cx_send send_error cx
      else let (r, cx) = keys_buckets (keys_positions (cx_table cx)) [] 0 4096 cx in
        case r of
          None \<Rightarrow> cx_send send_error cx
        | Some (buf, cnt, capacity) \<Rightarrow>
            if cnt = 0 then cx_send (send_keys_reply []) cx
            else cx_send (send_keys_reply (take (length buf - 1) buf)) cx)"

definition handle_keys_command :: "bytes \<Rightarrow> nat \<Rightarrow> ctx \<Rightarrow> ctx option" where
  "handle_keys_command buffer bytes_read cx =
     (if bytes_read \<noteq> 3 then Some (cx_send send_error cx)
      else do {
        core_len \<leftarrow> rd_u16 buffer 0;
        if core_len \<noteq> 1 then Some (cx_send send_error cx)
        else do {
          cmd \<leftarrow> rd buffer 2;
          if cmd \<noteq> CMD_KEYS then Some (cx_send send_error cx) else Some (list_keys cx)
        }
      })"

section \<open>The command table\<close>

type_synonym command_handler = "bytes \<Rightarrow> nat \<Rightarrow> ctx \<Rightarrow> ctx option"

type_synonym command_table = "byte \<Rightarrow> command_handler option"

definition register_command :: "byte \<Rightarrow> command_handler \<Rightarrow> command_table \<Rightarrow> command_table" where
  "register_command command_id handler handlers = handlers(command_id := Some handler)"

definition init_command_handlers :: "command_table \<Rightarrow> command_table" where
  "init_command_handlers handlers =
     register_command CMD_KEYS handle_keys_command
    (register_command CMD_PERSIST handle_persist_command
    (register_command CMD_TTL handle_ttl_command
    (register_command CMD_EXPIRE handle_expire_command
    (register_command CMD_DEL handle_del_command
    (register_command CMD_DECR_BY handle_decr_by_command
    (register_command CMD_INFO handle_info_command
    (register_command CMD_DECR handle_decr_command
    (register_command CMD_PING handle_ping_command
    (register_command CMD_INCR_BY handle_incr_by_command
    (register_command CMD_INCR handle_incr_command
    (register_command CMD_GET handle_get_command
    (register_command CMD_SET handle_set_command handlers))))))))))))"

definition command_handlers :: command_table where
  "command_handlers = init_command_handlers (\<lambda>_. None)"

text \<open>An unknown command, and a frame without a command byte, get no reply.\<close>

definition dispatch_command :: "command_table \<Rightarrow> bytes \<Rightarrow> nat \<Rightarrow> ctx \<Rightarrow> ctx option" where
  "dispatch_command handlers buffer bytes_read cx =
     (if bytes_read < 3 then Some cx
      else do {
        command_id \<leftarrow> rd buffer 2;
        case handlers command_id of
          Some handler \<Rightarrow> handler buffer bytes_read cx
        | None \<Rightarrow> Some cx
      })"

end
