(* ===== verification/Handler_Specs.thy ===== *)
theory Handler_Specs
  imports Server_Handlers
begin

text \<open>
  The contract of the command handlers: the database they keep stands for a finite map of
  values and a finite map of deadlines, every handler keeps its invariant and answers with
  exactly one reply frame, and, when no allocation fails, the answer and the new state are
  those of an abstract command.
\<close>


section \<open>What the state of the handlers stands for\<close>

definition value_encoding :: "bytes \<Rightarrow> int" where
  "value_encoding data =
     (case fkvs_parse_i64_decimal data INT64_MIN INT64_MAX of
        Some _ \<Rightarrow> VALUE_ENTRY_TYPE_INT | None \<Rightarrow> VALUE_ENTRY_TYPE_RAW)"

text \<open>
  Every stored value carries the encoding its bytes deserve and is short enough to be sent
  back; every entry of the expiry table is the coding of a 64-bit deadline.
\<close>

definition store_inv :: "hashtable \<Rightarrow> bool" where
  "store_inv h \<longleftrightarrow> ht_inv h \<and> (\<forall>k v. ht_map h k = Some v \<longrightarrow>
     v = entry_for (ve_data v) (value_encoding (ve_data v)) \<and> length (ve_data v) \<le> 65530)"

definition expires_inv :: "hashtable \<Rightarrow> bool" where
  "expires_inv h \<longleftrightarrow> ht_inv h \<and> (\<forall>k v. ht_map h k = Some v \<longrightarrow>
     (\<exists>d. INT64_MIN \<le> d \<and> d \<le> INT64_MAX \<and> v = entry_for (deadline_bytes d) VALUE_ENTRY_TYPE_INT))"

text \<open>Clock readings are non-negative 64-bit numbers of milliseconds.\<close>

definition reading_ok :: "int \<Rightarrow> bool" where
  "reading_ok t \<longleftrightarrow> 0 \<le> t \<and> t \<le> INT64_MAX"

definition clock_ok :: "env \<Rightarrow> bool" where
  "clock_ok e \<longleftrightarrow> (\<forall>t \<in> set (env_clock e). reading_ok t) \<and> reading_ok (env_now e)"

record astate =
  a_store :: "bytes \<rightharpoonup> bytes"
  a_deadlines :: "bytes \<rightharpoonup> int"

definition db_view :: "ctx \<Rightarrow> astate" where
  "db_view cx = \<lparr>a_store = (\<lambda>k. map_option ve_data (ht_map (cx_table cx) k)),
             a_deadlines = deadlines (cx_expires cx)\<rparr>"

definition ctx_ok :: "ctx \<Rightarrow> bool" where
  "ctx_ok cx \<longleftrightarrow> client_inv (cx_client cx) \<and> store_inv (cx_table cx) \<and> expires_inv (cx_expires cx)
     \<and> clock_ok (cx_env cx)"

text \<open>A deadline belongs to a stored key.\<close>

definition astate_inv :: "astate \<Rightarrow> bool" where
  "astate_inv s \<longleftrightarrow> dom (a_deadlines s) \<subseteq> dom (a_store s)"

definition ctx_inv :: "ctx \<Rightarrow> bool" where
  "ctx_inv cx \<longleftrightarrow> ctx_ok cx \<and> astate_inv (db_view cx)"

definition cx_safe :: "ctx \<Rightarrow> bool" where
  "cx_safe cx \<longleftrightarrow> alloc_safe (env_allocs (cx_env cx))"

text \<open>A step that neither talks to the client nor reads the clock.\<close>

definition quiet :: "ctx \<Rightarrow> ctx \<Rightarrow> bool" where
  "quiet cx cx' \<longleftrightarrow> cx_client cx' = cx_client cx \<and> cx_server cx' = cx_server cx
     \<and> (\<exists>a. cx_env cx' = (cx_env cx)\<lparr>env_allocs := a\<rparr>)"

lemma quiet_refl [simp]: "quiet cx cx"
  by (auto simp: quiet_def intro: exI [of _ "env_allocs (cx_env cx)"])

lemma quiet_trans: "quiet a b \<Longrightarrow> quiet b c \<Longrightarrow> quiet a c"
  by (auto simp: quiet_def)

lemma clock_ok_allocs [simp]: "clock_ok (e\<lparr>env_allocs := a\<rparr>) = clock_ok e"
  by (simp add: clock_ok_def)

lemma fkvs_now_ms_allocs [simp]:
  "fkvs_now_ms (e\<lparr>env_allocs := a\<rparr>) = (fst (fkvs_now_ms e), (snd (fkvs_now_ms e))\<lparr>env_allocs := a\<rparr>)"
  by (simp add: fkvs_now_ms_def split: list.split)

lemma clock_ok_now:
  assumes "clock_ok e"
  shows "reading_ok (fst (fkvs_now_ms e))" and "clock_ok (snd (fkvs_now_ms e))"
    and "env_allocs (snd (fkvs_now_ms e)) = env_allocs e"
  using assms by (auto simp: clock_ok_def fkvs_now_ms_def split: list.splits)

section \<open>The calls on the tables\<close>

lemma store_inv_put:
  assumes "store_inv h" and "set_value h k d (value_encoding d) a = (ok, h', a')" and "length d \<le> 65530"
  shows "store_inv h'"
  using assms ht.put_inv [OF _ assms(2)] ht.put_contents [OF _ assms(2)]
  by (auto simp: store_inv_def)

lemma table_set_ok:
  assumes "ctx_ok cx" and "table_set k d (value_encoding d) cx = (ok, cx')" and "length d \<le> 65530"
  shows "ctx_ok cx'" and "quiet cx cx'" and "cx_safe cx \<Longrightarrow> ok \<and> cx_safe cx'"
    and "db_view cx' = (if ok then (db_view cx)\<lparr>a_store := (a_store (db_view cx))(k \<mapsto> d)\<rparr> else db_view cx)"
    and "cx_expires cx' = cx_expires cx"
proof -
  obtain ok1 h a where s: "set_value (cx_table cx) k d (value_encoding d) (env_allocs (cx_env cx)) = (ok1, h, a)"
    using prod_cases3 by blast
  have c: "ok1 = ok" "cx' = cx_set_allocs a (cx\<lparr>cx_table := h\<rparr>)" using assms(2) s by (auto simp: table_set_def)
  have i: "ht_inv (cx_table cx)" using assms(1) by (simp add: ctx_ok_def store_inv_def)
  note r = ht.put_contents [OF i s] ht.put_safe [OF i s]
  show "ctx_ok cx'" using assms(1) store_inv_put [OF _ s assms(3)] by (simp add: ctx_ok_def c(2) cx_set_allocs_def)
  show "quiet cx cx'" by (auto simp: quiet_def c(2) cx_set_allocs_def)
  show "cx_safe cx \<Longrightarrow> ok \<and> cx_safe cx'" using r(2) by (simp add: cx_safe_def c cx_set_allocs_def)
  show "db_view cx' = (if ok then (db_view cx)\<lparr>a_store := (a_store (db_view cx))(k \<mapsto> d)\<rparr> else db_view cx)"
    using r(1) c by (auto simp: db_view_def cx_set_allocs_def)
  show "cx_expires cx' = cx_expires cx" by (simp add: c(2) cx_set_allocs_def)
qed

lemma expires_inv_put:
  assumes "expires_inv h" and "set_expiry h k d a = (ok, h', a')" and "INT64_MIN \<le> d" and "d \<le> INT64_MAX"
  shows "expires_inv h'"
  using assms deadlines_put [OF _ assms(2-4)] by (auto simp: expires_inv_def)

lemma expires_put_ok:
  assumes "ctx_ok cx" and "expires_put k d cx = (ok, cx')" and "INT64_MIN \<le> d" and "d \<le> INT64_MAX"
  shows "ctx_ok cx'" and "quiet cx cx'" and "cx_safe cx \<Longrightarrow> ok \<and> cx_safe cx'"
    and "db_view cx' = (if ok then (db_view cx)\<lparr>a_deadlines := (a_deadlines (db_view cx))(k \<mapsto> d)\<rparr> else db_view cx)"
    and "cx_table cx' = cx_table cx"
proof -
  obtain ok1 h a where s: "set_expiry (cx_expires cx) k d (env_allocs (cx_env cx)) = (ok1, h, a)"
    using prod_cases3 by blast
  have c: "ok1 = ok" "cx' = cx_set_allocs a (cx\<lparr>cx_expires := h\<rparr>)" using assms(2) s by (auto simp: expires_put_def)
  have i: "ht_inv (cx_expires cx)" using assms(1) by (simp add: ctx_ok_def expires_inv_def)
  note r = deadlines_put [OF i s assms(3,4)]
  show "ctx_ok cx'" using assms(1) expires_inv_put [OF _ s assms(3,4)] by (simp add: ctx_ok_def c(2) cx_set_allocs_def)
  show "quiet cx cx'" by (auto simp: quiet_def c(2) cx_set_allocs_def)
  show "cx_safe cx \<Longrightarrow> ok \<and> cx_safe cx'" using r(3) by (simp add: cx_safe_def c cx_set_allocs_def)
  show "db_view cx' = (if ok then (db_view cx)\<lparr>a_deadlines := (a_deadlines (db_view cx))(k \<mapsto> d)\<rparr> else db_view cx)"
    using r(2) c by (auto simp: db_view_def cx_set_allocs_def)
  show "cx_table cx' = cx_table cx" by (simp add: c(2) cx_set_allocs_def)
qed

lemma table_delete_ok:
  assumes "ctx_ok cx"
  shows "ctx_ok (table_delete k cx)" and "quiet cx (table_delete k cx)"
    and "db_view (table_delete k cx) = (db_view cx)\<lparr>a_store := (a_store (db_view cx))(k := None)\<rparr>"
    and "cx_safe (table_delete k cx) = cx_safe cx"
proof -
  have i: "ht_inv (cx_table cx)" using assms by (simp add: ctx_ok_def store_inv_def)
  note d = delete_one [OF i, of k]
  show "ctx_ok (table_delete k cx)"
    using assms d by (auto simp: ctx_ok_def store_inv_def table_delete_def split: if_splits)
  show "quiet cx (table_delete k cx)"
    by (auto simp: quiet_def table_delete_def intro: exI [of _ "env_allocs (cx_env cx)"])
  show "db_view (table_delete k cx) = (db_view cx)\<lparr>a_store := (a_store (db_view cx))(k := None)\<rparr>"
    using d by (auto simp: db_view_def table_delete_def)
  show "cx_safe (table_delete k cx) = cx_safe cx" by (simp add: cx_safe_def table_delete_def)
qed

lemma expires_delete_ok:
  assumes "ctx_ok cx"
  shows "ctx_ok (expires_delete k cx)" and "quiet cx (expires_delete k cx)"
    and "db_view (expires_delete k cx) = (db_view cx)\<lparr>a_deadlines := (a_deadlines (db_view cx))(k := None)\<rparr>"
    and "cx_safe (expires_delete k cx) = cx_safe cx"
    and "expires_remove k cx = expires_delete k cx"
proof -
  have i: "ht_inv (cx_expires cx)" using assms by (simp add: ctx_ok_def expires_inv_def)
  note d = delete_one [OF i, of k]
  show "ctx_ok (expires_delete k cx)"
    using assms d by (auto simp: ctx_ok_def expires_inv_def expires_delete_def split: if_splits)
  show "quiet cx (expires_delete k cx)"
    by (auto simp: quiet_def expires_delete_def intro: exI [of _ "env_allocs (cx_env cx)"])
  show "db_view (expires_delete k cx) = (db_view cx)\<lparr>a_deadlines := (a_deadlines (db_view cx))(k := None)\<rparr>"
    using d by (auto simp: db_view_def expires_delete_def deadlines_def)
  show "cx_safe (expires_delete k cx) = cx_safe cx" by (simp add: cx_safe_def expires_delete_def)
  show "expires_remove k cx = expires_delete k cx"
    by (simp add: expires_remove_def expires_delete_def remove_expiry_def)
qed

lemma lookup_store:
  "ctx_ok cx \<Longrightarrow> a_store (db_view cx) k = map_option ve_data (lookup_value (cx_table cx) k)"
  by (simp add: db_view_def ctx_ok_def store_inv_def ht.lookup_contents)

lemma lookup_entry:
  assumes "ctx_ok cx" and "lookup_value (cx_table cx) k = Some v"
  shows "v = entry_for (ve_data v) (value_encoding (ve_data v))" and "length (ve_data v) \<le> 65530"
  using assms by (auto simp: ctx_ok_def store_inv_def ht.lookup_contents)

lemma get_deadline_abs: "ctx_ok cx \<Longrightarrow> get_deadline (cx_expires cx) k = a_deadlines (db_view cx) k"
  by (simp add: db_view_def ctx_ok_def expires_inv_def get_deadline_map)

section \<open>Lazy expiry\<close>

definition a_remove :: "bytes \<Rightarrow> astate \<Rightarrow> astate" where
  "a_remove k s = \<lparr>a_store = (a_store s)(k := None), a_deadlines = (a_deadlines s)(k := None)\<rparr>"

definition a_late :: "bytes \<Rightarrow> int \<Rightarrow> astate \<Rightarrow> bool" where
  "a_late k now s \<longleftrightarrow> (case a_deadlines s k of None \<Rightarrow> False | Some d \<Rightarrow> d \<le> now)"

definition a_expire :: "bytes \<Rightarrow> int \<Rightarrow> astate \<Rightarrow> astate" where
  "a_expire k now s = (if a_late k now s then a_remove k s else s)"

lemma astate_inv_remove: "astate_inv s \<Longrightarrow> astate_inv (a_remove k s)"
  by (auto simp: astate_inv_def a_remove_def)

lemma astate_inv_expire: "astate_inv s \<Longrightarrow> astate_inv (a_expire k now s)"
  by (simp add: a_expire_def astate_inv_remove)

text \<open>The readings a command sees: its first, and the one after it.\<close>

definition cx_now :: "ctx \<Rightarrow> int" where
  "cx_now cx = fst (fkvs_now_ms (cx_env cx))"

definition cx_later :: "ctx \<Rightarrow> int" where
  "cx_later cx = fst (fkvs_now_ms (snd (fkvs_now_ms (cx_env cx))))"

lemma check_and_expire_ok:
  assumes "ctx_ok cx" and "check_and_expire k cx = (late, cx')"
  shows "ctx_ok cx'" and "cx_client cx' = cx_client cx" and "cx_server cx' = cx_server cx"
    and "late = a_late k (cx_now cx) (db_view cx)" and "db_view cx' = a_expire k (cx_now cx) (db_view cx)"
    and "cx_safe cx' = cx_safe cx"
    and "cx_env cx' = (if a_deadlines (db_view cx) k = None then cx_env cx else snd (fkvs_now_ms (cx_env cx)))"
proof -
  note g = get_deadline_abs [OF assms(1)]
  let ?e = "if a_deadlines (db_view cx) k = None then cx_env cx else snd (fkvs_now_ms (cx_env cx))"
  let ?cx1 = "cx\<lparr>cx_env := ?e\<rparr>"
  have ex: "is_expired (cx_expires cx) k (cx_env cx) = (a_late k (cx_now cx) (db_view cx), ?e)"
    by (auto simp: is_expired_def g a_late_def cx_now_def split: option.split prod.split)
  have ok1: "ctx_ok ?cx1" using assms(1) clock_ok_now by (auto simp: ctx_ok_def)
  have abs1: "db_view ?cx1 = db_view cx" by (simp add: db_view_def)
  have safe1: "cx_safe ?cx1 = cx_safe cx"
    using assms(1) clock_ok_now(3) by (auto simp: cx_safe_def ctx_ok_def)
  have r: "late = a_late k (cx_now cx) (db_view cx)"
    "cx' = (if late then table_delete k (expires_delete k ?cx1) else ?cx1)"
    using assms(2) ex by (auto simp: check_and_expire_def Let_def split: if_splits)
  show "late = a_late k (cx_now cx) (db_view cx)" by (fact r(1))
  note d1 = expires_delete_ok [OF ok1, of k] and d2 = table_delete_ok [OF expires_delete_ok(1) [OF ok1], of k k]
  show "ctx_ok cx'" using r d2(1) ok1 by simp
  show "cx_client cx' = cx_client cx" "cx_server cx' = cx_server cx"
    using r d1(2) d2(2) by (auto simp: quiet_def)
  show "db_view cx' = a_expire k (cx_now cx) (db_view cx)"
    using r d1(3) d2(3) abs1 by (simp add: a_expire_def a_remove_def)
  show "cx_safe cx' = cx_safe cx" using r d1(4) d2(4) safe1 by simp
  show "cx_env cx' = ?e" using r by (simp add: table_delete_def expires_delete_def)
qed

section \<open>Replies\<close>

text \<open>One reply to the client and no effect on the database.\<close>

definition responds :: "response \<Rightarrow> ctx \<Rightarrow> ctx \<Rightarrow> bool" where
  "responds r cx cx' \<longleftrightarrow> replies r (cx_client cx) (cx_client cx')
     \<and> cx_table cx' = cx_table cx \<and> cx_expires cx' = cx_expires cx
     \<and> io_only (cx_env cx) (cx_env cx')"

lemma cx_send_responds:
  assumes "ctx_ok cx"
  shows "responds Resp_error cx (cx_send send_error cx)" and "responds Resp_ok cx (cx_send send_ok cx)"
    and "responds (Resp_value d) cx (cx_send (send_reply d) cx)"
    and "responds (Resp_keys d) cx (cx_send (send_keys_reply d) cx)"
    and "responds (Resp_info d) cx (cx_send (send_info_reply d) cx)"
  using assms send_error_delivers send_ok_delivers send_reply_delivers send_keys_delivers send_info_delivers
    io_only_error io_only_ok io_only_replies
  by (fastforce simp: responds_def cx_send_def ctx_ok_def split: prod.split)+

lemma replies_client_inv: "replies r c c' \<Longrightarrow> client_inv c'"
  by (simp add: replies_def delivers_def)

lemma respondsD:
  assumes "ctx_ok cx" and "responds r cx cx'"
  shows "ctx_ok cx'" and "db_view cx' = db_view cx" and "cx_safe cx \<Longrightarrow> cx_safe cx'"
  using assms replies_client_inv
  by (auto simp: responds_def ctx_ok_def db_view_def cx_safe_def clock_ok_def io_only_def)

text \<open>The result of a command: one reply and the state after it.\<close>

definition outcome :: "response \<Rightarrow> astate \<Rightarrow> ctx \<Rightarrow> ctx \<Rightarrow> bool" where
  "outcome r s cx cx' \<longleftrightarrow> ctx_ok cx' \<and> db_view cx' = s \<and> replies r (cx_client cx) (cx_client cx')
     \<and> (cx_safe cx \<longrightarrow> cx_safe cx')"

lemma outcomeI:
  assumes "ctx_ok cx" and "cx_client cx = cx_client cx0" and "responds r cx cx'" and "cx_safe cx0 \<Longrightarrow> cx_safe cx"
    and "db_view cx = s"
  shows "outcome r s cx0 cx'"
  using assms respondsD [OF assms(1,3)] by (auto simp: outcome_def responds_def)

lemma outcome_error: "ctx_ok cx \<Longrightarrow> outcome Resp_error (db_view cx) cx (cx_send send_error cx)"
  by (rule outcomeI [OF _ refl cx_send_responds(1)]) auto

lemma quietD:
  "quiet cx cx' \<Longrightarrow> cx_client cx' = cx_client cx"
  by (simp add: quiet_def)

text \<open>
  The contract of a command: it ends with one reply in a state that keeps the invariant, and
  with the given reply and state when no allocation fails.
\<close>

definition meets :: "response \<times> astate \<Rightarrow> ctx \<Rightarrow> ctx \<Rightarrow> bool" where
  "meets spec cx cx' \<longleftrightarrow> (\<exists>r s. outcome r s cx cx' \<and> (astate_inv (db_view cx) \<longrightarrow> astate_inv s)
     \<and> (cx_safe cx \<longrightarrow> (r, s) = spec))"

lemma meetsI:
  assumes "outcome r s cx cx'" and "astate_inv (db_view cx) \<Longrightarrow> astate_inv s" and "cx_safe cx \<Longrightarrow> (r, s) = spec"
  shows "meets spec cx cx'"
  using assms unfolding meets_def by blast

lemma meets_reply:
  assumes "ctx_ok cx" and "cx_client cx = cx_client cx0" and "responds r cx cx'" and "cx_safe cx0 \<Longrightarrow> cx_safe cx"
    and "astate_inv (db_view cx0) \<Longrightarrow> astate_inv (db_view cx)" and "cx_safe cx0 \<Longrightarrow> (r, db_view cx) = spec"
  shows "meets spec cx0 cx'"
  using outcomeI [OF assms(1-4) refl] assms(5,6) by (rule meetsI)

lemma meets_pre:
  assumes "meets spec cx cx'" and "cx_client cx = cx_client cx0" and "cx_safe cx0 \<Longrightarrow> cx_safe cx"
    and "astate_inv (db_view cx0) \<Longrightarrow> astate_inv (db_view cx)"
  shows "meets spec cx0 cx'"
  using assms unfolding meets_def outcome_def by auto

lemma meets_error: "ctx_ok cx \<Longrightarrow> meets (Resp_error, db_view cx) cx (cx_send send_error cx)"
  by (rule meets_reply [OF _ refl cx_send_responds(1)]) auto

section \<open>Values and their encodings\<close>

lemma full_range: "limits_ok INT64_MIN INT64_MAX"
  by (simp add: limits_ok_def)

lemma value_encoding_cases: "value_encoding d = 1 \<or> value_encoding d = 2"
  by (simp add: value_encoding_def split: option.split)

lemma uint_value_encoding [simp]: "uint (of_int (value_encoding d) :: 4 word) = value_encoding d"
  using value_encoding_cases [of d] by auto

lemma encoding_int_iff:
  "(of_int (value_encoding d) :: 4 word) = of_int VALUE_ENTRY_TYPE_INT \<longleftrightarrow>
   fkvs_parse_i64_decimal d INT64_MIN INT64_MAX \<noteq> None"
  by (simp add: value_encoding_def split: option.split)

lemma value_encoding_dec_int:
  "INT64_MIN \<le> i \<Longrightarrow> i \<le> INT64_MAX \<Longrightarrow> value_encoding (dec_int i) = VALUE_ENTRY_TYPE_INT"
  by (simp add: value_encoding_def parse_dec_int [OF full_range])

lemma zero_text: "dec_int 0 = [48]"
  by (simp add: dec_int_def dec_nat.simps)

section \<open>Counters\<close>

text \<open>The abstract counter command: a missing key counts as 0 and is created even when the
  change is then refused.\<close>

definition spec_counter :: "bytes \<Rightarrow> (int \<Rightarrow> int option) \<Rightarrow> int \<Rightarrow> astate \<Rightarrow> response \<times> astate" where
  "spec_counter k change now s =
     (let s = a_expire k now s;
          text = (case a_store s k of None \<Rightarrow> [48] | Some d \<Rightarrow> d);
          s = s\<lparr>a_store := (a_store s)(k \<mapsto> text)\<rparr>
      in case parse_spec text INT64_MIN INT64_MAX of
           None \<Rightarrow> (Resp_error, s)
         | Some n \<Rightarrow>
             (case change n of
                None \<Rightarrow> (Resp_error, s)
              | Some n' \<Rightarrow> (Resp_value (dec_int n'), s\<lparr>a_store := (a_store s)(k \<mapsto> dec_int n')\<rparr>)))"

definition in_i64 :: "int \<Rightarrow> bool" where
  "in_i64 i \<longleftrightarrow> INT64_MIN \<le> i \<and> i \<le> INT64_MAX"

definition change_ok :: "(int \<Rightarrow> int option) \<Rightarrow> bool" where
  "change_ok f \<longleftrightarrow> (\<forall>n m. in_i64 n \<longrightarrow> f n = Some m \<longrightarrow> in_i64 m)"

lemma change_ok_counters: "change_ok incr_one" "change_ok decr_one" "change_ok (incr_by t)" "change_ok (decr_by t)"
  using parse_i64_range [of t INT64_MIN INT64_MAX]
  by (auto simp: change_ok_def in_i64_def incr_one_def decr_one_def incr_by_def decr_by_def
      split: if_splits option.splits)

lemma astate_inv_store: "astate_inv s \<Longrightarrow> astate_inv (s\<lparr>a_store := (a_store s)(k \<mapsto> d)\<rparr>)"
  by (auto simp: astate_inv_def)

lemma store_counter_meets:
  assumes "ctx_ok cx" and "in_i64 n"
  shows "meets (Resp_value (dec_int n), (db_view cx)\<lparr>a_store := (a_store (db_view cx))(k \<mapsto> dec_int n)\<rparr>)
    cx (store_counter k n cx)"
proof -
  have n: "INT64_MIN \<le> n" "n \<le> INT64_MAX" using assms(2) by (simp_all add: in_i64_def)
  note p = int64_to_string_eq [OF n, of "env_allocs (cx_env cx)"]
  let ?cx1 = "cx_set_allocs (snd (alloc (env_allocs (cx_env cx)))) cx"
  have c1: "ctx_ok ?cx1" "cx_client ?cx1 = cx_client cx" "db_view ?cx1 = db_view cx" "cx_safe cx \<Longrightarrow> cx_safe ?cx1"
    using assms(1) alloc_safeD [of "env_allocs (cx_env cx)"]
    by (auto simp: cx_set_allocs_def ctx_ok_def db_view_def cx_safe_def)
  show ?thesis
  proof (cases "fst (alloc (env_allocs (cx_env cx)))")
    case False
    then have "store_counter k n cx = cx_send send_error ?cx1" "\<not> cx_safe cx"
      using alloc_safeD by (auto simp: store_counter_def cx_int64_to_string_def p cx_safe_def)
    then show ?thesis
      using meets_reply [OF c1(1,2) cx_send_responds(1) [OF c1(1)] c1(4)] c1(3) by simp
  next
    case True
    obtain ok cx2 where t: "table_set k (dec_int n) VALUE_ENTRY_TYPE_INT ?cx1 = (ok, cx2)" by (meson surj_pair)
    have "length (dec_int n) \<le> 65530" using length_dec_int [OF n] by simp
    note t2 = table_set_ok [OF c1(1) t [folded value_encoding_dec_int [OF n]] this]
    have cl: "cx_client cx2 = cx_client cx" using quietD [OF t2(2)] c1(2) by simp
    have r: "store_counter k n cx = (if ok then cx_send (send_reply (dec_int n)) cx2 else cx_send send_error cx2)"
      using True t by (simp add: store_counter_def cx_int64_to_string_def p)
    have inv: "astate_inv (db_view cx) \<Longrightarrow> astate_inv (db_view cx2)"
      using t2(4) c1(3) astate_inv_store by simp
    have sf: "cx_safe cx \<Longrightarrow> ok \<and> cx_safe cx2" using c1(4) t2(3) by blast
    show ?thesis
    proof (cases ok)
      case True
      show ?thesis unfolding r using True t2(4) c1(3) sf inv
        by (auto intro!: meets_reply [OF t2(1) cl cx_send_responds(3) [OF t2(1)]])
    next
      case False
      show ?thesis unfolding r using False sf inv
        by (auto intro!: meets_reply [OF t2(1) cl cx_send_responds(1) [OF t2(1)]])
    qed
  qed
qed

lemma parse_spec_range: "parse_spec s lo hi = Some v \<Longrightarrow> lo \<le> v \<and> v \<le> hi"
  by (auto simp: parse_spec_def bounded_def split: if_splits option.splits)

lemma fetch_or_zero_ok:
  assumes "ctx_ok cx" and "fetch_or_zero k cx = (v, cx')"
  defines "cur \<equiv> (case a_store (db_view cx) k of None \<Rightarrow> [48] | Some d \<Rightarrow> d)"
  shows "ctx_ok cx'" and "cx_client cx' = cx_client cx" and "cx_safe cx \<Longrightarrow> cx_safe cx' \<and> v \<noteq> None"
    and "v \<noteq> None \<Longrightarrow> v = Some (entry_for cur (value_encoding cur))
      \<and> db_view cx' = (db_view cx)\<lparr>a_store := (a_store (db_view cx))(k \<mapsto> cur)\<rparr>"
    and "v = None \<Longrightarrow> db_view cx' = db_view cx"
proof -
  have "ctx_ok cx' \<and> cx_client cx' = cx_client cx \<and> (cx_safe cx \<longrightarrow> cx_safe cx' \<and> v \<noteq> None) \<and>
    (v \<noteq> None \<longrightarrow> v = Some (entry_for cur (value_encoding cur))
      \<and> db_view cx' = (db_view cx)\<lparr>a_store := (a_store (db_view cx))(k \<mapsto> cur)\<rparr>) \<and>
    (v = None \<longrightarrow> db_view cx' = db_view cx)"
  proof (cases "lookup_value (cx_table cx) k")
    case (Some u)
    then have "v = Some u" "cx' = cx" using assms(2) by (auto simp: fetch_or_zero_def)
    moreover have st: "a_store (db_view cx) k = Some (ve_data u)" using lookup_store [OF assms(1)] Some by simp
    moreover have "u = entry_for (ve_data u) (value_encoding (ve_data u))" by (rule lookup_entry(1) [OF assms(1) Some])
    moreover have "(db_view cx)\<lparr>a_store := (a_store (db_view cx))(k \<mapsto> ve_data u)\<rparr> = db_view cx"
      using st by (simp add: fun_upd_idem)
    ultimately show ?thesis using assms(1) by (simp add: cur_def)
  next
    case None
    have z: "value_encoding [48] = 1" using value_encoding_dec_int [of 0] by (simp add: zero_text)
    obtain ok cx1 where t: "table_set k [48] VALUE_ENTRY_TYPE_INT cx = (ok, cx1)" by (meson surj_pair)
    have "table_set k [48] (value_encoding [48]) cx = (ok, cx1)" using t z by simp
    note r = table_set_ok [OF assms(1) this]
    have st: "a_store (db_view cx) k = None" using lookup_store [OF assms(1)] None by simp
    have res: "(v, cx') = (if \<not> ok then (None, cx1) else (lookup_value (cx_table cx1) k, cx1))"
      using assms(2) None t by (simp add: fetch_or_zero_def)
    have "lookup_value (cx_table cx1) k = Some (entry_for [48] (value_encoding [48]))" if ok
    proof -
      have "a_store (db_view cx1) k = Some [48]" using r that by simp
      then obtain u where u: "lookup_value (cx_table cx1) k = Some u" "ve_data u = [48]"
        using lookup_store [of cx1 k] r(1) by auto
      then show ?thesis using lookup_entry(1) [OF _ u(1)] r(1) by simp
    qed
    then show ?thesis using res r st quietD by (auto simp: cur_def split: if_splits)
  qed
  then show "ctx_ok cx'" "cx_client cx' = cx_client cx" "cx_safe cx \<Longrightarrow> cx_safe cx' \<and> v \<noteq> None"
    "v \<noteq> None \<Longrightarrow> v = Some (entry_for cur (value_encoding cur))
      \<and> db_view cx' = (db_view cx)\<lparr>a_store := (a_store (db_view cx))(k \<mapsto> cur)\<rparr>"
    "v = None \<Longrightarrow> db_view cx' = db_view cx" by blast+
qed

lemma change_counter_meets:
  assumes "ctx_ok cx" and "change_ok change"
  shows "meets (spec_counter k change (cx_now cx) (db_view cx)) cx (change_counter k change cx)"
proof -
  obtain late cx1 where ce: "check_and_expire k cx = (late, cx1)" by (meson surj_pair)
  note c1 = check_and_expire_ok [OF assms(1) ce]
  obtain v cx2 where fz: "fetch_or_zero k cx1 = (v, cx2)" by (meson surj_pair)
  note c2 = fetch_or_zero_ok [OF c1(1) fz]
  define cur where "cur = (case a_store (db_view cx1) k of None \<Rightarrow> [48] | Some d \<Rightarrow> d)"
  let ?s = "(db_view cx1)\<lparr>a_store := (a_store (db_view cx1))(k \<mapsto> cur)\<rparr>"
  have cl: "cx_client cx2 = cx_client cx" using c1(2) c2(2) by simp
  have inv: "astate_inv (db_view cx) \<Longrightarrow> astate_inv (db_view cx2)"
    using c1(5) c2(4,5) astate_inv_expire astate_inv_store by (cases "v = None") auto
  have sf: "cx_safe cx \<Longrightarrow> cx_safe cx2 \<and> v \<noteq> None" using c1(6) c2(3) by blast
  have spec: "spec_counter k change (cx_now cx) (db_view cx) =
     (case parse_spec cur INT64_MIN INT64_MAX of None \<Rightarrow> (Resp_error, ?s)
      | Some n \<Rightarrow> (case change n of None \<Rightarrow> (Resp_error, ?s)
         | Some m \<Rightarrow> (Resp_value (dec_int m), ?s\<lparr>a_store := (a_store ?s)(k \<mapsto> dec_int m)\<rparr>)))"
    unfolding spec_counter_def Let_def c1(5) [symmetric] cur_def by simp
  note err = meets_reply [OF c2(1) cl cx_send_responds(1) [OF c2(1)]]
  show ?thesis
  proof (cases "v = None")
    case True
    then have "change_counter k change cx = cx_send send_error cx2"
      using ce fz by (simp add: change_counter_def)
    then show ?thesis using True sf inv by (auto intro!: err)
  next
    case False
    then have v: "v = Some (entry_for cur (value_encoding cur))" and s2: "db_view cx2 = ?s"
      using c2(4) by (simp_all add: cur_def)
    have res: "change_counter k change cx =
        (case parse_spec cur INT64_MIN INT64_MAX of None \<Rightarrow> cx_send send_error cx2
         | Some n \<Rightarrow> (case change n of None \<Rightarrow> cx_send send_error cx2 | Some m \<Rightarrow> store_counter k m cx2))"
      using ce fz v encoding_int_iff [of cur]
      by (auto simp: change_counter_def fkvs_parse_i64_decimal_spec [OF full_range] split: option.split)
    show ?thesis
    proof (cases "\<exists>n m. parse_spec cur INT64_MIN INT64_MAX = Some n \<and> change n = Some m")
      case True
      then obtain n m where nm: "parse_spec cur INT64_MIN INT64_MAX = Some n" "change n = Some m" by blast
      have "in_i64 n" using parse_spec_range [OF nm(1)] by (simp add: in_i64_def)
      then have "in_i64 m" using assms(2) nm(2) by (auto simp: change_ok_def)
      from store_counter_meets [OF c2(1) this, of k]
      have "meets (Resp_value (dec_int m), ?s\<lparr>a_store := (a_store ?s)(k \<mapsto> dec_int m)\<rparr>) cx2
          (store_counter k m cx2)" unfolding s2 .
      then have "meets (spec_counter k change (cx_now cx) (db_view cx)) cx2 (change_counter k change cx)"
        unfolding spec res nm(1) option.case nm(2) .
      then show ?thesis using cl sf inv by (blast intro: meets_pre)
    next
      case False
      then have "change_counter k change cx = cx_send send_error cx2"
        "spec_counter k change (cx_now cx) (db_view cx) = (Resp_error, db_view cx2)"
        unfolding spec res s2 by (auto split: option.split)
      then show ?thesis using sf inv by (auto intro!: err)
    qed
  qed
qed

section \<open>SET\<close>

definition spec_set :: "bytes \<Rightarrow> bytes \<Rightarrow> int option \<Rightarrow> astate \<Rightarrow> astate" where
  "spec_set k d deadline s =
     \<lparr>a_store = (a_store s)(k \<mapsto> d), a_deadlines = (a_deadlines s)(k := deadline)\<rparr>"

text \<open>Overwriting a value by one of the same length needs no memory.\<close>

lemma set_value_in_place:
  assumes "ht_inv h" and "ht_map h k = Some v" and "ve_value_len v = length d"
  shows "fst (set_value h k d enc a)"
proof -
  define h1 where "h1 = (if is_rehashing h then rehash_step h else h)"
  note pre = set_value_prelude [OF assms(1), folded h1_def]
  have "find_entry h1 k (djb2 k) \<noteq> None"
    using find_entry_None [OF pre(1)] ht_map_None [of h1 k] pre(2) assms(2) by auto
  then obtain q where q: "find_entry h1 k (djb2 k) = Some q" by blast
  then have "he_value (deref h1 q) = v"
    using ht_map_points_to [OF pre(1) find_entry_Some [OF pre(1) q]] pre(2) assms(2) by simp
  then show ?thesis
    using q ht_invD(5) [OF assms(1)] assms(3) by (simp add: set_value_def h1_def Let_def)
qed

lemma expires_entry:
  assumes "ctx_ok cx" and "ht_map (cx_expires cx) k = Some v"
  shows "\<exists>d. INT64_MIN \<le> d \<and> d \<le> INT64_MAX \<and> v = entry_for (deadline_bytes d) VALUE_ENTRY_TYPE_INT"
  using assms unfolding ctx_ok_def expires_inv_def by blast

lemma expires_put_fails:
  assumes "ctx_ok cx" and "expires_put k d cx = (False, cx')"
  shows "ht_map (cx_expires cx) k = None"
proof (rule ccontr)
  assume "ht_map (cx_expires cx) k \<noteq> None"
  then obtain v where v: "ht_map (cx_expires cx) k = Some v" by blast
  have i: "ht_inv (cx_expires cx)" using assms(1) by (simp add: ctx_ok_def expires_inv_def)
  have "ve_value_len v = length (deadline_bytes d)"
    using expires_entry [OF assms(1) v] by auto
  from set_value_in_place [OF i v this, of VALUE_ENTRY_TYPE_INT "env_allocs (cx_env cx)"] show False
    using assms(2) by (auto simp: expires_put_def set_expiry_def split: prod.splits)
qed

lemma snapshot_ok:
  assumes "ctx_ok cx"
  shows "ctx_ok (snd (table_snapshot k cx))" "cx_client (snd (table_snapshot k cx)) = cx_client cx"
    "cx_table (snd (table_snapshot k cx)) = cx_table cx" "cx_expires (snd (table_snapshot k cx)) = cx_expires cx"
    "cx_safe cx \<Longrightarrow> cx_safe (snd (table_snapshot k cx))"
    "ctx_ok (snd (expires_snapshot k cx))" "cx_client (snd (expires_snapshot k cx)) = cx_client cx"
    "cx_table (snd (expires_snapshot k cx)) = cx_table cx" "cx_expires (snd (expires_snapshot k cx)) = cx_expires cx"
    "cx_safe cx \<Longrightarrow> cx_safe (snd (expires_snapshot k cx))"
    "fst (table_snapshot k cx) = Some v \<Longrightarrow> ht_map (cx_table cx) k = Some v"
    "fst (expires_snapshot k cx) = Some v \<Longrightarrow> ht_map (cx_expires cx) k = Some v"
proof -
  have i: "ht_inv (cx_table cx)" "ht_inv (cx_expires cx)"
    using assms by (simp_all add: ctx_ok_def expires_inv_def store_inv_def)
  note g = get_value_map [OF i(1), where k = k and a = "env_allocs (cx_env cx)"]
    get_value_map [OF i(2), where k = k and a = "env_allocs (cx_env cx)"]
  show "ctx_ok (snd (table_snapshot k cx))" "cx_client (snd (table_snapshot k cx)) = cx_client cx"
    "cx_table (snd (table_snapshot k cx)) = cx_table cx" "cx_expires (snd (table_snapshot k cx)) = cx_expires cx"
    "cx_safe cx \<Longrightarrow> cx_safe (snd (table_snapshot k cx))"
    "ctx_ok (snd (expires_snapshot k cx))" "cx_client (snd (expires_snapshot k cx)) = cx_client cx"
    "cx_table (snd (expires_snapshot k cx)) = cx_table cx" "cx_expires (snd (expires_snapshot k cx)) = cx_expires cx"
    "cx_safe cx \<Longrightarrow> cx_safe (snd (expires_snapshot k cx))"
    "fst (table_snapshot k cx) = Some v \<Longrightarrow> ht_map (cx_table cx) k = Some v"
    "fst (expires_snapshot k cx) = Some v \<Longrightarrow> ht_map (cx_expires cx) k = Some v"
    using assms g
    by (auto simp: table_snapshot_def expires_snapshot_def cx_set_allocs_def ctx_ok_def cx_safe_def
        split: prod.splits if_splits)
qed

text \<open>The undo of a failed deadline touches only the key, and leaves it without deadline.\<close>

lemma rollback_set_ok:
  assumes "ctx_ok cx" and "ht_map (cx_expires cx) k = None"
    and "\<And>v. old = Some v \<Longrightarrow> v = entry_for (ve_data v) (value_encoding (ve_data v)) \<and> length (ve_data v) \<le> 65530"
  shows "ctx_ok (rollback_set k old None cx)" and "cx_client (rollback_set k old None cx) = cx_client cx"
    and "a_deadlines (db_view (rollback_set k old None cx)) = a_deadlines (db_view cx)"
    and "\<exists>x. a_store (db_view (rollback_set k old None cx)) = (a_store (db_view cx))(k := x)
        \<and> (old = None \<longrightarrow> x = None)
        \<and> (\<forall>v. old = Some v \<longrightarrow> x = Some (ve_data v) \<or> x = a_store (db_view cx) k \<and> \<not> cx_safe cx)"
    and "cx_safe cx \<Longrightarrow> cx_safe (rollback_set k old None cx)"
proof -
  define cx1 where "cx1 = (case old of Some v \<Rightarrow> snd (table_set k (ve_data v) (uint (ve_encoding v)) cx)
                | None \<Rightarrow> table_delete k cx)"
  have dk: "a_deadlines (db_view cx) k = None" using assms(2) by (simp add: db_view_def deadlines_def)
  have r: "ctx_ok cx1 \<and> cx_client cx1 = cx_client cx \<and> a_deadlines (db_view cx1) = a_deadlines (db_view cx)
      \<and> (cx_safe cx \<longrightarrow> cx_safe cx1)
      \<and> (\<exists>x. a_store (db_view cx1) = (a_store (db_view cx))(k := x) \<and> (old = None \<longrightarrow> x = None)
         \<and> (\<forall>v. old = Some v \<longrightarrow> x = Some (ve_data v) \<or> x = a_store (db_view cx) k \<and> \<not> cx_safe cx))"
  proof (cases old)
    case None
    then show ?thesis using table_delete_ok [OF assms(1), of k] quietD by (auto simp: cx1_def)
  next
    case (Some v)
    then have v: "v = entry_for (ve_data v) (value_encoding (ve_data v))" "length (ve_data v) \<le> 65530"
      using assms(3) by auto
    have e: "uint (ve_encoding v) = value_encoding (ve_data v)"
      by (subst v(1)) simp
    obtain ok cx2 where t: "table_set k (ve_data v) (value_encoding (ve_data v)) cx = (ok, cx2)" by (meson surj_pair)
    have "cx1 = cx2" using Some t e by (simp add: cx1_def)
    moreover note tt = table_set_ok [OF assms(1) t v(2)]
    ultimately show ?thesis
      using Some quietD [OF tt(2)]
      by (cases ok) (auto intro: exI [of _ "a_store (db_view cx) k"] simp: fun_upd_idem)
  qed
  have res: "rollback_set k old None cx = expires_delete k cx1"
    by (simp add: rollback_set_def cx1_def)
  note d = expires_delete_ok [of cx1 k]
  have dn: "(a_deadlines (db_view cx1))(k := None) = a_deadlines (db_view cx1)" using r dk by (simp add: fun_upd_idem)
  show "ctx_ok (rollback_set k old None cx)" "cx_client (rollback_set k old None cx) = cx_client cx"
    "a_deadlines (db_view (rollback_set k old None cx)) = a_deadlines (db_view cx)"
    "cx_safe cx \<Longrightarrow> cx_safe (rollback_set k old None cx)"
    using r d dn quietD by (auto simp: res)
  show "\<exists>x. a_store (db_view (rollback_set k old None cx)) = (a_store (db_view cx))(k := x)
        \<and> (old = None \<longrightarrow> x = None)
        \<and> (\<forall>v. old = Some v \<longrightarrow> x = Some (ve_data v) \<or> x = a_store (db_view cx) k \<and> \<not> cx_safe cx)"
    using r d(3) by (auto simp: res)
qed


lemma store_set_meets:
  assumes "ctx_ok cx" and "length d \<le> 65530" and "\<And>dl. deadline = Some dl \<Longrightarrow> in_i64 dl"
  shows "meets (Resp_value d, spec_set k d deadline (db_view cx)) cx (store_set k d deadline cx)"
proof -
  define p1 where "p1 = (if deadline \<noteq> None then table_snapshot k cx else (None, cx))"
  define cx1 where "cx1 = snd p1"
  define p2 where "p2 = (if deadline \<noteq> None then expires_snapshot k cx1 else (None, cx1))"
  define cx2 where "cx2 = snd p2"
  have c1: "ctx_ok cx1" "cx_client cx1 = cx_client cx" "cx_table cx1 = cx_table cx" "cx_expires cx1 = cx_expires cx"
    "cx_safe cx \<Longrightarrow> cx_safe cx1"
    using assms(1) snapshot_ok [OF assms(1), of k] by (auto simp: cx1_def p1_def)
  have c2: "ctx_ok cx2" "cx_client cx2 = cx_client cx" "cx_table cx2 = cx_table cx" "cx_expires cx2 = cx_expires cx"
    "cx_safe cx \<Longrightarrow> cx_safe cx2"
    using c1 snapshot_ok [OF c1(1), of k] by (auto simp: cx2_def p2_def)
  have v2: "db_view cx2 = db_view cx" using c2 by (simp add: db_view_def)
  obtain stored cx3 where t: "table_set k d (value_encoding d) cx2 = (stored, cx3)" by (meson surj_pair)
  note c3 = table_set_ok [OF c2(1) t assms(2)]
  have cl3: "cx_client cx3 = cx_client cx" using quietD [OF c3(2)] c2(2) by simp
  have sf3: "cx_safe cx \<Longrightarrow> stored \<and> cx_safe cx3" using c2(5) c3(3) by blast
  have ex3: "cx_expires cx3 = cx_expires cx" using c3(5) c2(4) by simp
  have st: "store_set k d deadline cx = (if \<not> stored then cx_send send_error cx3
      else case deadline of
          Some dl \<Rightarrow> (case expires_put k dl cx3 of (ok, cx4) \<Rightarrow>
            if \<not> ok then rollback_set k (fst p1) (fst p2) (cx_send send_error cx4) else cx_send (send_reply d) cx4)
        | None \<Rightarrow> cx_send (send_reply d) (expires_remove k cx3))"
  proof -
    have e1: "p1 = (fst p1, cx1)" and e2: "p2 = (fst p2, cx2)" by (simp_all add: cx1_def cx2_def)
    show ?thesis
      unfolding store_set_def value_encoding_def [symmetric] Let_def p1_def [symmetric]
      by (subst e1, unfold prod.case p2_def [symmetric], subst e2, unfold prod.case t) (rule refl)
  qed
  show ?thesis
  proof (cases stored)
    case False
    then show ?thesis unfolding st using sf3 c3(4) v2
      by (auto intro!: meets_reply [OF c3(1) cl3 cx_send_responds(1) [OF c3(1)]])
  next
    case True
    then have v3: "db_view cx3 = (db_view cx)\<lparr>a_store := (a_store (db_view cx))(k \<mapsto> d)\<rparr>" using c3(4) v2 by simp
    show ?thesis
    proof (cases deadline)
      case None
      note e = expires_delete_ok [OF c3(1), of k]
      have "meets (Resp_value d, spec_set k d None (db_view cx)) cx (cx_send (send_reply d) (expires_delete k cx3))"
        by (rule meets_reply [OF e(1) _ cx_send_responds(3) [OF e(1)]])
          (use quietD [OF e(2)] cl3 e(3,4) sf3 v3 in \<open>auto simp: spec_set_def astate_inv_def\<close>)
      then show ?thesis unfolding st using True None e(5) by simp
    next
      case (Some dl)
      obtain ok cx4 where p: "expires_put k dl cx3 = (ok, cx4)" by (meson surj_pair)
      have dl: "INT64_MIN \<le> dl" "dl \<le> INT64_MAX" using assms(3) [OF Some] by (simp_all add: in_i64_def)
      note c4 = expires_put_ok [OF c3(1) p dl]
      have cl4: "cx_client cx4 = cx_client cx" using quietD [OF c4(2)] cl3 by simp
      have sf4: "cx_safe cx \<Longrightarrow> ok \<and> cx_safe cx4" using sf3 c4(3) by blast
      show ?thesis
      proof (cases ok)
        case okT: True
        have "meets (Resp_value d, spec_set k d (Some dl) (db_view cx)) cx (cx_send (send_reply d) cx4)"
          by (rule meets_reply [OF c4(1) cl4 cx_send_responds(3) [OF c4(1)]])
            (use sf4 c4(4) v3 okT in \<open>auto simp: spec_set_def astate_inv_def\<close>)
        then show ?thesis unfolding st using True Some p okT by simp
      next
        case okF: False
        have none: "ht_map (cx_expires cx3) k = None" using expires_put_fails [OF c3(1)] p okF by simp
        then have oe: "fst p2 = None"
          using snapshot_ok(12) [OF c1(1), of k] ex3 c1(4) by (cases "fst p2") (auto simp: p2_def split: if_splits)
        define cx5 where "cx5 = cx_send send_error cx4"
        have r5: "responds Resp_error cx4 cx5" unfolding cx5_def by (rule cx_send_responds(1) [OF c4(1)])
        note c5 = respondsD [OF c4(1) r5]
        have ex5: "ht_map (cx_expires cx5) k = None"
        proof -
          have "db_view cx5 = db_view cx3" using c5(2) c4(4) okF by simp
          moreover have "a_deadlines (db_view cx3) k = None" using none by (simp add: db_view_def deadlines_def)
          ultimately have "deadlines (cx_expires cx5) k = None" by (simp add: db_view_def)
          then show ?thesis using expires_entry [OF c5(1), of k]
            by (cases "ht_map (cx_expires cx5) k") (auto simp: deadlines_def split: if_splits)
        qed
        have old: "v = entry_for (ve_data v) (value_encoding (ve_data v)) \<and> length (ve_data v) \<le> 65530"
          if "fst p1 = Some v" for v
          using snapshot_ok(11) [OF assms(1), of k v] that assms(1)
          by (auto simp: p1_def ctx_ok_def store_inv_def split: if_splits)
        note rb = rollback_set_ok [OF c5(1) ex5 old]
        let ?cx6 = "rollback_set k (fst p1) None cx5"
        obtain x where x: "a_store (db_view ?cx6) = (a_store (db_view cx5))(k := x)" using rb(4) by blast
        have v5: "db_view cx5 = db_view cx3" using c5(2) c4(4) okF by simp
        have dk: "a_deadlines (db_view cx) k = None"
          using none ex3 by (simp add: db_view_def deadlines_def)
        have "outcome Resp_error (db_view ?cx6) cx ?cx6"
          using rb(1,2) r5 cl4 sf4 okF by (auto simp: outcome_def responds_def)
        moreover have "astate_inv (db_view ?cx6)" if "astate_inv (db_view cx)"
          using that rb(3) x v5 v3 dk by (auto simp: astate_inv_def)
        moreover have "store_set k d deadline cx = ?cx6"
          unfolding st using True Some p okF oe by (simp add: cx5_def)
        ultimately show ?thesis using sf4 okF by (intro meetsI) auto
      qed
    qed
  qed
qed

section \<open>Lookups\<close>

definition spec_get :: "bytes \<Rightarrow> int \<Rightarrow> astate \<Rightarrow> response \<times> astate" where
  "spec_get k now s =
     (let s = a_expire k now s
      in (case a_store s k of None \<Rightarrow> Resp_error | Some d \<Rightarrow> Resp_value d, s))"

lemma serve_get_meets:
  assumes "ctx_ok cx"
  shows "meets (spec_get k (cx_now cx) (db_view cx)) cx (serve_get k cx)"
proof -
  obtain late cx1 where ce: "check_and_expire k cx = (late, cx1)" by (meson surj_pair)
  note c1 = check_and_expire_ok [OF assms ce]
  note inv = astate_inv_expire [of "db_view cx" k "cx_now cx"]
  note look = lookup_store [OF c1(1), of k]
  show ?thesis
  proof (cases "late \<or> lookup_value (cx_table cx1) k = None")
    case True
    then have "a_store (db_view cx1) k = None" using c1(4,5) look by (auto simp: a_expire_def a_remove_def)
    moreover have "serve_get k cx = cx_send send_error cx1"
      using True ce by (auto simp: serve_get_def reply_lookup_def)
    ultimately show ?thesis using c1 inv
      by (auto intro!: meets_reply [OF c1(1,2) cx_send_responds(1) [OF c1(1)]] simp: spec_get_def Let_def)
  next
    case False
    then obtain v where v: "lookup_value (cx_table cx1) k = Some v" by auto
    then have "serve_get k cx = cx_send (send_reply (ve_data v)) cx1"
      using False ce by (auto simp: serve_get_def reply_lookup_def)
    then show ?thesis using c1 inv v look
      by (auto intro!: meets_reply [OF c1(1,2) cx_send_responds(3) [OF c1(1)]] simp: spec_get_def Let_def)
  qed
qed

definition ttl_of :: "bytes \<Rightarrow> int \<Rightarrow> astate \<Rightarrow> int" where
  "ttl_of k now s =
     (case a_store s k of None \<Rightarrow> -2
      | Some _ \<Rightarrow> (case a_deadlines s k of None \<Rightarrow> -1
                  | Some d \<Rightarrow> if d \<le> now then 0 else (d - now) div 1000))"

definition spec_ttl :: "bytes \<Rightarrow> int \<Rightarrow> int \<Rightarrow> astate \<Rightarrow> response \<times> astate" where
  "spec_ttl k now later s =
     (let s = a_expire k now s in (Resp_value (dec_int (ttl_of k later s)), s))"

lemma deadline_range:
  assumes "ctx_ok cx" and "a_deadlines (db_view cx) k = Some d"
  shows "in_i64 d"
proof -
  obtain v where v: "ht_map (cx_expires cx) k = Some v" "deadline_of (ve_ptr v) = d"
    using assms(2) by (auto simp: db_view_def deadlines_def split: option.splits if_splits)
  then obtain d' where "INT64_MIN \<le> d'" "d' \<le> INT64_MAX" "v = entry_for (deadline_bytes d') VALUE_ENTRY_TYPE_INT"
    using expires_entry [OF assms(1) v(1)] by blast
  then show ?thesis using v(2) deadline_of_bytes [of d' "[0]"] by (simp add: in_i64_def entry_for_def)
qed

lemma ttl_range:
  assumes "ctx_ok cx" and "reading_ok now"
  shows "in_i64 (ttl_of k now (db_view cx))"
proof -
  have "in_i64 ((d - now) div 1000)" if "in_i64 d" "\<not> d \<le> now" for d
  proof -
    have "0 \<le> (d - now) div 1000" using that(2) by (simp add: pos_imp_zdiv_nonneg_iff)
    moreover have "(d - now) div 1000 \<le> d - now" using that(2) int_div_less_self [of "d - now" 1000] by simp
    ultimately show ?thesis using that(1) assms(2) by (simp add: in_i64_def reading_ok_def)
  qed
  then show ?thesis using deadline_range [OF assms(1), of k]
    by (auto simp: ttl_of_def in_i64_def split: option.splits)
qed

lemma reply_ttl_meets:
  assumes "ctx_ok cx"
  shows "meets (spec_ttl k (cx_now cx) (cx_later cx) (db_view cx)) cx (reply_ttl k cx)"
proof -
  obtain late cx1 where ce: "check_and_expire k cx = (late, cx1)" by (meson surj_pair)
  note c1 = check_and_expire_ok [OF assms ce]
  note inv = astate_inv_expire [of "db_view cx" k "cx_now cx"]
  define p where "p = (if lookup_value (cx_table cx1) k = None then (-2, cx1)
             else let (ttl, e) = get_ttl (cx_expires cx1) k (cx_env cx1)
                  in (if ttl = -2 then -1 else ttl, cx1\<lparr>cx_env := e\<rparr>))"
  have r: "reply_ttl k cx = cx_send (send_reply (snprintf_text 32 (dec_int (fst p)))) (snd p)"
    using ce by (simp add: reply_ttl_def p_def split_beta)
  have ck: "clock_ok (cx_env cx1)" using c1(1) by (simp add: ctx_ok_def)
  have later: "a_deadlines (db_view cx1) k \<noteq> None \<Longrightarrow> fst (fkvs_now_ms (cx_env cx1)) = cx_later cx"
    using c1(5,7) by (auto simp: a_expire_def a_remove_def cx_later_def split: if_splits)
  have p1: "fst p = ttl_of k (cx_later cx) (db_view cx1)"
  proof (cases "a_deadlines (db_view cx1) k")
    case None
    then show ?thesis using lookup_store [OF c1(1), of k] get_deadline_abs [OF c1(1), of k]
      by (auto simp: p_def ttl_of_def get_ttl_def split: option.splits)
  next
    case (Some d)
    then show ?thesis using lookup_store [OF c1(1), of k] get_deadline_abs [OF c1(1), of k] later
      by (auto simp: p_def ttl_of_def get_ttl_def Let_def split: option.splits prod.splits)
  qed
  have p2: "ctx_ok (snd p)" "cx_client (snd p) = cx_client cx" "db_view (snd p) = db_view cx1"
    "cx_safe cx \<Longrightarrow> cx_safe (snd p)"
    using c1(1,2,6) clock_ok_now [OF ck]
    by (auto simp: p_def get_ttl_def ctx_ok_def db_view_def cx_safe_def Let_def split: option.splits prod.splits)
  have rl: "reading_ok (cx_later cx)"
    using assms clock_ok_now(1) clock_ok_now(2) by (auto simp: cx_later_def ctx_ok_def)
  have "snprintf_text 32 (dec_int (fst p)) = dec_int (fst p)"
    using length_dec_int ttl_range [OF c1(1) rl, of k] p1 by (intro snprintf_fits) (fastforce simp: in_i64_def)
  then show ?thesis unfolding r
    by (intro meets_reply [OF p2(1,2) cx_send_responds(3) [OF p2(1)]])
      (use p1 p2 c1(5) inv in \<open>auto simp: spec_ttl_def Let_def\<close>)
qed

section \<open>KEYS keeps the contract\<close>

definition answers :: "ctx \<Rightarrow> ctx \<Rightarrow> bool" where
  "answers cx cx' \<longleftrightarrow> (\<exists>spec. meets spec cx cx')"

lemma answersI: "meets spec cx cx' \<Longrightarrow> answers cx cx'"
  unfolding answers_def by (rule exI)

text \<open>Steps that answer nothing and remove expired keys only.\<close>

definition settles :: "ctx \<Rightarrow> ctx \<Rightarrow> bool" where
  "settles cx cx' \<longleftrightarrow> ctx_ok cx' \<and> cx_client cx' = cx_client cx \<and> (cx_safe cx \<longrightarrow> cx_safe cx')
     \<and> (astate_inv (db_view cx) \<longrightarrow> astate_inv (db_view cx'))"

lemma settles_refl: "ctx_ok cx \<Longrightarrow> settles cx cx"
  by (simp add: settles_def)

lemma settles_trans: "settles a b \<Longrightarrow> settles b c \<Longrightarrow> settles a c"
  by (auto simp: settles_def)

lemma settles_expire: "ctx_ok cx \<Longrightarrow> check_and_expire k cx = (late, cx') \<Longrightarrow> settles cx cx'"
  using check_and_expire_ok [of cx k late cx'] astate_inv_expire by (auto simp: settles_def)

lemma cx_malloc_ok:
  assumes "ctx_ok cx" and "cx_malloc cx = (ok, cx')"
  shows "settles cx cx'" and "db_view cx' = db_view cx" and "cx_safe cx \<Longrightarrow> ok"
    and "cx_table cx' = cx_table cx" and "cx_expires cx' = cx_expires cx"
    and "env_clock (cx_env cx') = env_clock (cx_env cx)" and "env_now (cx_env cx') = env_now (cx_env cx)"
  using assms io_only_alloc [of "cx_env cx"] alloc_safeD [of "env_allocs (cx_env cx)"]
  by (auto simp: cx_malloc_def settles_def ctx_ok_def db_view_def cx_safe_def clock_ok_def env_alloc_def
      split: prod.splits)

lemma settles_reserve: "ctx_ok cx \<Longrightarrow> keys_reserve n cap cx = (r, cx') \<Longrightarrow> settles cx cx'"
  using cx_malloc_ok(1) by (auto simp: keys_reserve_def Let_def settles_refl split: if_splits prod.splits)

lemma settles_keys_chain: "ctx_ok cx \<Longrightarrow> keys_chain c buf n cap cx = (r, cx') \<Longrightarrow> settles cx cx'"
proof (induction c arbitrary: buf n cap cx)
  case Nil
  then show ?case by (simp add: settles_refl)
next
  case (Cons en c)
  obtain late cx1 where ce: "check_and_expire (he_key en) cx = (late, cx1)" by (meson surj_pair)
  note s1 = settles_expire [OF Cons.prems(1) ce]
  have ok1: "ctx_ok cx1" using s1 by (simp add: settles_def)
  obtain q cx2 where kr: "keys_reserve (length buf + (length (dec_nat (n + 1) @ [41, 32]) + length (he_key en) + 1)) cap cx1 = (q, cx2)"
    by (meson surj_pair)
  note s2 = settles_reserve [OF ok1 kr]
  have ok2: "ctx_ok cx2" using s2 by (simp add: settles_def)
  have "cx' = cx1 \<or> cx' = cx2 \<or> settles cx1 cx' \<or> settles cx2 cx'"
    using Cons.prems(2) ce kr Cons.IH [OF ok1] Cons.IH [OF ok2]
    by (auto simp: Let_def split: if_splits option.splits prod.splits)
  then show ?case using s1 s2 settles_trans by blast
qed

lemma settles_keys_buckets: "ctx_ok cx \<Longrightarrow> keys_buckets ps buf n cap cx = (r, cx') \<Longrightarrow> settles cx cx'"
proof (induction ps arbitrary: buf n cap cx)
  case Nil
  then show ?case by (simp add: settles_refl)
next
  case (Cons p ps)
  obtain t i where p: "p = (t, i)" by (cases p)
  obtain q cx1 where kc: "keys_chain (st_bucket (ht_sub (cx_table cx) t) i) buf n cap cx = (q, cx1)" by (meson surj_pair)
  note s1 = settles_keys_chain [OF Cons.prems(1) kc]
  have ok1: "ctx_ok cx1" using s1 by (simp add: settles_def)
  have "cx' = cx1 \<or> settles cx1 cx'"
    using Cons.prems(2) kc Cons.IH [OF ok1] by (auto simp: p split: option.splits prod.splits)
  then show ?case using s1 settles_trans by blast
qed

lemma settles_responds:
  assumes "settles cx cx1" and "responds r cx1 cx'"
  shows "answers cx cx'"
  using assms by (intro answersI [where spec = "(r, db_view cx1)"] meets_reply [OF _ _ assms(2)]) (auto simp: settles_def)

lemma list_keys_meets:
  assumes "ctx_ok cx"
  shows "answers cx (list_keys cx)"
proof -
  obtain ok cx1 where ml: "cx_malloc cx = (ok, cx1)" by (meson surj_pair)
  note s1 = cx_malloc_ok(1) [OF assms ml]
  have ok1: "ctx_ok cx1" using s1 by (simp add: settles_def)
  obtain r cx2 where kb: "keys_buckets (keys_positions (cx_table cx1)) [] 0 4096 cx1 = (r, cx2)" by (meson surj_pair)
  note s2 = settles_trans [OF s1 settles_keys_buckets [OF ok1 kb]]
  have ok2: "ctx_ok cx2" using s2 by (simp add: settles_def)
  have "list_keys cx = cx_send send_error cx1 \<or> list_keys cx = cx_send send_error cx2
      \<or> (\<exists>d. list_keys cx = cx_send (send_keys_reply d) cx2)"
    using ml kb by (auto simp: list_keys_def split: option.splits if_splits)
  then show ?thesis
    using settles_responds [OF s1 cx_send_responds(1) [OF ok1]] settles_responds [OF s2 cx_send_responds(1) [OF ok2]]
      settles_responds [OF s2 cx_send_responds(4) [OF ok2]] by (elim disjE exE) simp_all
qed

section \<open>The contract of a handler\<close>

lemma rd_u16_less: "rd_u16 buf i = Some n \<Longrightarrow> n < 65536"
  by (auto simp: rd_u16_def Option.bind_eq_Some_conv)

lemma cx_now_ms_ok:
  assumes "ctx_ok cx" and "cx_now_ms cx = (now, cx')"
  shows "settles cx cx'" and "now = cx_now cx" and "reading_ok now" and "db_view cx' = db_view cx"
  using assms clock_ok_now [of "cx_env cx"]
  by (auto simp: cx_now_ms_def settles_def ctx_ok_def db_view_def cx_safe_def cx_now_def split: prod.splits)

lemma set_deadline_ok:
  assumes "ctx_ok cx" and "set_deadline sec cx = (ex, cx')"
  shows "settles cx cx'" and "db_view cx' = db_view cx" and "ex = Inr (Some dl) \<Longrightarrow> in_i64 dl"
    and "ex = (case fkvs_parse_deadline_ms sec (cx_now cx) of None \<Rightarrow> Inl () | Some d \<Rightarrow> Inr (Some d))"
proof -
  obtain now cx1 where nw: "cx_now_ms cx = (now, cx1)" by (meson surj_pair)
  note c = cx_now_ms_ok [OF assms(1) nw]
  have r: "(ex, cx') = (case fkvs_parse_deadline_ms sec now of None \<Rightarrow> Inl () | Some d \<Rightarrow> Inr (Some d), cx1)"
    using assms(2) nw by (cases "fkvs_parse_deadline_ms sec now") (auto simp: set_deadline_def)
  show "settles cx cx'" "db_view cx' = db_view cx"
    "ex = (case fkvs_parse_deadline_ms sec (cx_now cx) of None \<Rightarrow> Inl () | Some d \<Rightarrow> Inr (Some d))"
    using r c by simp_all
  assume "ex = Inr (Some dl)"
  then have "fkvs_parse_deadline_ms sec now = Some dl" using r by (cases "fkvs_parse_deadline_ms sec now") simp_all
  from parse_deadline_Some [OF this] show "in_i64 dl" using c(3) by (simp add: reading_ok_def in_i64_def)
qed

lemma parse_set_expiry_ok:
  assumes "ctx_ok cx" and "parse_set_expiry buf n off has cx = Some (ex, cx')"
  shows "settles cx cx'" and "db_view cx' = db_view cx" and "ex = Inr (Some dl) \<Longrightarrow> in_i64 dl"
proof -
  have "(ex, cx') = (Inr None, cx) \<or> (ex, cx') = (Inl (), cx) \<or> (\<exists>sec. set_deadline sec cx = (ex, cx'))"
    using assms(2) by (auto simp: parse_set_expiry_def Let_def Option.bind_eq_Some_conv split: if_splits)
  then have "settles cx cx' \<and> db_view cx' = db_view cx \<and> (ex = Inr (Some dl) \<longrightarrow> in_i64 dl)"
    using settles_refl [OF assms(1)] set_deadline_ok(1-3) [OF assms(1)] by (elim disjE exE) (simp, simp, blast)
  then show "settles cx cx'" "db_view cx' = db_view cx" "ex = Inr (Some dl) \<Longrightarrow> in_i64 dl" by auto
qed

lemma error_meets: "ctx_ok cx \<Longrightarrow> answers cx (cx_send send_error cx)"
  using meets_error by (rule answersI)

lemma settles_meets: "settles cx cx1 \<Longrightarrow> answers cx1 cx' \<Longrightarrow> answers cx cx'"
  by (auto simp: settles_def answers_def intro: meets_pre)

lemma handle_set_meets:
  assumes "ctx_ok cx" and "handle_set_command buf n cx = Some cx'"
  shows "answers cx cx'"
proof (cases "cx' = cx_send send_error cx")
  case True
  then show ?thesis using error_meets [OF assms(1)] by simp
next
  case False
  have n: "\<not> n < 5" using assms(2) False by (auto simp: handle_set_command_def)
  obtain cl where cl: "rd_u16 buf 0 = Some cl"
    using assms(2) n by (cases "rd_u16 buf 0") (auto simp: handle_set_command_def)
  obtain kl where kl: "rd_u16 buf 3 = Some kl"
    using assms(2) n cl False
    by (cases "rd_u16 buf 3") (auto simp: handle_set_command_def Let_def Option.bind_eq_Some_conv split: if_splits)
  obtain vl where vl: "rd_u16 buf (5 + kl) = Some vl"
    using assms(2) n cl kl False
    by (cases "rd_u16 buf (5 + kl)") (auto simp: handle_set_command_def Let_def Option.bind_eq_Some_conv split: if_splits)
  have le: "5 + kl + vl \<le> cl" and bind: "Option.bind (parse_set_expiry buf n (7 + kl + vl) (5 + kl + vl < cl) cx)
      (\<lambda>(ex, cx). case ex of Inl _ \<Rightarrow> Some (cx_send send_error cx)
        | Inr dl \<Rightarrow> Option.bind (slice buf 5 kl) (\<lambda>k. Option.bind (slice buf (7 + kl) vl)
             (\<lambda>d. Some (store_set k d dl cx)))) = Some cx'"
    using assms(2) n cl kl vl False
    by (auto simp: handle_set_command_def Let_def Option.bind_eq_Some_conv [of "rd _ _"] split: if_splits)
  then obtain ex cx1 where ex: "parse_set_expiry buf n (7 + kl + vl) (5 + kl + vl < cl) cx = Some (ex, cx1)"
    by (cases "parse_set_expiry buf n (7 + kl + vl) (5 + kl + vl < cl) cx") auto
  note p = parse_set_expiry_ok [OF assms(1) ex]
  have ok1: "ctx_ok cx1" using p(1) by (simp add: settles_def)
  show ?thesis
  proof (cases ex)
    case (Inl u)
    then show ?thesis using bind ex settles_meets [OF p(1) error_meets [OF ok1]] by simp
  next
    case (Inr dl)
    then obtain k d where e: "slice buf (7 + kl) vl = Some d" "cx' = store_set k d dl cx1"
      using bind ex by (auto simp: Option.bind_eq_Some_conv)
    have "length d \<le> 65530" using slice_length [OF e(1)] le rd_u16_less [OF cl] by simp
    from store_set_meets [OF ok1 this, of dl k] p(3) Inr have "answers cx1 cx'"
      unfolding e(2) by (intro answersI) blast
    then show ?thesis by (rule settles_meets [OF p(1)])
  qed
qed

lemma handle_get_meets: "ctx_ok cx \<Longrightarrow> handle_get_command buf n cx = Some cx' \<Longrightarrow> answers cx cx'"
  using answersI [OF serve_get_meets] error_meets
  by (auto simp: handle_get_command_def Option.bind_eq_Some_conv split: if_splits)

lemma handle_incr_meets: "ctx_ok cx \<Longrightarrow> handle_incr_command buf n cx = Some cx' \<Longrightarrow> answers cx cx'"
  using answersI [OF change_counter_meets [OF _ change_ok_counters(1)]] error_meets
  by (auto simp: handle_incr_command_def Option.bind_eq_Some_conv split: if_splits)

lemma handle_decr_meets: "ctx_ok cx \<Longrightarrow> handle_decr_command buf n cx = Some cx' \<Longrightarrow> answers cx cx'"
  using answersI [OF change_counter_meets [OF _ change_ok_counters(2)]] error_meets
  by (auto simp: handle_decr_command_def Option.bind_eq_Some_conv split: if_splits)

lemma handle_by_meets:
  assumes "ctx_ok cx" and "handle_by_command cmd change buf n cx = Some cx'" and "\<And>t. change_ok (change t)"
  shows "answers cx cx'"
proof -
  obtain ok cx1 where ml: "cx_malloc cx = (ok, cx1)" by (meson surj_pair)
  note s1 = cx_malloc_ok(1) [OF assms(1) ml]
  have ok1: "ctx_ok cx1" using s1 by (simp add: settles_def)
  have "cx' = cx_send send_error cx \<or> cx' = cx_send send_error cx1 \<or> (\<exists>k t. cx' = change_counter k (change t) cx1)"
    using assms(2) ml by (auto simp: handle_by_command_def Let_def Option.bind_eq_Some_conv split: if_splits)
  then show ?thesis
    using error_meets [OF assms(1)] settles_meets [OF s1 error_meets [OF ok1]]
      settles_meets [OF s1] answersI [OF change_counter_meets [OF ok1 assms(3)]] by blast
qed

lemma send_pong_meets:
  assumes "ctx_ok cx" and "send_pong buf n (cx_client cx) (cx_env cx) = Some (c, e)"
  shows "answers cx (cx\<lparr>cx_client := c, cx_env := e\<rparr>)"
proof -
  have i: "client_inv (cx_client cx)" using assms(1) by (simp add: ctx_ok_def)
  have "(\<exists>r. replies r (cx_client cx) c) \<and> io_only (cx_env cx) e"
  proof (cases "send_error (cx_client cx) (cx_env cx) = (c, e)")
    case True
    then show ?thesis using send_error_delivers [OF i True] io_only_error [OF True] by blast
  next
    case False
    then obtain d m where d: "slice buf 5 m = Some d" "queue_frame CMD_PING d (cx_client cx) (cx_env cx) = (c, e)"
      using assms(2) i by (auto simp: send_pong_def client_inv_def Option.bind_eq_Some_conv split: if_splits)
    have "replies (Resp_pong d) (cx_client cx) c" by (rule queue_frame_replies [OF i d(2)]) simp_all
    then show ?thesis using io_only_frame [OF d(2)] by blast
  qed
  then obtain r where "responds r cx (cx\<lparr>cx_client := c, cx_env := e\<rparr>)" by (auto simp: responds_def)
  then show ?thesis using settles_responds [OF settles_refl [OF assms(1)]] by blast
qed

lemma handle_ping_meets: "ctx_ok cx \<Longrightarrow> handle_ping_command buf n cx = Some cx' \<Longrightarrow> answers cx cx'"
  using send_pong_meets error_meets
  by (auto simp: handle_ping_command_def Option.bind_eq_Some_conv split: if_splits)

lemma handle_info_meets:
  assumes "ctx_ok cx" and "handle_info_command buf n cx = Some cx'"
  shows "answers cx cx'"
proof (cases "cx' = cx_send send_error cx")
  case True
  then show ?thesis using error_meets [OF assms(1)] by simp
next
  case False
  then obtain srv where srv: "cx' = cx_send send_error (cx\<lparr>cx_server := srv\<rparr>)
      \<or> (\<exists>d. cx' = cx_send (send_info_reply d) (cx\<lparr>cx_server := srv\<rparr>))"
    using assms(2) by (auto simp: handle_info_command_def Let_def Option.bind_eq_Some_conv split: if_splits)
  have s: "settles cx (cx\<lparr>cx_server := srv\<rparr>)" and ok: "ctx_ok (cx\<lparr>cx_server := srv\<rparr>)"
    using assms(1) by (auto simp: settles_def ctx_ok_def db_view_def cx_safe_def)
  show ?thesis using srv settles_responds [OF s cx_send_responds(1) [OF ok]]
      settles_responds [OF s cx_send_responds(5) [OF ok]] by (elim disjE exE) simp_all
qed

text \<open>DEL and PERSIST.\<close>

lemma serve_del_meets:
  assumes "ctx_ok cx"
  shows "meets (Resp_ok, a_remove k (db_view cx)) cx (serve_del k cx)"
proof -
  note t = table_delete_ok [OF assms, of k]
  note e = expires_delete_ok [OF t(1), of k]
  show ?thesis unfolding serve_del_def
    by (rule meets_reply [OF e(1) _ cx_send_responds(2) [OF e(1)]])
      (use quietD [OF t(2)] quietD [OF e(2)] t(3,4) e(3,4) in \<open>auto simp: a_remove_def astate_inv_def\<close>)
qed

lemma handle_del_meets: "ctx_ok cx \<Longrightarrow> handle_del_command buf n cx = Some cx' \<Longrightarrow> answers cx cx'"
  using answersI [OF serve_del_meets] error_meets
  by (auto simp: handle_del_command_def Option.bind_eq_Some_conv split: if_splits)

lemma serve_persist_meets:
  assumes "ctx_ok cx"
  shows "meets (Resp_ok, (db_view cx)\<lparr>a_deadlines := (a_deadlines (db_view cx))(k := None)\<rparr>) cx (serve_persist k cx)"
proof -
  note e = expires_delete_ok [OF assms, of k]
  show ?thesis unfolding serve_persist_def e(5)
    by (rule meets_reply [OF e(1) quietD [OF e(2)] cx_send_responds(2) [OF e(1)]])
      (use e(3,4) in \<open>auto simp: astate_inv_def\<close>)
qed

lemma handle_persist_meets: "ctx_ok cx \<Longrightarrow> handle_persist_command buf n cx = Some cx' \<Longrightarrow> answers cx cx'"
  using answersI [OF serve_persist_meets] error_meets
  by (auto simp: handle_persist_command_def Option.bind_eq_Some_conv split: if_splits)

lemma handle_ttl_meets: "ctx_ok cx \<Longrightarrow> handle_ttl_command buf n cx = Some cx' \<Longrightarrow> answers cx cx'"
  using answersI [OF reply_ttl_meets] error_meets
  by (auto simp: handle_ttl_command_def Option.bind_eq_Some_conv split: if_splits)

lemma handle_keys_meets: "ctx_ok cx \<Longrightarrow> handle_keys_command buf n cx = Some cx' \<Longrightarrow> answers cx cx'"
  using list_keys_meets error_meets
  by (auto simp: handle_keys_command_def Option.bind_eq_Some_conv split: if_splits)


definition spec_expire :: "bytes \<Rightarrow> bytes \<Rightarrow> int \<Rightarrow> astate \<Rightarrow> response \<times> astate" where
  "spec_expire k secs now s =
     (if a_store s k = None \<or> length secs > 31 then (Resp_error, s)
      else case fkvs_parse_deadline_ms secs now of
          None \<Rightarrow> (Resp_error, s)
        | Some d \<Rightarrow> (Resp_ok, s\<lparr>a_deadlines := (a_deadlines s)(k \<mapsto> d)\<rparr>))"

lemma serve_expire_meets:
  assumes "ctx_ok cx" and "a_store (db_view cx) k \<noteq> None" and "length secs \<le> 31"
  shows "meets (spec_expire k secs (cx_now cx) (db_view cx)) cx (serve_expire k (length secs) secs cx)"
proof -
  obtain now cx1 where nw: "cx_now_ms cx = (now, cx1)" by (meson surj_pair)
  note c1 = cx_now_ms_ok [OF assms(1) nw]
  have ok1: "ctx_ok cx1" and cl1: "cx_client cx1 = cx_client cx" using c1(1) by (simp_all add: settles_def)
  show ?thesis
  proof (cases "fkvs_parse_deadline_ms secs now")
    case None
    then have "serve_expire k (length secs) secs cx = cx_send send_error cx1" using nw by (simp add: serve_expire_def)
    then show ?thesis
      using c1 None assms(3)
      by (auto intro!: meets_reply [OF ok1 cl1 cx_send_responds(1) [OF ok1]] simp: spec_expire_def settles_def)
  next
    case (Some d)
    obtain ok cx2 where p: "expires_put k d cx1 = (ok, cx2)" by (meson surj_pair)
    have d: "INT64_MIN \<le> d" "d \<le> INT64_MAX"
      using parse_deadline_Some [OF Some] c1(3) by (auto simp: reading_ok_def)
    note c2 = expires_put_ok [OF ok1 p d]
    have cl2: "cx_client cx2 = cx_client cx" using quietD [OF c2(2)] cl1 by simp
    have sf: "cx_safe cx \<Longrightarrow> ok \<and> cx_safe cx2" using c1(1) c2(3) by (auto simp: settles_def)
    have inv: "astate_inv (db_view cx) \<Longrightarrow> astate_inv (db_view cx2)"
      using c2(4) c1(4) assms(2) by (auto simp: astate_inv_def)
    have r: "serve_expire k (length secs) secs cx = (if \<not> ok then cx_send send_error cx2 else cx_send send_ok cx2)"
      using nw Some p by (simp add: serve_expire_def)
    show ?thesis
    proof (cases ok)
      case True
      then show ?thesis unfolding r using sf inv c2(4) c1 Some assms(2,3)
        by (auto intro!: meets_reply [OF c2(1) cl2 cx_send_responds(2) [OF c2(1)]] simp: spec_expire_def)
    next
      case False
      then show ?thesis unfolding r using sf inv
        by (auto intro!: meets_reply [OF c2(1) cl2 cx_send_responds(1) [OF c2(1)]])
    qed
  qed
qed

lemma handle_expire_meets:
  assumes "ctx_ok cx" and "handle_expire_command buf n cx = Some cx'"
  shows "answers cx cx'"
proof (cases "cx' = cx_send send_error cx")
  case True
  then show ?thesis using error_meets [OF assms(1)] by simp
next
  case False
  have "\<exists>k m p b. lookup_value (cx_table cx) k \<noteq> None \<and> slice buf p (min m 31) = Some b \<and> cx' = serve_expire k m b cx"
    using assms(2) False
    by (auto simp: handle_expire_command_def Let_def Option.bind_eq_Some_conv split: if_splits)
  then obtain k m p b where e: "lookup_value (cx_table cx) k \<noteq> None" "length b \<le> 31" "cx' = serve_expire k m b cx"
    using slice_length by (metis min.cobounded2)
  then have "m = length b" using False by (auto simp: serve_expire_def split: if_splits)
  moreover have "a_store (db_view cx) k \<noteq> None" using lookup_store [OF assms(1)] e(1) by simp
  ultimately show ?thesis using answersI [OF serve_expire_meets [OF assms(1) _ e(2)]] e(3) by simp
qed

end
