(* ===== verification/Command_Parser.thy ===== *)
theory Command_Parser
  imports Registry
begin

text \<open>
  \<open>src/commands/common/command_parser.c\<close>: the fourteen functions with which the clients build
  request frames, and the requests they stand for.  A C string is the list of its bytes,
  none of them NUL, so \<open>strlen\<close> is \<open>length\<close>.
\<close>

section \<open>Frames\<close>

text \<open>The three layouts of a request: no argument, one argument, two arguments; SET with an
  expiry has a third.  Each length is stored modulo \<open>2 ^ 16\<close>.\<close>

definition bare_frame :: "byte \<Rightarrow> bytes" where
  "bare_frame cmd = put_u16 1 @ [cmd]"

definition key_frame :: "byte \<Rightarrow> bytes \<Rightarrow> bytes" where
  "key_frame cmd key =
     (let core_cmd_len = 3 + length key
      in put_u16 core_cmd_len @ [cmd] @ put_u16 (length key) @ key)"

definition pair_frame :: "byte \<Rightarrow> bytes \<Rightarrow> bytes \<Rightarrow> bytes" where
  "pair_frame cmd key data =
     (let core_cmd_len = 1 + 2 + length key + 2 + length data
      in put_u16 core_cmd_len @ [cmd] @ put_u16 (length key) @ key @ put_u16 (length data) @ data)"

definition set_ex_frame :: "bytes \<Rightarrow> bytes \<Rightarrow> bytes \<Rightarrow> bytes" where
  "set_ex_frame key data seconds =
     (let core_cmd_len = 1 + 2 + length key + 2 + length data + 2 + length seconds
      in put_u16 core_cmd_len @ [CMD_SET] @ put_u16 (length key) @ key @ put_u16 (length data) @ data
         @ put_u16 (length seconds) @ seconds)"

text \<open>The frame in freshly allocated memory, or NULL; \<open>*command_len\<close> is its length.\<close>

definition malloc_frame :: "bytes \<Rightarrow> allocs \<Rightarrow> bytes option \<times> allocs" where
  "malloc_frame frame a = (let (ok, a) = alloc a in (if ok then Some frame else None, a))"

section \<open>The constructors\<close>

definition construct_set_command :: "bytes \<Rightarrow> bytes \<Rightarrow> allocs \<Rightarrow> bytes option \<times> allocs" where
  "construct_set_command key data = malloc_frame (pair_frame CMD_SET key data)"

definition construct_set_ex_command :: "bytes \<Rightarrow> bytes \<Rightarrow> bytes \<Rightarrow> allocs \<Rightarrow> bytes option \<times> allocs" where
  "construct_set_ex_command key data seconds = malloc_frame (set_ex_frame key data seconds)"

definition construct_get_command :: "bytes \<Rightarrow> allocs \<Rightarrow> bytes option \<times> allocs" where
  "construct_get_command key = malloc_frame (key_frame CMD_GET key)"

definition construct_incr_command :: "bytes \<Rightarrow> allocs \<Rightarrow> bytes option \<times> allocs" where
  "construct_incr_command key = malloc_frame (key_frame CMD_INCR key)"

definition construct_incr_by_command :: "bytes \<Rightarrow> bytes \<Rightarrow> allocs \<Rightarrow> bytes option \<times> allocs" where
  "construct_incr_by_command key data = malloc_frame (pair_frame CMD_INCR_BY key data)"

definition construct_ping_command :: "bytes \<Rightarrow> allocs \<Rightarrow> bytes option \<times> allocs" where
  "construct_ping_command data = malloc_frame (key_frame CMD_PING data)"

definition construct_info_command :: "allocs \<Rightarrow> bytes option \<times> allocs" where
  "construct_info_command = malloc_frame (bare_frame CMD_INFO)"

definition construct_decr_command :: "bytes \<Rightarrow> allocs \<Rightarrow> bytes option \<times> allocs" where
  "construct_decr_command key = malloc_frame (key_frame CMD_DECR key)"

definition construct_decr_by_command :: "bytes \<Rightarrow> bytes \<Rightarrow> allocs \<Rightarrow> bytes option \<times> allocs" where
  "construct_decr_by_command key data = malloc_frame (pair_frame CMD_DECR_BY key data)"

definition construct_del_command :: "bytes \<Rightarrow> allocs \<Rightarrow> bytes option \<times> allocs" where
  "construct_del_command key = malloc_frame (key_frame CMD_DEL key)"

definition construct_expire_command :: "bytes \<Rightarrow> bytes \<Rightarrow> allocs \<Rightarrow> bytes option \<times> allocs" where
  "construct_expire_command key seconds = malloc_frame (pair_frame CMD_EXPIRE key seconds)"

definition construct_ttl_command :: "bytes \<Rightarrow> allocs \<Rightarrow> bytes option \<times> allocs" where
  "construct_ttl_command key = malloc_frame (key_frame CMD_TTL key)"

definition construct_persist_command :: "bytes \<Rightarrow> allocs \<Rightarrow> bytes option \<times> allocs" where
  "construct_persist_command key = malloc_frame (key_frame CMD_PERSIST key)"

definition construct_keys_command :: "allocs \<Rightarrow> bytes option \<times> allocs" where
  "construct_keys_command = malloc_frame (bare_frame CMD_KEYS)"

section \<open>Requests\<close>

datatype request =
    Req_set bytes bytes
  | Req_set_ex bytes bytes bytes
  | Req_get bytes
  | Req_incr bytes
  | Req_decr bytes
  | Req_incr_by bytes bytes
  | Req_decr_by bytes bytes
  | Req_ping bytes
  | Req_info
  | Req_del bytes
  | Req_expire bytes bytes
  | Req_ttl bytes
  | Req_persist bytes
  | Req_keys

text \<open>The constructor a client calls for a request.\<close>

fun construct :: "request \<Rightarrow> allocs \<Rightarrow> bytes option \<times> allocs" where
  "construct (Req_set k d) = construct_set_command k d"
| "construct (Req_set_ex k d t) = construct_set_ex_command k d t"
| "construct (Req_get k) = construct_get_command k"
| "construct (Req_incr k) = construct_incr_command k"
| "construct (Req_decr k) = construct_decr_command k"
| "construct (Req_incr_by k d) = construct_incr_by_command k d"
| "construct (Req_decr_by k d) = construct_decr_by_command k d"
| "construct (Req_ping d) = construct_ping_command d"
| "construct Req_info = construct_info_command"
| "construct (Req_del k) = construct_del_command k"
| "construct (Req_expire k t) = construct_expire_command k t"
| "construct (Req_ttl k) = construct_ttl_command k"
| "construct (Req_persist k) = construct_persist_command k"
| "construct Req_keys = construct_keys_command"

fun request_frame :: "request \<Rightarrow> bytes" where
  "request_frame (Req_set k d) = pair_frame CMD_SET k d"
| "request_frame (Req_set_ex k d t) = set_ex_frame k d t"
| "request_frame (Req_get k) = key_frame CMD_GET k"
| "request_frame (Req_incr k) = key_frame CMD_INCR k"
| "request_frame (Req_decr k) = key_frame CMD_DECR k"
| "request_frame (Req_incr_by k d) = pair_frame CMD_INCR_BY k d"
| "request_frame (Req_decr_by k d) = pair_frame CMD_DECR_BY k d"
| "request_frame (Req_ping d) = key_frame CMD_PING d"
| "request_frame Req_info = bare_frame CMD_INFO"
| "request_frame (Req_del k) = key_frame CMD_DEL k"
| "request_frame (Req_expire k t) = pair_frame CMD_EXPIRE k t"
| "request_frame (Req_ttl k) = key_frame CMD_TTL k"
| "request_frame (Req_persist k) = key_frame CMD_PERSIST k"
| "request_frame Req_keys = bare_frame CMD_KEYS"

lemmas construct_defs = construct_set_command_def construct_set_ex_command_def construct_get_command_def
  construct_incr_command_def construct_incr_by_command_def construct_ping_command_def
  construct_info_command_def construct_decr_command_def construct_decr_by_command_def
  construct_del_command_def construct_expire_command_def construct_ttl_command_def
  construct_persist_command_def construct_keys_command_def

lemma construct_frame: "construct r a = malloc_frame (request_frame r) a"
  by (cases r) (simp_all add: construct_defs)

text \<open>A request that fits its length field, so that nothing is lost.\<close>

definition request_fits :: "request \<Rightarrow> bool" where
  "request_fits r \<longleftrightarrow> length (request_frame r) \<le> UINT16_MAX + 2"

lemma frame_lengths [simp]:
  "length (bare_frame cmd) = 3" "length (key_frame cmd k) = length k + 5"
  "length (pair_frame cmd k d) = length k + length d + 7"
  "length (set_ex_frame k d t) = length k + length d + length t + 9"
  by (simp_all add: bare_frame_def key_frame_def pair_frame_def set_ex_frame_def)

section \<open>Reading a frame back\<close>

lemma bare_frame_reads:
  "rd_u16 (bare_frame cmd @ rest) 0 = Some 1" "rd (bare_frame cmd @ rest) 2 = Some cmd"
  by (simp_all add: bare_frame_def put_u16_def rd_u16_def rd_def get_u16_arith)

lemma key_frame_reads:
  fixes k rest :: bytes and cmd :: byte
  assumes "length k + 3 \<le> UINT16_MAX"
  defines "f \<equiv> key_frame cmd k @ rest"
  shows "rd_u16 f 0 = Some (length k + 3)" "rd f 2 = Some cmd" "rd_u16 f 3 = Some (length k)"
    "slice f 5 (length k) = Some k"
proof -
  have f: "f = [] @ put_u16 (length k + 3) @ [cmd] @ put_u16 (length k) @ k @ rest"
    by (simp add: f_def key_frame_def add.commute)
  show "rd_u16 f 0 = Some (length k + 3)" unfolding f using assms by (intro rd_u16_put) simp_all
  show "rd f 2 = Some cmd" by (simp add: f rd_def nth_append)
  have "f = (put_u16 (length k + 3) @ [cmd]) @ put_u16 (length k) @ k @ rest" by (simp add: f)
  then show "rd_u16 f 3 = Some (length k)" using assms by (simp only:) (rule rd_u16_put, simp_all)
  have "f = (put_u16 (length k + 3) @ [cmd] @ put_u16 (length k)) @ k @ rest" by (simp add: f)
  then show "slice f 5 (length k) = Some k" by (simp only:) (rule slice_mid, simp_all)
qed

lemma pair_frame_reads:
  fixes k d rest :: bytes and cmd :: byte
  assumes "length k + length d + 5 \<le> UINT16_MAX"
  defines "f \<equiv> pair_frame cmd k d @ rest"
  shows "rd_u16 f 0 = Some (length k + length d + 5)" "rd f 2 = Some cmd" "rd_u16 f 3 = Some (length k)"
    "slice f 5 (length k) = Some k" "rd_u16 f (5 + length k) = Some (length d)"
    "slice f (7 + length k) (length d) = Some d"
proof -
  let ?n = "length k + length d + 5"
  have f: "f = [] @ put_u16 ?n @ [cmd] @ put_u16 (length k) @ k @ put_u16 (length d) @ d @ rest"
    by (simp add: f_def pair_frame_def eval_nat_numeral ac_simps)
  show "rd_u16 f 0 = Some ?n" unfolding f using assms by (intro rd_u16_put) simp_all
  show "rd f 2 = Some cmd" by (simp add: f rd_def nth_append)
  have "f = (put_u16 ?n @ [cmd]) @ put_u16 (length k) @ k @ put_u16 (length d) @ d @ rest" by (simp add: f)
  then show "rd_u16 f 3 = Some (length k)" using assms by (simp only:) (rule rd_u16_put, simp_all)
  have "f = (put_u16 ?n @ [cmd] @ put_u16 (length k)) @ k @ (put_u16 (length d) @ d @ rest)" by (simp add: f)
  then show "slice f 5 (length k) = Some k" by (simp only:) (rule slice_mid, simp_all)
  have "f = (put_u16 ?n @ [cmd] @ put_u16 (length k) @ k) @ put_u16 (length d) @ (d @ rest)" by (simp add: f)
  then show "rd_u16 f (5 + length k) = Some (length d)" using assms by (simp only:) (rule rd_u16_put, simp_all)
  have "f = (put_u16 ?n @ [cmd] @ put_u16 (length k) @ k @ put_u16 (length d)) @ d @ rest" by (simp add: f)
  then show "slice f (7 + length k) (length d) = Some d" by (simp only:) (rule slice_mid, simp_all)
qed

lemma set_ex_frame_reads:
  fixes k d t rest :: bytes and n :: nat
  assumes "length k + length d + length t + 7 \<le> UINT16_MAX"
  defines "f \<equiv> set_ex_frame k d t @ rest"
  shows "rd_u16 f 0 = Some (length k + length d + length t + 7)" "rd f 2 = Some CMD_SET" "rd_u16 f 3 = Some (length k)"
    "slice f 5 (length k) = Some k" "rd_u16 f (5 + length k) = Some (length d)"
    "slice f (7 + length k) (length d) = Some d" "rd_u16 f (7 + length k + length d) = Some (length t)"
    "n \<le> length t \<Longrightarrow> slice f (9 + length k + length d) n = Some (take n t)"
proof -
  let ?n = "length k + length d + length t + 7"
  have f: "f = [] @ put_u16 ?n @ [CMD_SET] @ put_u16 (length k) @ k @ put_u16 (length d) @ d @ put_u16 (length t) @ t @ rest"
    by (simp add: f_def set_ex_frame_def eval_nat_numeral ac_simps)
  show "rd_u16 f 0 = Some ?n" unfolding f using assms by (intro rd_u16_put) simp_all
  show "rd f 2 = Some CMD_SET" by (simp add: f rd_def nth_append)
  have "f = (put_u16 ?n @ [CMD_SET]) @ put_u16 (length k) @ (k @ put_u16 (length d) @ d @ put_u16 (length t) @ t @ rest)"
    by (simp add: f)
  then show "rd_u16 f 3 = Some (length k)" using assms by (simp only:) (rule rd_u16_put, simp_all)
  have "f = (put_u16 ?n @ [CMD_SET] @ put_u16 (length k)) @ k @ (put_u16 (length d) @ d @ put_u16 (length t) @ t @ rest)"
    by (simp add: f)
  then show "slice f 5 (length k) = Some k" by (simp only:) (rule slice_mid, simp_all)
  have "f = (put_u16 ?n @ [CMD_SET] @ put_u16 (length k) @ k) @ put_u16 (length d) @ (d @ put_u16 (length t) @ t @ rest)"
    by (simp add: f)
  then show "rd_u16 f (5 + length k) = Some (length d)" using assms by (simp only:) (rule rd_u16_put, simp_all)
  have "f = (put_u16 ?n @ [CMD_SET] @ put_u16 (length k) @ k @ put_u16 (length d)) @ d @ (put_u16 (length t) @ t @ rest)"
    by (simp add: f)
  then show "slice f (7 + length k) (length d) = Some d" by (simp only:) (rule slice_mid, simp_all)
  have "f = (put_u16 ?n @ [CMD_SET] @ put_u16 (length k) @ k @ put_u16 (length d) @ d) @ put_u16 (length t) @ (t @ rest)"
    by (simp add: f)
  then show "rd_u16 f (7 + length k + length d) = Some (length t)"
    using assms by (simp only:) (rule rd_u16_put, simp_all)
  assume "n \<le> length t"
  have "f = (put_u16 ?n @ [CMD_SET] @ put_u16 (length k) @ k @ put_u16 (length d) @ d @ put_u16 (length t)) @ take n t @ (drop n t @ rest)"
    by (simp add: f)
  then show "slice f (9 + length k + length d) n = Some (take n t)"
    using \<open>n \<le> length t\<close> by (simp only:) (rule slice_mid, simp_all)
qed

end
