(* ===== verification/Handler_Contracts.thy ===== *)
theory Handler_Contracts
  imports Handler_Specs Command_Parser
begin

text \<open>
  The interface between the event loop and the command handlers.  A handler answers every
  call with one reply and keeps the state of the server well formed; most handlers look at
  their own frame only.  Over this interface: the dispatcher, sequences of calls, and the
  refinement of every request to its abstract command.
\<close>

section \<open>Handlers that answer\<close>

locale answering_handler =
  fixes handler :: command_handler
  assumes handler_answers: "ctx_ok cx \<Longrightarrow> handler buf n cx = Some cx' \<Longrightarrow> answers cx cx'"
begin

lemma handler_reply:
  assumes "ctx_ok cx" and "handler buf n cx = Some cx'"
  shows "\<exists>r. replies r (cx_client cx) (cx_client cx')"
  using handler_answers [OF assms] by (auto simp: answers_def meets_def outcome_def)

lemma handler_inv:
  assumes "ctx_inv cx" and "handler buf n cx = Some cx'"
  shows "ctx_inv cx'" and "cx_safe cx \<Longrightarrow> cx_safe cx'"
  using handler_answers [of cx, OF _ assms(2)] assms(1)
  by (auto simp: answers_def meets_def outcome_def ctx_inv_def)

end

text \<open>Handlers that read nothing but their frame.\<close>

locale framed_handler = answering_handler +
  assumes handler_local: "n \<le> length buf \<Longrightarrow> handler buf n cx = handler (take n buf) n cx"
    and handler_total: "handler buf (length buf) cx \<noteq> None"
begin

lemma handler_no_fault: "n \<le> length buf \<Longrightarrow> handler buf n cx \<noteq> None"
  using handler_local [of n buf cx] handler_total [of "take n buf" cx] by simp

lemma handler_ignores_tail:
  assumes "take n buf = take n buf'" and "n \<le> length buf" and "n \<le> length buf'"
  shows "handler buf n cx = handler buf' n cx"
  using handler_local [OF assms(2)] handler_local [OF assms(3)] assms(1) by simp

end

section \<open>Frame-local handlers\<close>

lemma parse_set_expiry_local:
  "parse_set_expiry (take n buf) n off ex cx = parse_set_expiry buf n off ex cx"
  by (simp add: parse_set_expiry_def take_simps Let_def cong: if_cong)

lemma handle_set_local: "handle_set_command (take n buf) n cx = handle_set_command buf n cx"
  by (simp add: handle_set_command_def parse_set_expiry_local take_simps Let_def if_disj cong: if_cong sum.case_cong)

lemma parse_set_expiry_total: "\<exists>r. parse_set_expiry buf (length buf) off ex cx = Some r"
  by (simp add: parse_set_expiry_def Let_def buf_simps cong: if_cong)

lemma handle_set_total: "\<exists>r. handle_set_command buf (length buf) cx = Some r"
  using parse_set_expiry_total
  by (auto simp: handle_set_command_def Let_def split_beta intro!: bind_total reads_total split: if_split sum.split)

lemma handle_by_local: "handle_by_command cmd f (take n buf) n cx = handle_by_command cmd f buf n cx"
  by (simp add: handle_by_command_def take_simps Let_def split_beta cong: if_cong)

lemma handle_by_total: "\<exists>r. handle_by_command cmd f buf (length buf) cx = Some r"
  by (auto simp: handle_by_command_def Let_def split_beta intro!: bind_total reads_total split: if_split)

lemma handle_expire_local: "handle_expire_command (take n buf) n cx = handle_expire_command buf n cx"
  by (simp add: handle_expire_command_def take_simps Let_def cong: if_cong)

lemma handle_expire_total: "\<exists>r. handle_expire_command buf (length buf) cx = Some r"
  by (auto simp: handle_expire_command_def Let_def min_def intro!: bind_total reads_total split: if_split)

lemma send_pong_local: "send_pong (take n buf) n c e = send_pong buf n c e"
  by (simp add: send_pong_def take_simps Let_def cong: if_cong)

lemma send_pong_total: "\<exists>r. send_pong buf (length buf) c e = Some r"
  by (simp add: send_pong_def Let_def buf_simps cong: if_cong)

lemma handle_ping_local: "handle_ping_command (take n buf) n cx = handle_ping_command buf n cx"
  by (simp add: handle_ping_command_def take_simps send_pong_local Let_def cong: if_cong)

lemma handle_ping_total: "\<exists>r. handle_ping_command buf (length buf) cx = Some r"
  using send_pong_total
  by (auto simp: handle_ping_command_def split_beta intro!: bind_total reads_total split: if_split)

lemma handle_info_local: "handle_info_command (take n buf) n cx = handle_info_command buf n cx"
  by (simp add: handle_info_command_def take_simps Let_def cong: if_cong)

lemma handle_info_total: "\<exists>r. handle_info_command buf (length buf) cx = Some r"
  by (auto simp: handle_info_command_def Let_def split_beta intro!: bind_total reads_total split: if_split)

lemma handle_keys_local: "handle_keys_command (take n buf) n cx = handle_keys_command buf n cx"
  by (simp add: handle_keys_command_def take_simps Let_def cong: if_cong)

lemma handle_keys_total: "\<exists>r. handle_keys_command buf (length buf) cx = Some r"
  by (auto simp: handle_keys_command_def Let_def split_beta intro!: bind_total reads_total split: if_split)
section \<open>The thirteen handlers\<close>

interpretation hset: framed_handler handle_set_command
  using handle_set_meets handle_set_local handle_set_total by unfold_locales auto

interpretation hget: answering_handler handle_get_command
  by unfold_locales (rule handle_get_meets)

interpretation hincr: answering_handler handle_incr_command
  by unfold_locales (rule handle_incr_meets)

interpretation hdecr: answering_handler handle_decr_command
  by unfold_locales (rule handle_decr_meets)

interpretation hincr_by: framed_handler handle_incr_by_command
  using handle_by_meets handle_by_local handle_by_total change_ok_counters
  by unfold_locales (auto simp: handle_incr_by_command_def)

interpretation hdecr_by: framed_handler handle_decr_by_command
  using handle_by_meets handle_by_local handle_by_total change_ok_counters
  by unfold_locales (auto simp: handle_decr_by_command_def)

interpretation hping: framed_handler handle_ping_command
  using handle_ping_meets handle_ping_local handle_ping_total by unfold_locales auto

interpretation hinfo: framed_handler handle_info_command
  using handle_info_meets handle_info_local handle_info_total by unfold_locales auto

interpretation hdel: answering_handler handle_del_command
  by unfold_locales (rule handle_del_meets)

interpretation hexpire: framed_handler handle_expire_command
  using handle_expire_meets handle_expire_local handle_expire_total by unfold_locales auto

interpretation httl: answering_handler handle_ttl_command
  by unfold_locales (rule handle_ttl_meets)

interpretation hpersist: answering_handler handle_persist_command
  by unfold_locales (rule handle_persist_meets)

interpretation hkeys: framed_handler handle_keys_command
  using handle_keys_meets handle_keys_local handle_keys_total by unfold_locales auto

text \<open>The command table holds exactly these.\<close>

definition known_commands :: "byte list" where
  "known_commands = [CMD_SET, CMD_GET, CMD_INCR, CMD_INCR_BY, CMD_PING, CMD_DECR, CMD_INFO, CMD_DECR_BY,
     CMD_DEL, CMD_EXPIRE, CMD_TTL, CMD_PERSIST, CMD_KEYS]"

lemma command_handlers_simps:
  "command_handlers CMD_SET = Some handle_set_command" "command_handlers CMD_GET = Some handle_get_command"
  "command_handlers CMD_INCR = Some handle_incr_command" "command_handlers CMD_INCR_BY = Some handle_incr_by_command"
  "command_handlers CMD_PING = Some handle_ping_command" "command_handlers CMD_DECR = Some handle_decr_command"
  "command_handlers CMD_INFO = Some handle_info_command" "command_handlers CMD_DECR_BY = Some handle_decr_by_command"
  "command_handlers CMD_DEL = Some handle_del_command" "command_handlers CMD_EXPIRE = Some handle_expire_command"
  "command_handlers CMD_TTL = Some handle_ttl_command" "command_handlers CMD_PERSIST = Some handle_persist_command"
  "command_handlers CMD_KEYS = Some handle_keys_command"
  by (simp_all add: command_handlers_def init_command_handlers_def register_command_def)

lemma command_handlers_None: "command_handlers b = None \<longleftrightarrow> b \<notin> set known_commands"
  by (simp add: command_handlers_def init_command_handlers_def register_command_def known_commands_def)

lemma command_handlers_answer:
  assumes "command_handlers b = Some f"
  shows "answering_handler f"
proof -
  have "b \<in> set known_commands" using assms command_handlers_None [of b] by auto
  then show ?thesis using assms
    by (auto simp: known_commands_def command_handlers_simps
        intro: hset.answering_handler_axioms hget.answering_handler_axioms hincr.answering_handler_axioms
          hdecr.answering_handler_axioms hincr_by.answering_handler_axioms hdecr_by.answering_handler_axioms
          hping.answering_handler_axioms hinfo.answering_handler_axioms hdel.answering_handler_axioms
          hexpire.answering_handler_axioms httl.answering_handler_axioms hpersist.answering_handler_axioms
          hkeys.answering_handler_axioms)
qed

section \<open>Requests and their abstract commands\<close>

text \<open>The reply and the new state a request stands for, given the two clock readings it may
  make.  INFO and KEYS have theorems of their own.\<close>

fun spec_step :: "request \<Rightarrow> int \<Rightarrow> int \<Rightarrow> astate \<Rightarrow> (response \<times> astate) option" where
  "spec_step (Req_set k d) now later s = Some (Resp_value d, spec_set k d None s)"
| "spec_step (Req_set_ex k d t) now later s = Some
     (if length t > 31 then (Resp_error, s)
      else case fkvs_parse_deadline_ms t now of
          None \<Rightarrow> (Resp_error, s)
        | Some deadline \<Rightarrow> (Resp_value d, spec_set k d (Some deadline) s))"
| "spec_step (Req_get k) now later s = Some (spec_get k now s)"
| "spec_step (Req_incr k) now later s = Some (if k = [] then (Resp_error, s) else spec_counter k incr_one now s)"
| "spec_step (Req_decr k) now later s = Some (spec_counter k decr_one now s)"
| "spec_step (Req_incr_by k t) now later s = Some (spec_counter k (incr_by t) now s)"
| "spec_step (Req_decr_by k t) now later s = Some (spec_counter k (decr_by t) now s)"
| "spec_step (Req_ping d) now later s = Some (Resp_pong d, s)"
| "spec_step (Req_del k) now later s = Some (Resp_ok, a_remove k s)"
| "spec_step (Req_expire k t) now later s = Some (spec_expire k t now s)"
| "spec_step (Req_ttl k) now later s = Some (spec_ttl k now later s)"
| "spec_step (Req_persist k) now later s = Some (Resp_ok, s\<lparr>a_deadlines := (a_deadlines s)(k := None)\<rparr>)"
| "spec_step Req_info now later s = None"
| "spec_step Req_keys now later s = None"

lemma serve_key_request:
  assumes "length k + 5 \<le> UINT16_MAX + 2"
  shows "handle_get_command (key_frame CMD_GET k @ rest) (length k + 5) cx = Some (serve_get k cx)"
    "handle_incr_command (key_frame CMD_INCR k @ rest) (length k + 5) cx =
       Some (if k = [] then cx_send send_error cx else change_counter k incr_one cx)"
    "handle_decr_command (key_frame CMD_DECR k @ rest) (length k + 5) cx = Some (change_counter k decr_one cx)"
    "handle_del_command (key_frame CMD_DEL k @ rest) (length k + 5) cx = Some (serve_del k cx)"
    "handle_ttl_command (key_frame CMD_TTL k @ rest) (length k + 5) cx = Some (reply_ttl k cx)"
    "handle_persist_command (key_frame CMD_PERSIST k @ rest) (length k + 5) cx = Some (serve_persist k cx)"
  using assms
  by (simp_all add: handle_get_command_def handle_incr_command_def handle_decr_command_def handle_del_command_def
      handle_ttl_command_def handle_persist_command_def key_frame_reads)

lemma serve_ping_request:
  assumes "ctx_ok cx" and "length d + 5 \<le> UINT16_MAX + 2"
  shows "\<exists>cx'. handle_ping_command (key_frame CMD_PING d @ rest) (length d + 5) cx = Some cx'
    \<and> meets (Resp_pong d, db_view cx) cx cx'"
proof -
  have i: "client_inv (cx_client cx)" using assms(1) by (simp add: ctx_ok_def)
  obtain c e where q: "queue_frame CMD_PING d (cx_client cx) (cx_env cx) = (c, e)" by (meson surj_pair)
  let ?cx = "cx\<lparr>cx_client := c, cx_env := e\<rparr>"
  have "handle_ping_command (key_frame CMD_PING d @ rest) (length d + 5) cx = Some ?cx"
    using assms(2) i q by (simp add: handle_ping_command_def send_pong_def key_frame_reads client_inv_def)
  moreover have "replies (Resp_pong d) (cx_client cx) c" by (rule queue_frame_replies [OF i q]) simp_all
  then have "responds (Resp_pong d) cx ?cx" using io_only_frame [OF q] by (simp add: responds_def)
  then have "meets (Resp_pong d, db_view cx) cx ?cx"
    by (rule meets_reply [OF assms(1) refl]) auto
  ultimately show ?thesis by blast
qed

lemma serve_by_request:
  assumes "ctx_ok cx" and "length k + length t + 7 \<le> UINT16_MAX + 2" and "\<And>t. change_ok (change t)"
  shows "\<exists>cx'. handle_by_command cmd change (pair_frame cmd k t @ rest) (length k + length t + 7) cx = Some cx'
    \<and> meets (spec_counter k (change t) (cx_now cx) (db_view cx)) cx cx'"
proof -
  obtain ok cx1 where ml: "cx_malloc cx = (ok, cx1)" by (meson surj_pair)
  note s1 = cx_malloc_ok [OF assms(1) ml]
  have ok1: "ctx_ok cx1" using s1(1) by (simp add: settles_def)
  have same: "cx_now cx1 = cx_now cx" "db_view cx1 = db_view cx"
    using ml by (auto simp: cx_malloc_def env_alloc_def cx_now_def db_view_def split: prod.splits)
  have r: "handle_by_command cmd change (pair_frame cmd k t @ rest) (length k + length t + 7) cx =
      Some (if ok then change_counter k (change t) cx1 else cx_send send_error cx1)"
    using assms(2) ml by (simp add: handle_by_command_def pair_frame_reads Let_def)
  have "meets (spec_counter k (change t) (cx_now cx) (db_view cx)) cx (change_counter k (change t) cx1)"
    by (rule meets_pre [OF change_counter_meets [OF ok1 assms(3), of k t, unfolded same]])
      (use s1(1) in \<open>auto simp: settles_def\<close>)
  moreover have "meets (spec_counter k (change t) (cx_now cx) (db_view cx)) cx (cx_send send_error cx1)" if "\<not> ok"
    by (rule meets_reply [OF ok1 _ cx_send_responds(1) [OF ok1]])
      (use s1 that in \<open>auto simp: settles_def\<close>)
  ultimately show ?thesis using r by auto
qed

lemma serve_expire_request:
  assumes "ctx_ok cx" and "length k + length t + 7 \<le> UINT16_MAX + 2"
  shows "\<exists>cx'. handle_expire_command (pair_frame CMD_EXPIRE k t @ rest) (length k + length t + 7) cx = Some cx'
    \<and> meets (spec_expire k t (cx_now cx) (db_view cx)) cx cx'"
proof -
  let ?f = "pair_frame CMD_EXPIRE k t @ rest"
  have core: "length k + length t + 5 \<le> UINT16_MAX" using assms(2) by simp
  have sl: "slice ?f (7 + length k) (min (length t) 31) = Some (take (min (length t) 31) t)"
    by (rule slice_prefix [OF pair_frame_reads(6) [OF core]]) simp
  have r: "handle_expire_command ?f (length k + length t + 7) cx =
      Some (if a_store (db_view cx) k = None then cx_send send_error cx
            else serve_expire k (length t) (take (min (length t) 31) t) cx)"
    using assms(2) sl lookup_store [OF assms(1), of k]
    by (simp add: handle_expire_command_def pair_frame_reads Let_def)
  consider "a_store (db_view cx) k = None \<or> length t > 31" | "a_store (db_view cx) k \<noteq> None" "length t \<le> 31"
    by fastforce
  then show ?thesis
  proof cases
    case 1
    then show ?thesis unfolding r using meets_error [OF assms(1)] by (auto simp: serve_expire_def spec_expire_def)
  next
    case 2
    then show ?thesis unfolding r using serve_expire_meets [OF assms(1) 2] by auto
  qed
qed

lemma serve_set_request:
  assumes "ctx_ok cx" and "length k + length d + 7 \<le> UINT16_MAX + 2"
  shows "\<exists>cx'. handle_set_command (pair_frame CMD_SET k d @ rest) (length k + length d + 7) cx = Some cx'
    \<and> meets (Resp_value d, spec_set k d None (db_view cx)) cx cx'"
proof -
  have "handle_set_command (pair_frame CMD_SET k d @ rest) (length k + length d + 7) cx = Some (store_set k d None cx)"
    using assms(2) by (simp add: handle_set_command_def pair_frame_reads parse_set_expiry_def Let_def)
  then show ?thesis using store_set_meets [OF assms(1), of d None k] assms(2) by simp
qed

lemma handle_set_ex_eq:
  assumes "length k + length d + length t + 9 \<le> UINT16_MAX + 2"
  shows "handle_set_command (set_ex_frame k d t @ rest) (length k + length d + length t + 9) cx =
    Some (if length t > 31 then cx_send send_error cx
          else case set_deadline t cx of
              (Inl _, cx1) \<Rightarrow> cx_send send_error cx1
            | (Inr deadline, cx1) \<Rightarrow> store_set k d deadline cx1)"
proof -
  let ?f = "set_ex_frame k d t @ rest" and ?n = "length k + length d + length t + 9"
  have core: "length k + length d + length t + 7 \<le> UINT16_MAX" using assms by simp
  note reads = set_ex_frame_reads [OF core, unfolded add.assoc]
  have tk: "slice ?f (9 + (length k + length d)) (min (length t) 31) = Some (take (min (length t) 31) t)"
    by (rule reads(8)) simp
  have p: "parse_set_expiry ?f ?n (7 + (length k + length d)) True cx =
      Some (if length t > 31 then (Inl (), cx) else set_deadline t cx)"
    using tk by (auto simp: parse_set_expiry_def reads Let_def add.assoc)
  have "handle_set_command ?f ?n cx = Option.bind (parse_set_expiry ?f ?n (7 + (length k + length d)) True cx)
      (\<lambda>(ex, cx). case ex of Inl _ \<Rightarrow> Some (cx_send send_error cx)
        | Inr dl \<Rightarrow> Some (store_set k d dl cx))"
    using assms by (simp add: handle_set_command_def reads Let_def add.assoc cong: sum.case_cong)
  then show ?thesis unfolding p by (auto split: prod.split sum.split)
qed

lemma serve_set_ex_request:
  assumes "ctx_ok cx" and "length k + length d + length t + 9 \<le> UINT16_MAX + 2"
    and "spec_step (Req_set_ex k d t) (cx_now cx) later (db_view cx) = Some sp"
  shows "\<exists>cx'. handle_set_command (set_ex_frame k d t @ rest) (length k + length d + length t + 9) cx = Some cx'
    \<and> meets sp cx cx'"
proof -
  let ?f = "set_ex_frame k d t @ rest" and ?n = "length k + length d + length t + 9"
  note eq = handle_set_ex_eq [OF assms(2), of rest cx]
  obtain ex cx1 where sd: "set_deadline t cx = (ex, cx1)" by (meson surj_pair)
  note c1 = set_deadline_ok [OF assms(1) sd]
  have ok1: "ctx_ok cx1" using c1(1) by (simp add: settles_def)
  show ?thesis
  proof (cases "length t > 31 \<or> fkvs_parse_deadline_ms t (cx_now cx) = None")
    case True
    then have "\<exists>cx'. settles cx cx' \<and> db_view cx' = db_view cx \<and> handle_set_command ?f ?n cx = Some (cx_send send_error cx')"
    proof (cases "length t > 31")
      case long: True
      then show ?thesis using eq settles_refl [OF assms(1)] by (intro exI [of _ cx]) simp
    next
      case False
      then have "ex = Inl ()" using True c1(4) by simp
      then show ?thesis using False eq sd c1(1,2) by (intro exI [of _ cx1]) simp
    qed
    then obtain cx' where e: "settles cx cx'" "db_view cx' = db_view cx" "handle_set_command ?f ?n cx = Some (cx_send send_error cx')"
      by blast
    have ok': "ctx_ok cx'" using e(1) by (simp add: settles_def)
    have "sp = (Resp_error, db_view cx)" using True assms(3) by auto
    then have "meets sp cx (cx_send send_error cx')"
      using e by (intro meets_reply [OF ok' _ cx_send_responds(1) [OF ok']]) (auto simp: settles_def)
    then show ?thesis using e(3) by blast
  next
    case False
    then obtain dl where dl: "fkvs_parse_deadline_ms t (cx_now cx) = Some dl" by blast
    then have h: "handle_set_command ?f ?n cx = Some (store_set k d (Some dl) cx1)" and sp: "sp = (Resp_value d, spec_set k d (Some dl) (db_view cx))"
      using eq sd c1(4) False assms(3) by auto
    have "in_i64 dl" by (rule c1(3)) (use dl c1(4) in simp)
    then have "meets sp cx1 (store_set k d (Some dl) cx1)"
      unfolding sp using store_set_meets [OF ok1, of d "Some dl" k] c1(2) assms(2) by simp
    then have "meets sp cx (store_set k d (Some dl) cx1)"
      by (rule meets_pre) (use c1(1) in \<open>auto simp: settles_def\<close>)
    then show ?thesis using h by blast
  qed
qed

lemma serve_request:
  assumes "ctx_ok cx" and "request_fits r" and "spec_step r (cx_now cx) (cx_later cx) (db_view cx) = Some sp"
  shows "\<exists>cx'. dispatch_command command_handlers (request_frame r @ rest) (length (request_frame r)) cx = Some cx'
    \<and> meets sp cx cx'"
proof -
  have fits: "length (request_frame r) \<le> UINT16_MAX + 2" using assms(2) by (simp add: request_fits_def)
  show ?thesis
  proof (cases r)
    case (Req_set k d)
    then show ?thesis using serve_set_request [OF assms(1), of k d rest] fits assms(3)
      by (simp add: dispatch_command_def pair_frame_reads command_handlers_simps)
  next
    case (Req_set_ex k d t)
    then show ?thesis using serve_set_ex_request [OF assms(1), of k d t _ sp rest] fits assms(3)
      by (simp add: dispatch_command_def set_ex_frame_reads command_handlers_simps)
  next
    case (Req_get k)
    then show ?thesis using serve_get_meets [OF assms(1), of k] fits assms(3)
      by (simp add: dispatch_command_def key_frame_reads command_handlers_simps serve_key_request)
  next
    case (Req_incr k)
    then show ?thesis using change_counter_meets [OF assms(1) change_ok_counters(1), of k] meets_error [OF assms(1)] fits assms(3)
      by (auto simp: dispatch_command_def key_frame_reads command_handlers_simps serve_key_request)
  next
    case (Req_decr k)
    then show ?thesis using change_counter_meets [OF assms(1) change_ok_counters(2), of k] fits assms(3)
      by (simp add: dispatch_command_def key_frame_reads command_handlers_simps serve_key_request)
  next
    case (Req_incr_by k t)
    then show ?thesis using serve_by_request [OF assms(1), where change = incr_by and k = k and t = t and cmd = CMD_INCR_BY and rest = rest] change_ok_counters(3) fits assms(3)
      by (simp add: dispatch_command_def pair_frame_reads command_handlers_simps handle_incr_by_command_def)
  next
    case (Req_decr_by k t)
    then show ?thesis using serve_by_request [OF assms(1), where change = decr_by and k = k and t = t and cmd = CMD_DECR_BY and rest = rest] change_ok_counters(4) fits assms(3)
      by (simp add: dispatch_command_def pair_frame_reads command_handlers_simps handle_decr_by_command_def)
  next
    case (Req_ping d)
    then show ?thesis using serve_ping_request [OF assms(1), of d rest] fits assms(3)
      by (simp add: dispatch_command_def key_frame_reads command_handlers_simps)
  next
    case (Req_del k)
    then show ?thesis using serve_del_meets [OF assms(1), of k] fits assms(3)
      by (simp add: dispatch_command_def key_frame_reads command_handlers_simps serve_key_request)
  next
    case (Req_expire k t)
    then show ?thesis using serve_expire_request [OF assms(1), of k t rest] fits assms(3)
      by (simp add: dispatch_command_def pair_frame_reads command_handlers_simps)
  next
    case (Req_ttl k)
    then show ?thesis using reply_ttl_meets [OF assms(1), of k] fits assms(3)
      by (simp add: dispatch_command_def key_frame_reads command_handlers_simps serve_key_request)
  next
    case (Req_persist k)
    then show ?thesis using serve_persist_meets [OF assms(1), of k] fits assms(3)
      by (simp add: dispatch_command_def key_frame_reads command_handlers_simps serve_key_request)
  qed (use assms(3) in simp_all)
qed

section \<open>Small states\<close>

definition idle_server :: server where
  "idle_server = \<lparr>sv_config_file_path = bytes_of_string ''server.conf'', sv_bind_address = None, sv_uds_socket_path = None,
     sv_metrics = \<lparr>ct_memory_usage = 0, ct_num_executed_commands = 0, ct_disconnected_clients = 0, ct_start_time = 0\<rparr>,
     sv_port = 5995, sv_fd = 3, sv_event_loop_max_events = 4096, sv_num_disconnected_clients = 0, sv_pid = 42,
     sv_num_clients = 1, sv_max_clients = 128, sv_socket_domain = TCP_IP, sv_event_dispatcher_kind = epoll_kind,
     sv_use_io_uring = False, sv_is_logging_enabled = False, sv_verbose = False, sv_show_logo = False,
     sv_daemonize = False, sv_owns_bind_address = False, sv_owns_uds_socket_path = False\<rparr>"

definition empty_ctx :: ctx where
  "empty_ctx = \<lparr>cx_client = fresh_client, cx_table = small_table, cx_expires = small_table,
     cx_server = idle_server, cx_env = quiet_env\<rparr>"

text \<open>The key "k" with the value "v", and the same with a deadline that has passed.\<close>

definition key_ctx :: ctx where
  "key_ctx = snd (table_set [107] [118] VALUE_ENTRY_TYPE_RAW empty_ctx)"

definition late_ctx :: ctx where
  "late_ctx = snd (expires_put [107] 5 key_ctx)"

lemma empty_ctx_ok: "ctx_inv empty_ctx" "cx_safe empty_ctx" "env_clock (cx_env empty_ctx) = []" "cx_now empty_ctx = 1000"
  "db_view empty_ctx = \<lparr>a_store = Map.empty, a_deadlines = Map.empty\<rparr>"
proof -
  have c: "clock_ok quiet_env" by (simp add: clock_ok_def reading_ok_def)
  show v: "db_view empty_ctx = \<lparr>a_store = Map.empty, a_deadlines = Map.empty\<rparr>"
    by (simp add: db_view_def empty_ctx_def small_table_empty deadlines_def fun_eq_iff)
  have "ctx_ok empty_ctx"
    using c by (simp add: ctx_ok_def empty_ctx_def store_inv_def expires_inv_def small_table_inv small_table_empty fresh_client_inv)
  then show "ctx_inv empty_ctx" by (simp add: ctx_inv_def v astate_inv_def)
  show "cx_safe empty_ctx" "env_clock (cx_env empty_ctx) = []" "cx_now empty_ctx = 1000"
    by (simp_all add: cx_safe_def empty_ctx_def cx_now_def fkvs_now_ms_def)
qed

lemma quiet_env_frozen: "quiet cx cx' \<Longrightarrow> env_clock (cx_env cx') = env_clock (cx_env cx) \<and> cx_now cx' = cx_now cx"
  by (auto simp: quiet_def cx_now_def)

lemma key_ctx_ok: "ctx_inv key_ctx" "cx_safe key_ctx" "env_clock (cx_env key_ctx) = []" "cx_now key_ctx = 1000"
  "db_view key_ctx = \<lparr>a_store = [[107] \<mapsto> [118]], a_deadlines = Map.empty\<rparr>" "cx_client key_ctx = fresh_client"
proof -
  have e: "value_encoding [118] = VALUE_ENTRY_TYPE_RAW"
    by (simp add: value_encoding_def fkvs_parse_i64_decimal_def)
  obtain ok cx where t: "table_set [107] [118] (value_encoding [118]) empty_ctx = (ok, cx)" by (meson surj_pair)
  have k: "key_ctx = cx" using t by (simp add: key_ctx_def e)
  have o: "ctx_ok empty_ctx" using empty_ctx_ok(1) by (simp add: ctx_inv_def)
  note r = table_set_ok [OF o t]
  have okk: "ok" "cx_safe cx" using r(3) empty_ctx_ok(2) by simp_all
  show v: "db_view key_ctx = \<lparr>a_store = [[107] \<mapsto> [118]], a_deadlines = Map.empty\<rparr>"
    using r(4) okk(1) k by (simp add: empty_ctx_ok(5))
  show "ctx_inv key_ctx" using r(1) k by (simp add: ctx_inv_def v astate_inv_def)
  show "cx_safe key_ctx" "env_clock (cx_env key_ctx) = []" "cx_now key_ctx = 1000" "cx_client key_ctx = fresh_client"
    using k okk r(2) quiet_env_frozen [of empty_ctx cx] empty_ctx_ok(3,4) quietD [of empty_ctx cx]
    by (simp_all add: empty_ctx_def)
qed

lemma late_ctx_ok: "ctx_inv late_ctx" "cx_safe late_ctx" "env_clock (cx_env late_ctx) = []" "cx_now late_ctx = 1000"
  "db_view late_ctx = \<lparr>a_store = [[107] \<mapsto> [118]], a_deadlines = [[107] \<mapsto> 5]\<rparr>" "cx_client late_ctx = fresh_client"
proof -
  obtain ok cx where t: "expires_put [107] 5 key_ctx = (ok, cx)" by (meson surj_pair)
  have k: "late_ctx = cx" using t by (simp add: late_ctx_def)
  have o: "ctx_ok key_ctx" using key_ctx_ok(1) by (simp add: ctx_inv_def)
  note r = expires_put_ok [OF o t]
  have okk: "ok" "cx_safe cx" using r(3) key_ctx_ok(2) by simp_all
  show v: "db_view late_ctx = \<lparr>a_store = [[107] \<mapsto> [118]], a_deadlines = [[107] \<mapsto> 5]\<rparr>"
    using r(4) okk(1) k by (simp add: key_ctx_ok(5))
  show "ctx_inv late_ctx" using r(1) k by (simp add: ctx_inv_def v astate_inv_def)
  show "cx_safe late_ctx" "env_clock (cx_env late_ctx) = []" "cx_now late_ctx = 1000" "cx_client late_ctx = fresh_client"
    using k okk r(2) quiet_env_frozen [of key_ctx cx] key_ctx_ok(3,4,6) quietD [of key_ctx cx] by simp_all
qed

end
