(* ===== verification/Keys_Listing.thy ===== *)
theory Keys_Listing
  imports Handler_Contracts
begin

text \<open>
  What KEYS lists.  While the clock stands still, the command lists every live key exactly
  once, numbered from 1, in the middle of a resize too, and removes the expired keys it
  meets.
\<close>

section \<open>The listing\<close>

fun listing :: "nat \<Rightarrow> bytes list \<Rightarrow> bytes" where
  "listing n [] = []"
| "listing n (k # ks) = dec_nat (n + 1) @ [41, 32] @ k @ [10] @ listing (n + 1) ks"

definition live_keys :: "ctx \<Rightarrow> chain \<Rightarrow> bytes list" where
  "live_keys cx c = filter (\<lambda>k. \<not> a_late k (cx_now cx) (db_view cx)) (map he_key c)"

definition late_keys :: "ctx \<Rightarrow> chain \<Rightarrow> bytes list" where
  "late_keys cx c = filter (\<lambda>k. a_late k (cx_now cx) (db_view cx)) (map he_key c)"

text \<open>The state after the keys of a list have been expired and memory was allocated.\<close>

definition shrunk :: "bytes list \<Rightarrow> ctx \<Rightarrow> ctx \<Rightarrow> bool" where
  "shrunk ls cx cx' \<longleftrightarrow> cx_client cx' = cx_client cx \<and> cx_table cx' = delete_all ls (cx_table cx)
     \<and> cx_expires cx' = delete_all ls (cx_expires cx)
     \<and> (\<exists>a. alloc_safe a \<and> cx_env cx' = (cx_env cx)\<lparr>env_allocs := a\<rparr>)"

definition frozen :: "ctx \<Rightarrow> bool" where
  "frozen cx \<longleftrightarrow> ctx_ok cx \<and> cx_safe cx \<and> env_clock (cx_env cx) = []"

lemma shrunk_refl: "frozen cx \<Longrightarrow> shrunk [] cx cx"
  by (auto simp: shrunk_def frozen_def cx_safe_def intro!: exI [of _ "env_allocs (cx_env cx)"])

lemma shrunk_trans: "shrunk ls a b \<Longrightarrow> shrunk ks b c \<Longrightarrow> shrunk (ls @ ks) a c"
  by (auto simp: shrunk_def)

lemma deadlines_restrict: "ht_map h' = ht_map h |` S \<Longrightarrow> deadlines h' = deadlines h |` S"
  by (auto simp: deadlines_def restrict_map_def fun_eq_iff)

lemma shrunk_view:
  assumes "frozen cx" and "shrunk ls cx cx'"
  shows "frozen cx'" and "cx_now cx' = cx_now cx"
    and "db_view cx' = \<lparr>a_store = a_store (db_view cx) |` (- set ls), a_deadlines = a_deadlines (db_view cx) |` (- set ls)\<rparr>"
proof -
  have i: "store_inv (cx_table cx)" "expires_inv (cx_expires cx)"
    using assms(1) by (auto simp: frozen_def ctx_ok_def)
  have t: "ht_inv (cx_table cx')" "ht_map (cx_table cx') = ht_map (cx_table cx) |` (- set ls)"
    and e: "ht_inv (cx_expires cx')" "ht_map (cx_expires cx') = ht_map (cx_expires cx) |` (- set ls)"
    using assms(2) i delete_all_ok by (auto simp: shrunk_def store_inv_def expires_inv_def)
  then have "store_inv (cx_table cx')" "expires_inv (cx_expires cx')"
    using i by (auto simp: store_inv_def expires_inv_def restrict_map_def split: if_splits)
  then show "frozen cx'" "cx_now cx' = cx_now cx"
    using assms by (auto simp: frozen_def ctx_ok_def shrunk_def clock_ok_def cx_safe_def cx_now_def fkvs_now_ms_def)
  show "db_view cx' = \<lparr>a_store = a_store (db_view cx) |` (- set ls), a_deadlines = a_deadlines (db_view cx) |` (- set ls)\<rparr>"
    using t(2) deadlines_restrict [OF e(2)] by (auto simp: db_view_def restrict_map_def fun_eq_iff)
qed

lemma shrunk_late:
  assumes "frozen cx" and "shrunk ls cx cx'" and "k \<notin> set ls"
  shows "a_late k (cx_now cx') (db_view cx') = a_late k (cx_now cx) (db_view cx)"
  using shrunk_view [OF assms(1,2)] assms(3) by (simp add: a_late_def)

lemma shrunk_keys:
  assumes "frozen cx" and "shrunk ls cx cx'" and "set ls \<inter> he_key ` set c = {}"
  shows "live_keys cx' c = live_keys cx c" and "late_keys cx' c = late_keys cx c"
proof -
  have "a_late k (cx_now cx') (db_view cx') = a_late k (cx_now cx) (db_view cx)" if "k \<in> set (map he_key c)" for k
    by (rule shrunk_late [OF assms(1,2)]) (use assms(3) that in auto)
  then show "live_keys cx' c = live_keys cx c" "late_keys cx' c = late_keys cx c"
    unfolding live_keys_def late_keys_def by (auto intro!: filter_cong simp del: set_map)
qed

section \<open>One chain\<close>

lemma check_and_expire_frozen:
  assumes "frozen cx" and "check_and_expire k cx = (late, cx')"
  shows "late = a_late k (cx_now cx) (db_view cx)" and "shrunk (if late then [k] else []) cx cx'"
proof -
  have ok: "ctx_ok cx" and cl: "env_clock (cx_env cx) = []" using assms(1) by (auto simp: frozen_def)
  show l: "late = a_late k (cx_now cx) (db_view cx)" by (rule check_and_expire_ok(4) [OF ok assms(2)])
  have "is_expired (cx_expires cx) k (cx_env cx) = (late, cx_env cx)"
    using get_deadline_abs [OF ok, of k] cl l
    by (auto simp: is_expired_def a_late_def cx_now_def fkvs_now_ms_def split: option.split)
  then show "shrunk (if late then [k] else []) cx cx'"
    using assms shrunk_refl
    by (auto simp: check_and_expire_def table_delete_def expires_delete_def shrunk_def frozen_def cx_safe_def
        intro!: exI [of _ "env_allocs (cx_env cx)"])
qed

lemma keys_reserve_frozen:
  assumes "frozen cx" and "keys_reserve needed capacity cx = (r, cx')"
  shows "\<exists>capacity'. r = Some capacity'" and "shrunk [] cx cx'"
proof -
  obtain ok cx1 where m: "cx_malloc cx = (ok, cx1)" by (meson surj_pair)
  have "ok" "shrunk [] cx cx1"
    using assms(1) m alloc_safeD [of "env_allocs (cx_env cx)"]
    by (auto simp: cx_malloc_def env_alloc_def frozen_def cx_safe_def shrunk_def split: prod.splits)
  then show "\<exists>capacity'. r = Some capacity'" "shrunk [] cx cx'"
    using assms m shrunk_refl [OF assms(1)] by (auto simp: keys_reserve_def Let_def split: if_splits)
qed

lemma length_number: "n \<le> 65500 \<Longrightarrow> length (dec_nat (n + 1)) < 10"
  using length_dec_nat [of "n + 1" 9] by simp

lemma keys_chain_lists:
  assumes "frozen cx" and "distinct (map he_key c)" and "cnt \<le> length buf" and "length buf \<le> keys_max_output"
  defines "out \<equiv> buf @ listing cnt (live_keys cx c)"
  shows "if length out \<le> keys_max_output
    then \<exists>cap' cx'. keys_chain c buf cnt cap cx = (Some (out, cnt + length (live_keys cx c), cap'), cx')
           \<and> shrunk (late_keys cx c) cx cx'
    else \<exists>cx'. keys_chain c buf cnt cap cx = (None, cx')"
  using assms(1-4) unfolding out_def
proof (induction c arbitrary: buf cnt cap cx)
  case Nil
  then show ?case using shrunk_refl by (simp add: live_keys_def late_keys_def)
next
  case (Cons en c)
  obtain late cx1 where ce: "check_and_expire (he_key en) cx = (late, cx1)" by (meson surj_pair)
  note c1 = check_and_expire_frozen [OF Cons.prems(1) ce]
  note v1 = shrunk_view [OF Cons.prems(1) c1(2)]
  have same: "live_keys cx' c = live_keys cx c" "late_keys cx' c = late_keys cx c"
    if "shrunk (if late then [he_key en] else []) cx cx'" for cx'
    using shrunk_keys [OF Cons.prems(1) that, of c] Cons.prems(2) by auto
  show ?case
  proof (cases late)
    case True
    then have k: "live_keys cx (en # c) = live_keys cx c" "late_keys cx (en # c) = he_key en # late_keys cx c"
      using c1(1) by (simp_all add: live_keys_def late_keys_def)
    have r: "keys_chain (en # c) buf cnt cap cx = keys_chain c buf cnt cap cx1" using ce True by simp
    have "shrunk (he_key en # late_keys cx c) cx cx'" if "shrunk (late_keys cx c) cx1 cx'" for cx'
      using shrunk_trans [OF c1(2) that] True by simp
    then show ?thesis unfolding r k
      using Cons.IH [of cx1 cnt buf cap] v1(1) Cons.prems(2-4) same [OF c1(2)] by (fastforce split: if_splits)
  next
    case False
    let ?num = "dec_nat (cnt + 1) @ [41, 32]"
    let ?buf = "buf @ ?num @ he_key en @ [10]"
    let ?line = "length ?num + length (he_key en) + 1"
    have k: "live_keys cx (en # c) = he_key en # live_keys cx c" "late_keys cx (en # c) = late_keys cx c"
      using c1(1) False by (simp_all add: live_keys_def late_keys_def)
    have num: "length ?num < 24" using length_number [of cnt] Cons.prems(3,4) by simp
    obtain q cx2 where kr: "keys_reserve (length buf + ?line) cap cx1 = (q, cx2)" by (meson surj_pair)
    note kr' = keys_reserve_frozen [OF v1(1) kr]
    obtain cap2 where q: "q = Some cap2" using kr'(1) by blast
    have s2: "shrunk [] cx cx2" using shrunk_trans [OF c1(2) kr'(2)] False by simp
    have r: "keys_chain (en # c) buf cnt cap cx =
        (if ?line > keys_max_output - length buf then (None, cx1) else keys_chain c ?buf (cnt + 1) cap2 cx2)"
      using ce False num kr q by (simp add: Let_def)
    show ?thesis
    proof (cases "?line > keys_max_output - length buf")
      case True
      then show ?thesis unfolding r k by auto
    next
      case fits: False
      have len: "length ?buf \<le> keys_max_output" "cnt + 1 \<le> length ?buf" using fits Cons.prems(3,4) by auto
      have sm: "live_keys cx2 c = live_keys cx c" "late_keys cx2 c = late_keys cx c"
        using same [of cx2] s2 False by auto
      have fr2: "frozen cx2" by (rule shrunk_view(1) [OF Cons.prems(1) s2])
      have tr: "shrunk (late_keys cx c) cx cx'" if "shrunk (late_keys cx c) cx2 cx'" for cx'
        using shrunk_trans [OF s2 that] by simp
      note IH = Cons.IH [OF fr2 _ len(2,1), of cap2, unfolded sm]
      have dc: "distinct (map he_key c)" using Cons.prems(2) by simp
      have "keys_chain (en # c) buf cnt cap cx = keys_chain c ?buf (cnt + 1) cap2 cx2" using r fits by simp
      then show ?thesis unfolding k using IH [OF dc] tr by (fastforce split: if_splits)
    qed
  qed
qed

section \<open>Every bucket of both arrays\<close>

lemma listing_append: "listing n (ks @ ls) = listing n ks @ listing (n + length ks) ls"
  by (induction ks arbitrary: n) simp_all

lemma length_listing: "n \<le> m \<Longrightarrow> n + length ks \<le> m + length (listing n ks)"
proof (induction ks arbitrary: n m)
  case (Cons k ks)
  have "n + 1 + length ks \<le> m + 1 + length (listing (n + 1) ks)" using Cons.IH [of "n + 1" "m + 1"] Cons.prems by simp
  then show ?case by simp
qed simp

definition chain_at :: "hashtable \<Rightarrow> nat \<times> nat \<Rightarrow> chain" where
  "chain_at h p = st_bucket (ht_sub h (fst p)) (snd p)"

definition linear :: "hashtable \<Rightarrow> nat \<times> nat \<Rightarrow> nat" where
  "linear h p = (if fst p = 0 then snd p else st_size (ht_sub0 h) + snd p)"

definition in_space :: "hashtable \<Rightarrow> nat \<times> nat \<Rightarrow> bool" where
  "in_space h p \<longleftrightarrow> fst p < 2 \<and> snd p < st_size (ht_sub h (fst p))"

lemma chain_at_linear:
  assumes "in_space h p"
  shows "chain_at h p = bucket_at h (linear h p)" and "linear h p < bucket_total h"
  using assms by (auto simp: in_space_def chain_at_def linear_def bucket_at_def bucket_total_def ht_sub_def less_2_cases_iff split: if_splits)

lemma linear_inj: "in_space h p \<Longrightarrow> in_space h q \<Longrightarrow> linear h p = linear h q \<Longrightarrow> p = q"
  by (auto simp: in_space_def linear_def ht_sub_def less_2_cases_iff prod_eq_iff split: if_splits)

lemma delete_sizes:
  assumes "ht_inv h"
  shows "st_size (ht_sub (delete_all ls h) t) = st_size (ht_sub h t)"
  using assms
proof (induction ls arbitrary: h)
  case (Cons k ls)
  have "st_size (ht_sub (snd (delete_value h k)) t) = st_size (ht_sub h t)"
    by (auto simp: delete_value_eq [OF Cons.prems] put_chain_def ht_set_sub_def ht_sub_def split: option.split)
  then show ?case using Cons.IH [OF delete_one(1) [OF Cons.prems], of k] by simp
qed simp

text \<open>Expiring keys of one chain leaves every other chain as it is.\<close>

lemma chain_at_delete_other:
  assumes "ht_inv h" and "in_space h p" and "in_space h q" and "p \<noteq> q" and "set ls \<subseteq> he_key ` set (chain_at h p)"
  shows "in_space (delete_all ls h) q" and "chain_at (delete_all ls h) q = chain_at h q"
    and "set ls \<inter> he_key ` set (chain_at h q) = {}"
proof -
  note lp = chain_at_linear [OF assms(2)] and lq = chain_at_linear [OF assms(3)]
  have ne: "linear h p \<noteq> linear h q" using linear_inj [OF assms(2,3)] assms(4) by blast
  have "k \<notin> he_key ` set (chain_at h q)" if "k \<in> set ls" for k
  proof
    assume "k \<in> he_key ` set (chain_at h q)"
    then have "k \<in> he_key ` set (bucket_at h (linear h q))" by (simp only: lq(1))
    moreover have "k \<in> he_key ` set (bucket_at h (linear h p))" using that assms(5) by (auto simp only: lp(1))
    ultimately show False using bucket_at_entries(3) [OF assms(1) lp(2) lq(2)] ne by simp
  qed
  then show disj: "set ls \<inter> he_key ` set (chain_at h q) = {}" by blast
  show sp: "in_space (delete_all ls h) q"
    using assms(3) delete_sizes [OF assms(1)] by (simp add: in_space_def)
  have "linear (delete_all ls h) q = linear h q"
    using delete_sizes [OF assms(1), of ls 0] by (simp add: linear_def ht_sub_def)
  then have "chain_at (delete_all ls h) q = filter (\<lambda>e. he_key e \<notin> set ls) (chain_at h q)"
    using chain_at_linear(1) [OF sp] bucket_at_delete_all [OF assms(1) lq(2), of ls] lq(1) by simp
  also have "\<dots> = chain_at h q" using disj by (auto simp: filter_id_conv)
  finally show "chain_at (delete_all ls h) q = chain_at h q" .
qed

lemma live_keys_append: "live_keys cx (a @ b) = live_keys cx a @ live_keys cx b"
  and late_keys_append: "late_keys cx (a @ b) = late_keys cx a @ late_keys cx b"
  by (simp_all add: live_keys_def late_keys_def)

lemma keys_buckets_lists:
  assumes "frozen cx" and "distinct ps" and "\<forall>p \<in> set ps. in_space (cx_table cx) p"
    and "cnt \<le> length buf" and "length buf \<le> keys_max_output"
  defines "ks \<equiv> live_keys cx (concat (map (chain_at (cx_table cx)) ps))"
  defines "out \<equiv> buf @ listing cnt ks"
  shows "if length out \<le> keys_max_output
    then \<exists>cap' cx'. keys_buckets ps buf cnt cap cx = (Some (out, cnt + length ks, cap'), cx')
           \<and> shrunk (late_keys cx (concat (map (chain_at (cx_table cx)) ps))) cx cx'
    else \<exists>cx'. keys_buckets ps buf cnt cap cx = (None, cx')"
  using assms(1-5) unfolding out_def ks_def
proof (induction ps arbitrary: buf cnt cap cx)
  case Nil
  then show ?case using shrunk_refl by (simp add: live_keys_def late_keys_def)
next
  case (Cons p ps)
  let ?h = "cx_table cx" and ?c = "chain_at (cx_table cx) p"
  let ?rest = "concat (map (chain_at (cx_table cx)) ps)"
  let ?out1 = "buf @ listing cnt (live_keys cx ?c)" and ?n1 = "cnt + length (live_keys cx ?c)"
  have inv: "ht_inv ?h" using Cons.prems(1) by (simp add: frozen_def ctx_ok_def store_inv_def)
  have sp: "in_space ?h p" using Cons.prems(3) by simp
  note lp = chain_at_linear [OF sp]
  have dc: "distinct (map he_key ?c)" using bucket_at_entries(2) [OF inv lp(2)] lp(1) by simp
  note kc = keys_chain_lists [OF Cons.prems(1) dc Cons.prems(4,5), of cap]
  obtain t i where p: "p = (t, i)" by (meson surj_pair)
  have at: "st_bucket (ht_sub ?h t) i = ?c" by (simp add: chain_at_def p)
  have out: "buf @ listing cnt (live_keys cx (concat (map (chain_at ?h) (p # ps)))) =
      ?out1 @ listing ?n1 (live_keys cx ?rest)"
    by (simp add: live_keys_append listing_append)
  show ?case
  proof (cases "length ?out1 \<le> keys_max_output")
    case False
    then obtain cx' where "keys_chain ?c buf cnt cap cx = (None, cx')" using kc by auto
    then show ?thesis unfolding out using False by (simp add: p at)
  next
    case True
    then obtain cap1 cx1 where k1: "keys_chain ?c buf cnt cap cx = (Some (?out1, ?n1, cap1), cx1)"
      "shrunk (late_keys cx ?c) cx cx1" using kc by auto
    have fr1: "frozen cx1" by (rule shrunk_view(1) [OF Cons.prems(1) k1(2)])
    have h1: "cx_table cx1 = delete_all (late_keys cx ?c) ?h" using k1(2) by (simp add: shrunk_def)
    have sub: "set (late_keys cx ?c) \<subseteq> he_key ` set ?c" by (auto simp: late_keys_def)
    have other: "in_space (cx_table cx1) q" "chain_at (cx_table cx1) q = chain_at ?h q"
      "set (late_keys cx ?c) \<inter> he_key ` set (chain_at ?h q) = {}" if "q \<in> set ps" for q
      using chain_at_delete_other [OF inv sp _ _ sub, of q] Cons.prems(2,3) that by (auto simp: h1)
    have rest: "concat (map (chain_at (cx_table cx1)) ps) = ?rest"
      using other(2) by (simp cong: map_cong)
    have "set (late_keys cx ?c) \<inter> he_key ` set ?rest = {}" using other(3) by auto
    note same = shrunk_keys [OF Cons.prems(1) k1(2) this]
    have n1: "?n1 \<le> length ?out1" using length_listing [OF Cons.prems(4)] by simp
    have sps: "\<forall>q \<in> set ps. in_space (cx_table cx1) q" using other(1) by blast
    have dps: "distinct ps" using Cons.prems(2) by simp
    note IH = Cons.IH [OF fr1 dps sps n1 True, of cap1, unfolded rest same]
    have r: "keys_buckets (p # ps) buf cnt cap cx = keys_buckets ps ?out1 ?n1 cap1 cx1"
      using k1(1) by (simp add: p at)
    have tr: "shrunk (late_keys cx (concat (map (chain_at ?h) (p # ps)))) cx cx'"
      if "shrunk (late_keys cx ?rest) cx1 cx'" for cx'
      using shrunk_trans [OF k1(2) that] by (simp add: late_keys_append)
    have len: "length (live_keys cx (concat (map (chain_at ?h) (p # ps)))) = length (live_keys cx ?c) + length (live_keys cx ?rest)"
      by (simp add: live_keys_append)
    show ?thesis unfolding out r len
      using IH tr by (auto simp: add.assoc split: if_splits)
  qed
qed

text \<open>The positions KEYS visits are all of them.\<close>

lemma keys_positions_all:
  assumes "ht_inv h"
  shows "concat (map (chain_at h) (keys_positions h)) = ht_entries h" and "distinct (keys_positions h)"
    and "\<forall>p \<in> set (keys_positions h). in_space h p"
proof -
  have e: "st_buckets s = None \<Longrightarrow> st_array s = []" for s by (simp add: st_array_def)
  have l0: "length (st_array (ht_sub0 h)) = st_size (ht_sub0 h)" by (rule live_subD(2) [OF ht_invD(1) [OF assms]])
  have l1: "length (st_array (ht_sub1 h)) = st_size (ht_sub1 h)"
  proof (cases "is_rehashing h")
    case True
    then show ?thesis by (intro live_subD(2) ht_invD(2) [OF assms])
  next
    case False
    then show ?thesis using ht_invD(3) [OF assms] by simp
  qed
  have l: "length (st_array (ht_sub h t)) = st_size (ht_sub h t)" if "t < 2" for t
    using l0 l1 that by (simp add: ht_sub_def)
  have "concat (map (chain_at h) (map (Pair t) [0..<st_size (ht_sub h t)])) = sub_entries (ht_sub h t)" if "t < 2" for t
  proof -
    have "map (chain_at h) (map (Pair t) [0..<st_size (ht_sub h t)]) = map (nth (st_array (ht_sub h t))) [0..<length (st_array (ht_sub h t))]"
      using l [OF that] by (simp add: chain_at_def st_bucket_def)
    then show ?thesis by (simp only: map_nth sub_entries_def)
  qed
  then have c: "concat (map (chain_at h) (if st_buckets (ht_sub h t) = None then [] else map (Pair t) [0..<st_size (ht_sub h t)])) =
      sub_entries (ht_sub h t)" if "t < 2" for t
    using that e [of "ht_sub h t"] by (simp add: sub_entries_def)
  have "concat (map (chain_at h) (keys_positions h)) = sub_entries (ht_sub h 0) @ sub_entries (ht_sub h 1)"
    unfolding keys_positions_def by (simp only: list.map concat.simps map_append concat_append c [of 0, simplified] append_Nil2) 
      (use c [of 0] c [of 1] in simp)
  then show "concat (map (chain_at h) (keys_positions h)) = ht_entries h"
    by (simp add: ht_entries_def ht_sub_def)
  show "distinct (keys_positions h)" "\<forall>p \<in> set (keys_positions h). in_space h p"
    by (auto simp: keys_positions_def in_space_def distinct_map inj_on_def split: if_splits)
qed

section \<open>The command\<close>

definition live :: "ctx \<Rightarrow> bytes set" where
  "live cx = {k \<in> dom (a_store (db_view cx)). \<not> a_late k (cx_now cx) (db_view cx)}"

lemma stored_keys: "he_key ` set (ht_entries (cx_table cx)) = dom (a_store (db_view cx))"
proof -
  have "dom (ht_map (cx_table cx)) = he_key ` set (ht_entries (cx_table cx))"
    by (auto simp: ht_map_def dom_map_of_conv_image_fst image_image)
  moreover have "dom (a_store (db_view cx)) = dom (ht_map (cx_table cx))" by (simp add: db_view_def dom_def)
  ultimately show ?thesis by simp
qed

lemma list_keys_exact:
  assumes "frozen cx"
  defines "ks \<equiv> live_keys cx (ht_entries (cx_table cx))"
  shows "distinct ks" and "set ks = live cx"
    and "length (listing 0 ks) \<le> keys_max_output \<Longrightarrow>
      \<exists>cx'. shrunk (late_keys cx (ht_entries (cx_table cx))) cx cx'
        \<and> list_keys cx = cx_send (send_keys_reply (butlast (listing 0 ks))) cx'"
    and "\<not> length (listing 0 ks) \<le> keys_max_output \<Longrightarrow> \<exists>cx'. settles cx cx' \<and> list_keys cx = cx_send send_error cx'"
proof -
  have inv: "ht_inv (cx_table cx)" and ok: "ctx_ok cx" using assms(1) by (auto simp: frozen_def ctx_ok_def store_inv_def)
  show "distinct ks" using ht_invD(4) [OF inv] by (simp add: ks_def live_keys_def)
  show "set ks = live cx" using stored_keys [of cx] by (auto simp: ks_def live_keys_def live_def)
  obtain okm cx1 where m: "cx_malloc cx = (okm, cx1)" by (meson surj_pair)
  have s1: "shrunk [] cx cx1" and okm
    using assms(1) m alloc_safeD [of "env_allocs (cx_env cx)"]
    by (auto simp: cx_malloc_def env_alloc_def frozen_def cx_safe_def shrunk_def split: prod.splits)
  have t1: "cx_table cx1 = cx_table cx" using s1 by (simp add: shrunk_def)
  have fr1: "frozen cx1" by (rule shrunk_view(1) [OF assms(1) s1])
  note same = shrunk_keys [OF assms(1) s1, of "ht_entries (cx_table cx)", simplified]
  note kp = keys_positions_all [OF inv]
  note kb = keys_buckets_lists [OF fr1 kp(2), unfolded t1, OF kp(3), of 0 "[]" 4096, simplified, unfolded kp(1) same,
      folded ks_def, simplified]
  show "\<exists>cx'. shrunk (late_keys cx (ht_entries (cx_table cx))) cx cx'
        \<and> list_keys cx = cx_send (send_keys_reply (butlast (listing 0 ks))) cx'"
    if fit: "length (listing 0 ks) \<le> keys_max_output"
  proof -
    obtain cap' cx' where r: "keys_buckets (keys_positions (cx_table cx)) [] 0 4096 cx1 = (Some (listing 0 ks, length ks, cap'), cx')"
      "shrunk (late_keys cx (ht_entries (cx_table cx))) cx1 cx'" using kb fit by auto
    have "list_keys cx = cx_send (send_keys_reply (butlast (listing 0 ks))) cx'"
      using m \<open>okm\<close> r(1) t1 by (auto simp: list_keys_def butlast_conv_take)
    then show ?thesis using shrunk_trans [OF s1 r(2)] by auto
  qed
  show "\<exists>cx'. settles cx cx' \<and> list_keys cx = cx_send send_error cx'" if fit: "\<not> length (listing 0 ks) \<le> keys_max_output"
  proof -
    obtain cx' where r: "keys_buckets (keys_positions (cx_table cx)) [] 0 4096 cx1 = (None, cx')" using kb fit by auto
    have "settles cx cx'"
      using settles_trans [OF cx_malloc_ok(1) [OF ok m] settles_keys_buckets [OF _ r]] fr1 by (simp add: frozen_def)
    moreover have "list_keys cx = cx_send send_error cx'" using m \<open>okm\<close> r t1 by (simp add: list_keys_def)
    ultimately show ?thesis by blast
  qed
qed

text \<open>C13: KEYS is exact.  While the clock stands still and no allocation fails, the reply to
  KEYS lists every key that is stored and not expired exactly once, numbered in order, also
  while a resize has spread the keys over two bucket arrays; the expired keys are removed
  and every other key stays.  When the listing would exceed 65500 bytes the reply is an
  error.\<close>

theorem keys_lists_live_keys:
  assumes "ctx_inv cx" and "cx_safe cx" and "env_clock (cx_env cx) = []"
  shows "\<exists>ks cx'. dispatch_command command_handlers (request_frame Req_keys @ rest) 3 cx = Some cx' \<and> ctx_inv cx'
    \<and> distinct ks \<and> set ks = live cx
    \<and> (if length (listing 0 ks) \<le> 65500
        then replies (Resp_keys (butlast (listing 0 ks))) (cx_client cx) (cx_client cx')
          \<and> a_store (db_view cx') = a_store (db_view cx) |` live cx
        else replies Resp_error (cx_client cx) (cx_client cx'))"
proof -
  let ?ks = "live_keys cx (ht_entries (cx_table cx))" and ?ls = "late_keys cx (ht_entries (cx_table cx))"
  have fr: "frozen cx" and ok: "ctx_ok cx" using assms by (auto simp: frozen_def ctx_inv_def)
  note k = list_keys_exact [OF fr]
  have h: "handle_keys_command (request_frame Req_keys @ rest) 3 cx = Some (list_keys cx)"
    by (simp add: handle_keys_command_def bare_frame_reads)
  then have d: "dispatch_command command_handlers (request_frame Req_keys @ rest) 3 cx = Some (list_keys cx)"
    by (simp add: dispatch_command_def bare_frame_reads command_handlers_simps)
  have inv: "ctx_inv (list_keys cx)" by (rule hkeys.handler_inv(1) [OF assms(1) h])
  have "if length (listing 0 ?ks) \<le> 65500
        then replies (Resp_keys (butlast (listing 0 ?ks))) (cx_client cx) (cx_client (list_keys cx))
          \<and> a_store (db_view (list_keys cx)) = a_store (db_view cx) |` live cx
        else replies Resp_error (cx_client cx) (cx_client (list_keys cx))"
  proof (cases "length (listing 0 ?ks) \<le> 65500")
    case True
    then obtain cx' where r: "shrunk ?ls cx cx'" "list_keys cx = cx_send (send_keys_reply (butlast (listing 0 ?ks))) cx'"
      using k(3) by blast
    note v = shrunk_view [OF fr r(1)]
    have ok': "ctx_ok cx'" using v(1) by (simp add: frozen_def)
    have resp: "responds (Resp_keys (butlast (listing 0 ?ks))) cx' (list_keys cx)"
      unfolding r(2) by (rule cx_send_responds(4) [OF ok'])
    have "set ?ls = dom (a_store (db_view cx)) - live cx"
      using stored_keys [of cx] by (auto simp: late_keys_def live_def)
    then have "a_store (db_view cx) |` (- set ?ls) = a_store (db_view cx) |` live cx"
      by (auto simp: restrict_map_def fun_eq_iff live_def)
    then show ?thesis
      using True respondsD(2) [OF ok' resp] v(3) resp r(1) by (simp add: responds_def shrunk_def)
  next
    case False
    then obtain cx' where r: "settles cx cx'" "list_keys cx = cx_send send_error cx'" using k(4) by blast
    then have "responds Resp_error cx' (list_keys cx)" using cx_send_responds(1) [of cx'] by (simp add: settles_def)
    then show ?thesis using False r(1) by (simp add: responds_def settles_def)
  qed
  then show ?thesis using d inv k(1,2) by blast
qed

theorem keys_lists_live_keys_witness:
  "\<exists>ks cx'. dispatch_command command_handlers (request_frame Req_keys @ []) 3 key_ctx = Some cx'
     \<and> set ks = {[107 :: byte]} \<and> length ks = 1 \<and> ctx_inv cx'"
proof -
  have l: "live key_ctx = {[107]}"
    unfolding live_def key_ctx_ok(5) by (simp add: a_late_def)
  from keys_lists_live_keys [OF key_ctx_ok(1,2,3), of "[]"] obtain ks cx' where
    k: "dispatch_command command_handlers (request_frame Req_keys @ []) 3 key_ctx = Some cx'"
      "ctx_inv cx'" "distinct ks" "set ks = live key_ctx"
    by (elim exE conjE)
  have "length ks = 1" using distinct_card [OF k(3)] by (simp only: k(4) l) simp
  with k(1,2) k(4) [unfolded l] show ?thesis by (intro exI conjI)
qed

end
