(* ===== verification/Handler_Properties.thy ===== *)
theory Handler_Properties
  imports Keys_Listing
begin

text \<open>
  What the commands guarantee, stated of the dispatcher and of the frames that clients
  build, and the cases in which the handlers do less than they should.
\<close>

section \<open>The commands refine an abstract database\<close>

abbreviation serve :: "request \<Rightarrow> ctx \<Rightarrow> ctx option" where
  "serve r cx \<equiv> dispatch_command command_handlers (request_frame r) (length (request_frame r)) cx"

lemma serve_spec:
  assumes "ctx_inv cx" and "cx_safe cx" and "request_fits r"
    and "spec_step r (cx_now cx) (cx_later cx) (db_view cx) = Some (resp, s)"
  shows "\<exists>cx'. dispatch_command command_handlers (request_frame r @ rest) (length (request_frame r)) cx = Some cx'
    \<and> ctx_inv cx' \<and> cx_safe cx' \<and> db_view cx' = s \<and> replies resp (cx_client cx) (cx_client cx')"
proof -
  have ok: "ctx_ok cx" using assms(1) by (simp add: ctx_inv_def)
  from serve_request [OF ok assms(3,4), of rest] show ?thesis
    using assms(1,2) by (auto simp: meets_def outcome_def ctx_inv_def)
qed

lemmas serve_exact = serve_spec [where rest = "[]", unfolded append_Nil2]

text \<open>C2: Every request is served as specified.  The frame a client builds for any request but
  INFO and KEYS, followed by any bytes, makes the dispatcher return, keep the invariant of
  the server, change the database exactly as the abstract command does and queue exactly
  the abstract command's reply, whenever no allocation fails.\<close>

theorem request_served_as_specified:
  assumes "ctx_inv cx" and "cx_safe cx" and "request_fits r" and "construct r a = (Some frame, a')"
    and "spec_step r (cx_now cx) (cx_later cx) (db_view cx) = Some (resp, s)"
  shows "\<exists>cx'. dispatch_command command_handlers (frame @ rest) (length frame) cx = Some cx'
    \<and> ctx_inv cx' \<and> cx_safe cx' \<and> db_view cx' = s \<and> replies resp (cx_client cx) (cx_client cx')"
proof -
  have "frame = request_frame r"
    using assms(4) by (auto simp: construct_frame malloc_frame_def split: prod.splits if_splits)
  then show ?thesis using serve_spec [OF assms(1-3,5)] by simp
qed

theorem request_served_as_specified_witness:
  "\<exists>cx'. dispatch_command command_handlers ([0, 4, 2, 0, 1, 107] @ [7]) 6 key_ctx = Some cx'
    \<and> ctx_inv cx' \<and> replies (Resp_value [118]) fresh_client (cx_client cx')"
proof -
  have c: "construct (Req_get [107]) [] = (Some [0, 4, 2, 0, 1, 107], [])"
    unfolding construct_frame by (simp add: malloc_frame_def key_frame_def put_u16_def drop_bit_eq_div)
  have s: "spec_step (Req_get [107]) (cx_now key_ctx) (cx_later key_ctx) (db_view key_ctx) =
      Some (Resp_value [118], db_view key_ctx)"
    by (simp add: spec_get_def key_ctx_ok a_expire_def a_late_def)
  have "request_fits (Req_get [107])" by (simp add: request_fits_def)
  moreover have "length [0, 4, 2, 0, 1, 107 :: byte] = 6" by simp
  ultimately show ?thesis
    using request_served_as_specified [OF key_ctx_ok(1,2) _ c s, of "[7]"] by (metis key_ctx_ok(6))
qed



section \<open>What the handlers read\<close>

definition framed_commands :: "byte list" where
  "framed_commands = [CMD_SET, CMD_INCR_BY, CMD_DECR_BY, CMD_PING, CMD_INFO, CMD_EXPIRE, CMD_KEYS]"

text \<open>C27: SET, INCRBY, DECRBY, PING, INFO, EXPIRE and KEYS never read outside their frame: for
  any bytes in it they return, and what they do does not depend on what follows it in the
  read buffer.\<close>

theorem framed_handlers_stay_inside:
  assumes "cmd \<in> set framed_commands" and "command_handlers cmd = Some f" and "n \<le> length buf"
  shows "f buf n cx \<noteq> None \<and> f buf n cx = f (take n buf) n cx"
proof -
  have "framed_handler f" using assms(1,2)
    by (auto simp: framed_commands_def command_handlers_simps
        intro: hset.framed_handler_axioms hincr_by.framed_handler_axioms hdecr_by.framed_handler_axioms
          hping.framed_handler_axioms hinfo.framed_handler_axioms hexpire.framed_handler_axioms
          hkeys.framed_handler_axioms)
  then show ?thesis using framed_handler.handler_no_fault framed_handler.handler_local assms(3) by blast
qed

theorem framed_handlers_stay_inside_witness:
  "handle_set_command [0, 9, 1, 255, 255, 1] 6 empty_ctx \<noteq> None"
  using framed_handlers_stay_inside [of CMD_SET handle_set_command 6 "[0, 9, 1, 255, 255, 1]" empty_ctx]
  by (simp add: framed_commands_def command_handlers_simps)

definition unchecked_commands :: "byte list" where
  "unchecked_commands = [CMD_GET, CMD_INCR, CMD_DECR, CMD_DEL, CMD_TTL, CMD_PERSIST]"

text \<open>C28: GET, INCR, DECR, DEL, TTL and PERSIST do not check the key length against the frame:
  a frame of five bytes that announces a key of 65535 makes them read past the end of the
  client's 65536-byte read buffer, wherever in it the frame lies.\<close>

theorem key_length_unchecked:
  assumes "cmd \<in> set unchecked_commands" and "length rest \<le> FKVS_CLIENT_READ_BUFFER_SIZE - 5"
  shows "dispatch_command command_handlers ([0, 3, cmd, 255, 255] @ rest) 5 cx = None"
proof -
  define buf where "buf = [0, 3, cmd, 255, 255] @ rest"
  have b: "rd buf 2 = Some cmd" "rd_u16 buf 0 = Some 3" "rd_u16 buf 3 = Some 65535" "slice buf 5 65535 = None"
    using assms(2) by (simp_all add: buf_def rd_def rd_u16_def slice_def get_u16_arith)
  have "dispatch_command command_handlers buf 5 cx = None"
    using assms(1) b unfolding unchecked_commands_def dispatch_command_def
    by (auto simp: command_handlers_simps handle_get_command_def handle_incr_command_def handle_decr_command_def
        handle_del_command_def handle_ttl_command_def handle_persist_command_def)
  then show ?thesis by (simp add: buf_def)
qed

theorem key_length_unchecked_witness:
  "dispatch_command command_handlers ([0, 3, 2, 255, 255] @ [1, 2, 3]) 5 empty_ctx = None"
  using key_length_unchecked [of CMD_GET "[1, 2, 3]" empty_ctx] by (simp add: unchecked_commands_def)

text \<open>A DEL frame of five bytes deletes a key it does not contain: with a key length the
  frame has no room for, the key is taken from the bytes that follow the frame in the read
  buffer.\<close>

lemma del_uses_bytes_behind_frame:
  assumes "ctx_inv cx" and "length k \<le> UINT16_MAX"
  shows "\<exists>cx'. dispatch_command command_handlers (([0, 3, CMD_DEL] @ put_u16 (length k)) @ k @ rest) 5 cx = Some cx'
    \<and> db_view cx' = a_remove k (db_view cx) \<and> replies Resp_ok (cx_client cx) (cx_client cx')"
proof -
  define buf where "buf = ([0, 3, CMD_DEL] @ put_u16 (length k)) @ k @ rest"
  have ok: "ctx_ok cx" using assms(1) by (simp add: ctx_inv_def)
  have b: "rd_u16 buf 0 = Some 3" "rd buf 2 = Some CMD_DEL"
    by (simp_all add: buf_def rd_u16_def rd_def get_u16_arith)
  have "buf = [0, 3, CMD_DEL] @ put_u16 (length k) @ k @ rest" by (simp add: buf_def)
  then have l: "rd_u16 buf 3 = Some (length k)"
    using assms(2) by (simp only:) (rule rd_u16_put, simp_all)
  have k: "slice buf 5 (length k) = Some k" unfolding buf_def by (rule slice_mid) simp_all
  have "dispatch_command command_handlers buf 5 cx = Some (serve_del k cx)"
    using b l k by (simp add: dispatch_command_def command_handlers_simps handle_del_command_def)
  moreover have "db_view (serve_del k cx) = a_remove k (db_view cx) \<and> replies Resp_ok (cx_client cx) (cx_client (serve_del k cx))"
  proof -
    note t = table_delete_ok [OF ok, of k]
    note e = expires_delete_ok [OF t(1), of k]
    note r = cx_send_responds(2) [OF e(1)]
    show ?thesis using respondsD(2) [OF e(1) r] r quietD [OF t(2)] quietD [OF e(2)] t(3) e(3)
      by (simp add: serve_del_def responds_def a_remove_def)
  qed
  ultimately show ?thesis unfolding buf_def by blast
qed

theorem del_uses_bytes_behind_frame_witness:
  "\<exists>cx'. dispatch_command command_handlers (([0, 3, 9] @ put_u16 1) @ [107] @ []) 5 key_ctx = Some cx'
    \<and> a_store (db_view key_ctx) [107] = Some [118] \<and> a_store (db_view cx') [107] = None"
  using del_uses_bytes_behind_frame [OF key_ctx_ok(1), of "[107]" "[]"] by (auto simp: key_ctx_ok(5) a_remove_def)

section \<open>A failed snapshot\<close>

lemma get_value_allocs:
  assumes "ht_inv h"
  shows "snd (get_value h k a) = (if ht_map h k = None then a else snd (alloc a))"
proof (cases "find_entry h k (djb2 k)")
  case None
  then have "ht_map h k = None" using find_entry_None [OF assms] ht_map_None by blast
  then show ?thesis using None by (simp add: get_value_def)
next
  case (Some q)
  then have "ht_map h k \<noteq> None" using ht_map_points_to [OF assms find_entry_Some [OF assms Some]] by simp
  then show ?thesis using Some ht_invD(5) [OF assms]
    by (auto simp: get_value_def make_value_entry_def Let_def split: prod.split)
qed

lemma set_value_in_place_allocs:
  assumes "ht_inv h" and "ht_map h k = Some v" and "ve_value_len v = length d"
  shows "snd (snd (set_value h k d enc a)) = a"
proof -
  define h1 where "h1 = (if is_rehashing h then rehash_step h else h)"
  note pre = set_value_prelude [OF assms(1), folded h1_def]
  have "find_entry h1 k (djb2 k) \<noteq> None"
    using find_entry_None [OF pre(1)] ht_map_None [of h1 k] pre(2) assms(2) by auto
  then obtain q where q: "find_entry h1 k (djb2 k) = Some q" by blast
  then have "he_value (deref h1 q) = v"
    using ht_map_points_to [OF pre(1) find_entry_Some [OF pre(1) q]] pre(2) assms(2) by simp
  then show ?thesis
    using q ht_invD(5) [OF assms(1)] assms(3) by (simp add: set_value_def h1_def Let_def)
qed

lemma set_value_no_memory:
  assumes "ht_inv h" and "ht_map h k = None"
  shows "\<not> fst (set_value h k d enc (False # a))"
proof -
  define h1 where "h1 = (if is_rehashing h then rehash_step h else h)"
  note pre = set_value_prelude [OF assms(1), folded h1_def]
  have "ht_map h1 k = None" using pre(2) assms(2) by simp
  then have "find_entry h1 k (djb2 k) = None"
    using ht_map_points_to [OF pre(1) find_entry_Some [OF pre(1)]] by (cases "find_entry h1 k (djb2 k)") auto
  then show ?thesis
    using ht_invD(5) [OF assms(1)] by (simp add: set_value_def h1_def Let_def make_value_entry_def)
qed

lemma expires_map_None: "ctx_ok cx \<Longrightarrow> a_deadlines (db_view cx) k = None \<longleftrightarrow> ht_map (cx_expires cx) k = None"
  using expires_entry by (fastforce simp: db_view_def deadlines_def split: option.splits if_splits)

lemma set_ex_out_of_memory:
  assumes "ctx_ok cx" and "a_store (db_view cx) k = Some v" and "length d = length v"
    and "a_deadlines (db_view cx) k = None" and "env_allocs (cx_env cx) = False # False # a" and "in_i64 dl" and "length d \<le> 65530"
  shows "db_view (store_set k d (Some dl) cx) = a_remove k (db_view cx)
    \<and> replies Resp_error (cx_client cx) (cx_client (store_set k d (Some dl) cx))"
proof -
  have i: "ht_inv (cx_table cx)" "ht_inv (cx_expires cx)" using assms(1) by (auto simp: ctx_ok_def store_inv_def expires_inv_def)
  have ex: "ht_map (cx_expires cx) k = None" using expires_map_None [OF assms(1)] assms(4) by simp
  obtain ve where ve: "ht_map (cx_table cx) k = Some ve" "ve_data ve = v" using assms(2) by (auto simp: db_view_def)
  have "ve = entry_for (ve_data ve) (value_encoding (ve_data ve))"
    using assms(1) ve(1) by (auto simp: ctx_ok_def store_inv_def)
  from arg_cong [OF this, of ve_value_len] have vl: "ve_value_len ve = length d"
    using assms(3) ve(2) by (simp add: entry_for_def)
  let ?cx1 = "cx_set_allocs (False # a) cx"
  have s1: "table_snapshot k cx = (None, ?cx1)"
    using get_value_map(1) [OF i(1), where k = k and a = "False # False # a"] get_value_allocs [OF i(1), of k "False # False # a"] ve(1) assms(5)
    by (auto simp: table_snapshot_def prod_eq_iff split: prod.split)
  have s2: "expires_snapshot k ?cx1 = (None, ?cx1)"
    using get_value_map(1) [OF i(2), where k = k and a = "False # a"] get_value_allocs [OF i(2), of k "False # a"] ex
    by (auto simp: expires_snapshot_def cx_set_allocs_def prod_eq_iff split: prod.split)
  have ok1: "ctx_ok ?cx1" and v1: "db_view ?cx1 = db_view cx" and t1: "cx_table ?cx1 = cx_table cx" "cx_expires ?cx1 = cx_expires cx"
    and cl1: "cx_client ?cx1 = cx_client cx"
    using assms(1) by (auto simp: cx_set_allocs_def ctx_ok_def db_view_def)
  obtain ok cx2 where t: "table_set k d (value_encoding d) ?cx1 = (ok, cx2)" by (meson surj_pair)
  note c2 = table_set_ok [OF ok1 t assms(7)]
  have ok2: "ok" and al2: "env_allocs (cx_env cx2) = False # a"
    using t set_value_in_place [OF i(1) ve(1) vl, of "value_encoding d" "False # a"]
      set_value_in_place_allocs [OF i(1) ve(1) vl, of "value_encoding d" "False # a"]
    by (auto simp: table_set_def cx_set_allocs_def split: prod.splits)
  obtain okp cx3 where p: "expires_put k dl cx2 = (okp, cx3)" by (meson surj_pair)
  have dl: "INT64_MIN \<le> dl" "dl \<le> INT64_MAX" using assms(6) by (simp_all add: in_i64_def)
  note c3 = expires_put_ok [OF c2(1) p dl]
  have ex2: "cx_expires cx2 = cx_expires cx" using c2(5) t1 by simp
  have "\<not> okp"
    using p set_value_no_memory [OF i(2) ex, of "deadline_bytes dl" VALUE_ENTRY_TYPE_INT a] al2 ex2
    by (auto simp: expires_put_def set_expiry_def split: prod.splits)
  let ?cx4 = "cx_send send_error cx3"
  have r: "store_set k d (Some dl) cx = rollback_set k None None ?cx4"
    using s1 s2 t ok2 p \<open>\<not> okp\<close> by (simp add: store_set_def value_encoding_def)
  note r4 = cx_send_responds(1) [OF c3(1)]
  note c4 = respondsD [OF c3(1) r4]
  have v3: "db_view cx3 = (db_view cx)\<lparr>a_store := (a_store (db_view cx))(k \<mapsto> d)\<rparr>"
    using c3(4) c2(4) ok2 v1 \<open>\<not> okp\<close> by simp
  note t5 = table_delete_ok [OF c4(1), of k]
  note e5 = expires_delete_ok [OF t5(1), of k]
  have "db_view (rollback_set k None None ?cx4) = a_remove k (db_view cx)"
    unfolding rollback_set_def by (simp add: e5(3) t5(3) c4(2) v3 a_remove_def)
  moreover have "cx_client (rollback_set k None None ?cx4) = cx_client ?cx4"
    unfolding rollback_set_def using quietD [OF e5(2)] quietD [OF t5(2)] by simp
  moreover have "cx_client cx3 = cx_client cx" using quietD [OF c3(2)] quietD [OF c2(2)] cl1 by simp
  ultimately show ?thesis using r r4 by (simp add: responds_def)
qed

text \<open>C29: A SET with expiry can lose the value it overwrites.  When the snapshot of the old
  value cannot be allocated, its failure is taken for the key's absence; if storing the
  deadline then fails as well, the rollback deletes the key instead of restoring it, and
  the client is told that the SET failed.\<close>

theorem set_ex_rollback_loses_key:
  assumes "ctx_inv cx" and "request_fits (Req_set_ex k d t)" and "length t \<le> 31"
    and "fkvs_parse_deadline_ms t (cx_now cx) = Some deadline"
    and "a_store (db_view cx) k = Some v" and "length d = length v" and "a_deadlines (db_view cx) k = None"
    and "env_allocs (cx_env cx) = False # False # a"
  shows "\<exists>cx'. serve (Req_set_ex k d t) cx = Some cx' \<and> a_store (db_view cx') k = None
    \<and> replies Resp_error (cx_client cx) (cx_client cx')"
proof -
  have ok: "ctx_ok cx" using assms(1) by (simp add: ctx_inv_def)
  have n: "length k + length d + length t + 9 \<le> UINT16_MAX + 2" using assms(2) by (simp add: request_fits_def)
  obtain ex cx1 where sd: "set_deadline t cx = (ex, cx1)" by (meson surj_pair)
  note c1 = set_deadline_ok [OF ok sd]
  have ex: "ex = Inr (Some deadline)" using c1(4) assms(4) by simp
  have ok1: "ctx_ok cx1" and cl1: "cx_client cx1 = cx_client cx" using c1(1) by (auto simp: settles_def)
  have al: "env_allocs (cx_env cx1) = env_allocs (cx_env cx)"
    using sd clock_ok_now(3) [of "cx_env cx"] ok
    by (auto simp: set_deadline_def cx_now_ms_def ctx_ok_def split: prod.splits option.splits)
  have h: "handle_set_command (set_ex_frame k d t @ []) (length k + length d + length t + 9) cx = Some (store_set k d (Some deadline) cx1)"
    using handle_set_ex_eq [OF n, of "[]" cx] assms(3) sd ex by simp
  have s: "serve (Req_set_ex k d t) cx = Some (store_set k d (Some deadline) cx1)"
    using h set_ex_frame_reads(2) [of k d t "[]"] n by (simp add: dispatch_command_def command_handlers_simps)
  have "db_view (store_set k d (Some deadline) cx1) = a_remove k (db_view cx1)
      \<and> replies Resp_error (cx_client cx1) (cx_client (store_set k d (Some deadline) cx1))"
    by (rule set_ex_out_of_memory [OF ok1]) (use assms(5-8) c1 ex al n in auto)
  then show ?thesis using s cl1 by (simp add: a_remove_def)
qed

theorem set_ex_rollback_loses_key_witness:
  "\<exists>cx'. serve (Req_set_ex [107] [119] [53]) (cx_set_allocs [False, False] key_ctx) = Some cx'
    \<and> a_store (db_view key_ctx) [107] = Some [118] \<and> a_store (db_view cx') [107] = None"
proof -
  let ?cx = "cx_set_allocs [False, False] key_ctx"
  have i: "ctx_inv ?cx" "db_view ?cx = db_view key_ctx" "cx_now ?cx = 1000" "env_allocs (cx_env ?cx) = [False, False]"
    using key_ctx_ok(1,4) by (auto simp: ctx_inv_def ctx_ok_def cx_set_allocs_def db_view_def cx_now_def)
  have f: "request_fits (Req_set_ex [107] [119] [53])" by (simp add: request_fits_def)
  have "fkvs_parse_i64_decimal (dec_int 5) 0 (INT64_MAX div 1000) = Some 5"
    by (rule parse_dec_int) (simp_all add: limits_ok_def)
  moreover have "dec_int 5 = [53]" by (simp add: dec_int_def dec_nat.simps)
  ultimately have d: "fkvs_parse_deadline_ms [53] (cx_now ?cx) = Some 6000"
    unfolding i(3) by (simp add: parse_deadline_eq)
  have "a_store (db_view ?cx) [107] = Some [118]" "a_deadlines (db_view ?cx) [107] = None" by (simp_all add: i(2) key_ctx_ok(5))
  from set_ex_rollback_loses_key [OF i(1) f _ d this(1) _ this(2) i(4)] show ?thesis by (auto simp: key_ctx_ok(5))
qed

section \<open>Counters\<close>


definition counter_ctx :: ctx where
  "counter_ctx = snd (table_set [107] (dec_int 41) VALUE_ENTRY_TYPE_INT empty_ctx)"

lemma counter_ctx_ok: "ctx_inv counter_ctx" "cx_safe counter_ctx"
  "db_view counter_ctx = \<lparr>a_store = [[107] \<mapsto> dec_int 41], a_deadlines = Map.empty\<rparr>"
proof -
  have l: "length (dec_int 41) \<le> 65530" using length_dec_int [of 41] by simp
  have e: "value_encoding (dec_int 41) = VALUE_ENTRY_TYPE_INT" by (rule value_encoding_dec_int) simp_all
  obtain ok cx where t: "table_set [107] (dec_int 41) (value_encoding (dec_int 41)) empty_ctx = (ok, cx)" by (meson surj_pair)
  have k: "counter_ctx = cx" using t by (simp add: counter_ctx_def e)
  have o: "ctx_ok empty_ctx" using empty_ctx_ok(1) by (simp add: ctx_inv_def)
  note r = table_set_ok [OF o t l]
  have okk: "ok" "cx_safe cx" using r(3) empty_ctx_ok(2) by simp_all
  show v: "db_view counter_ctx = \<lparr>a_store = [[107] \<mapsto> dec_int 41], a_deadlines = Map.empty\<rparr>"
    using r(4) okk(1) k by (simp add: empty_ctx_ok(5))
  show "ctx_inv counter_ctx" using r(1) k by (simp add: ctx_inv_def v astate_inv_def)
  show "cx_safe counter_ctx" using k okk by simp
qed


text \<open>C31: A rejected INCRBY creates the key.  On a key that is not stored, an amount that is not
  a 64-bit decimal is answered with an error, and yet the key exists afterwards, with the
  value "0".\<close>

theorem rejected_incr_by_creates_key:
  assumes "ctx_inv cx" and "cx_safe cx" and "request_fits (Req_incr_by k t)"
    and "a_store (db_view cx) k = None" and "incr_by t 0 = None"
  shows "\<exists>cx'. serve (Req_incr_by k t) cx = Some cx' \<and> replies Resp_error (cx_client cx) (cx_client cx')
    \<and> a_store (db_view cx') k = Some [48]"
proof -
  have dl: "a_deadlines (db_view cx) k = None" using assms(1,4) by (auto simp: ctx_inv_def astate_inv_def)
  have p: "parse_spec [48] INT64_MIN INT64_MAX = Some 0"
    using parse_dec_int [OF full_range, of 0] by (simp add: fkvs_parse_i64_decimal_spec [OF full_range] zero_text)
  have "spec_step (Req_incr_by k t) (cx_now cx) (cx_later cx) (db_view cx) =
      Some (Resp_error, (db_view cx)\<lparr>a_store := (a_store (db_view cx))(k \<mapsto> [48])\<rparr>)"
    using assms(4,5) dl by (simp add: spec_counter_def a_expire_def a_late_def p Let_def)
  from serve_exact [OF assms(1-3) this] show ?thesis by auto
qed

theorem rejected_incr_by_creates_key_witness:
  "\<exists>cx'. serve (Req_incr_by [107] [120]) empty_ctx = Some cx' \<and> a_store (db_view cx') [107] = Some [48]"
proof -
  have f: "request_fits (Req_incr_by [107] [120])" by (simp add: request_fits_def)
  have "incr_by [120] 0 = None" by (simp add: incr_by_def fkvs_parse_i64_decimal_def)
  then show ?thesis using rejected_incr_by_creates_key [OF empty_ctx_ok(1,2) f] by (auto simp: empty_ctx_ok(5))
qed

section \<open>Expiry through the commands\<close>

text \<open>C32: A key that SET gave an expiry is served until its deadline and not after: a GET whose
  clock reading is before the deadline answers with the value, any later one with an
  error.\<close>

theorem set_ex_then_get:
  assumes "ctx_inv cx" and "cx_safe cx" and "request_fits (Req_set_ex k d t)" and "length t \<le> 31"
    and "fkvs_parse_deadline_ms t (cx_now cx) = Some deadline" and "request_fits (Req_get k)"
  shows "\<exists>cx1 cx2. serve (Req_set_ex k d t) cx = Some cx1 \<and> serve (Req_get k) cx1 = Some cx2
    \<and> replies (Resp_value d) (cx_client cx) (cx_client cx1)
    \<and> replies (if cx_now cx1 < deadline then Resp_value d else Resp_error) (cx_client cx1) (cx_client cx2)"
proof -
  have "spec_step (Req_set_ex k d t) (cx_now cx) (cx_later cx) (db_view cx) =
      Some (Resp_value d, spec_set k d (Some deadline) (db_view cx))"
    using assms(4,5) by simp
  from serve_exact [OF assms(1-3) this] obtain cx1 where
    c1: "serve (Req_set_ex k d t) cx = Some cx1" "ctx_inv cx1" "cx_safe cx1"
      "db_view cx1 = spec_set k d (Some deadline) (db_view cx)" "replies (Resp_value d) (cx_client cx) (cx_client cx1)"
    by blast
  obtain s where "spec_step (Req_get k) (cx_now cx1) (cx_later cx1) (db_view cx1) =
      Some (if cx_now cx1 < deadline then Resp_value d else Resp_error, s)"
    using c1(4) by (cases "cx_now cx1 < deadline") (auto simp: spec_get_def spec_set_def a_expire_def a_late_def a_remove_def Let_def)
  from serve_exact [OF c1(2,3) assms(6) this] show ?thesis using c1(1,5) by blast
qed

theorem set_ex_then_get_witness:
  "\<exists>cx1 cx2. serve (Req_set_ex [107] [119] (dec_int 5)) empty_ctx = Some cx1 \<and> serve (Req_get [107]) cx1 = Some cx2"
proof -
  have "fkvs_parse_i64_decimal (dec_int 5) 0 (INT64_MAX div 1000) = Some 5"
    by (rule parse_dec_int) (simp_all add: limits_ok_def)
  then have d: "fkvs_parse_deadline_ms (dec_int 5) (cx_now empty_ctx) = Some 6000"
    by (simp add: parse_deadline_eq empty_ctx_ok(4))
  have f: "request_fits (Req_set_ex [107] [119] (dec_int 5))" "request_fits (Req_get [107])" "length (dec_int 5) \<le> 31"
    using length_dec_int [of 5] by (simp_all add: request_fits_def)
  show ?thesis using set_ex_then_get [OF empty_ctx_ok(1,2) f(1,3) d f(2)] by blast
qed

text \<open>C33: PERSIST skips the expiry check that GET makes.  For a key whose deadline has passed but
  which no sweep has removed yet, GET answers with an error; but PERSIST answers OK, and
  then the key is served again, for good.\<close>

theorem persist_revives_expired_key:
  assumes "ctx_inv cx" and "cx_safe cx" and "request_fits (Req_get k)" and "request_fits (Req_persist k)"
    and "a_store (db_view cx) k = Some v" and "a_late k (cx_now cx) (db_view cx)"
  shows "(\<exists>cx'. serve (Req_get k) cx = Some cx' \<and> replies Resp_error (cx_client cx) (cx_client cx'))
    \<and> (\<exists>cx1 cx2. serve (Req_persist k) cx = Some cx1 \<and> serve (Req_get k) cx1 = Some cx2
        \<and> replies Resp_ok (cx_client cx) (cx_client cx1) \<and> replies (Resp_value v) (cx_client cx1) (cx_client cx2))"
proof
  have "spec_step (Req_get k) (cx_now cx) (cx_later cx) (db_view cx) = Some (Resp_error, a_remove k (db_view cx))"
    using assms(6) by (simp add: spec_get_def a_expire_def a_remove_def)
  from serve_exact [OF assms(1-3) this]
  show "\<exists>cx'. serve (Req_get k) cx = Some cx' \<and> replies Resp_error (cx_client cx) (cx_client cx')" by blast
  let ?s = "(db_view cx)\<lparr>a_deadlines := (a_deadlines (db_view cx))(k := None)\<rparr>"
  have "spec_step (Req_persist k) (cx_now cx) (cx_later cx) (db_view cx) = Some (Resp_ok, ?s)" by simp
  from serve_exact [OF assms(1,2,4) this] obtain cx1 where
    c1: "serve (Req_persist k) cx = Some cx1" "ctx_inv cx1" "cx_safe cx1" "db_view cx1 = ?s"
      "replies Resp_ok (cx_client cx) (cx_client cx1)" by blast
  have "spec_step (Req_get k) (cx_now cx1) (cx_later cx1) (db_view cx1) = Some (Resp_value v, ?s)"
    using c1(4) assms(5) by (simp add: spec_get_def a_expire_def a_late_def)
  from serve_exact [OF c1(2,3) assms(3) this]
  show "\<exists>cx1 cx2. serve (Req_persist k) cx = Some cx1 \<and> serve (Req_get k) cx1 = Some cx2
        \<and> replies Resp_ok (cx_client cx) (cx_client cx1) \<and> replies (Resp_value v) (cx_client cx1) (cx_client cx2)"
    using c1(1,5) by blast
qed

theorem persist_revives_expired_key_witness:
  "\<exists>cx1 cx2. serve (Req_persist [107]) late_ctx = Some cx1 \<and> serve (Req_get [107]) cx1 = Some cx2
     \<and> replies (Resp_value [118]) (cx_client cx1) (cx_client cx2)"
proof -
  have f: "request_fits (Req_get [107])" "request_fits (Req_persist [107])" by (simp_all add: request_fits_def)
  have "a_store (db_view late_ctx) [107] = Some [118]" "a_late [107] (cx_now late_ctx) (db_view late_ctx)"
    by (simp_all add: late_ctx_ok(4,5) a_late_def)
  from persist_revives_expired_key [OF late_ctx_ok(1,2) f this] show ?thesis by blast
qed

end
