(* ===== verification/Networking.thy ===== *)
theory Networking
  imports Handler_Properties
begin

text \<open>
  \<open>src/networking/networking.c\<close>: cutting the byte stream of a connection into frames and
  serving them.  Proved: a full read buffer always makes progress, frames are served the
  same way however the stream is cut into segments, and a pipeline of requests is answered
  in order by the abstract database.
\<close>

section \<open>The frame loop\<close>

definition cx_set_client :: "client \<Rightarrow> ctx \<Rightarrow> ctx" where
  "cx_set_client c cx = cx\<lparr>cx_client := c\<rparr>"

definition count_command :: "ctx \<Rightarrow> ctx" where
  "count_command cx =
     cx\<lparr>cx_server := (cx_server cx)\<lparr>sv_metrics := increment_command_count (sv_metrics (cx_server cx))\<rparr>\<rparr>"

text \<open>
  The loop over \<open>pos\<close>.  \<open>Inl\<close> is a return of -1 from inside the loop, \<open>Inr\<close> a break with
  the position reached.
\<close>

partial_function (option) process_frames ::
  "command_table \<Rightarrow> nat \<Rightarrow> ctx \<Rightarrow> (ctx + nat \<times> ctx) option" where
  "process_frames handlers pos cx =
     (let c = cx_client cx; avail = cl_buf_used c - pos in
      if avail < 2 then Some (Inr (pos, cx))
      else do {
        core_len \<leftarrow> rd_u16 (cl_buffer c) pos;
        let frame_len = 2 + core_len;
        if frame_len > FKVS_CLIENT_READ_BUFFER_SIZE
        then Some (Inl (cx_set_client (c\<lparr>cl_buf_used := 0, cl_frame_need := -1\<rparr>) cx))
        else if avail < frame_len then Some (Inr (pos, cx))
        else do {
          cx \<leftarrow> dispatch_command handlers (drop pos (cl_buffer c)) frame_len cx;
          let cx = count_command cx;
          if cl_write_failed (cx_client cx) then Some (Inl cx)
          else process_frames handlers (pos + frame_len) cx
        }
      })"

text \<open>\<open>memmove\<close> of the unparsed remainder to the front.\<close>

definition compact :: "nat \<Rightarrow> client \<Rightarrow> client" where
  "compact pos c =
     (if pos > 0
      then let remain = cl_buf_used c - pos in
        c\<lparr>cl_buffer := take remain (drop pos (cl_buffer c)) @ drop remain (cl_buffer c),
          cl_buf_used := remain, cl_frame_need := -1\<rparr>
      else c)"

definition try_process_frames :: "command_table \<Rightarrow> ctx \<Rightarrow> (int \<times> ctx) option" where
  "try_process_frames handlers cx =
     do {
       r \<leftarrow> process_frames handlers 0 cx;
       case r of
         Inl cx \<Rightarrow> Some (-1, cx)
       | Inr (pos, cx) \<Rightarrow>
           let cx = cx_set_client (compact pos (cx_client cx)) cx;
               cx = (if length (cl_wbuf (cx_client cx)) > 0 then cx_send wbuf_flush cx else cx)
           in Some (if cl_write_failed (cx_client cx) then -1 else 0, cx)
     }"

text \<open>What the event loops do with the bytes \<open>recv\<close> stored behind the \<open>buf_used\<close> bytes.\<close>

definition receive :: "bytes \<Rightarrow> client \<Rightarrow> client" where
  "receive data c =
     c\<lparr>cl_buffer := take (cl_buf_used c) (cl_buffer c) @ data @ drop (cl_buf_used c + length data) (cl_buffer c),
       cl_buf_used := cl_buf_used c + length data\<rparr>"

section \<open>The clock during a request\<close>

definition cx_time :: "ctx \<Rightarrow> int list \<times> int" where
  "cx_time cx = (env_clock (cx_env cx), env_now (cx_env cx))"

lemma time_io: "io_only e e' \<Longrightarrow> env_clock e' = env_clock e \<and> env_now e' = env_now e"
  by (simp add: io_only_def)

lemma time_of_send:
  assumes "\<And>c e c' e'. f c e = (c', e') \<Longrightarrow> io_only e e'"
  shows "cx_time (cx_send f cx) = cx_time cx"
proof -
  obtain c e where "f (cx_client cx) (cx_env cx) = (c, e)" by (meson surj_pair)
  then show ?thesis using time_io [OF assms] by (simp add: cx_time_def cx_send_def)
qed

lemmas time_send [simp] = time_of_send [OF io_only_error] time_of_send [OF io_only_ok]
  io_only_replies(1-3) [THEN time_of_send] time_of_send [OF io_only_flush]

lemma time_tables [simp]:
  "cx_time (snd (table_set k d enc cx)) = cx_time cx" "cx_time (snd (expires_set k d enc cx)) = cx_time cx"
  "cx_time (snd (expires_put k t cx)) = cx_time cx" "cx_time (table_delete k cx) = cx_time cx"
  "cx_time (expires_delete k cx) = cx_time cx" "cx_time (expires_remove k cx) = cx_time cx"
  "cx_time (snd (table_snapshot k cx)) = cx_time cx" "cx_time (snd (expires_snapshot k cx)) = cx_time cx"
  "cx_time (snd (cx_malloc cx)) = cx_time cx" "cx_time (snd (cx_int64_to_string n cx)) = cx_time cx"
  by (auto simp: cx_time_def table_set_def expires_set_def expires_put_def table_delete_def expires_delete_def
      expires_remove_def table_snapshot_def expires_snapshot_def cx_malloc_def env_alloc_def
      cx_int64_to_string_def cx_set_allocs_def split: prod.split)

lemma time_now:
  assumes "cx_time cx = ([], t)"
  shows "cx_now cx = t" "cx_later cx = t" "cx_now_ms cx = (t, cx)"
    "snd (is_expired h k (cx_env cx)) = cx_env cx" "snd (get_ttl h k (cx_env cx)) = cx_env cx"
  using assms
  by (auto simp: cx_time_def cx_now_def cx_later_def cx_now_ms_def fkvs_now_ms_def is_expired_def get_ttl_def Let_def
      split: option.splits if_splits)

lemma time_expire: "cx_time cx = ([], t) \<Longrightarrow> cx_time (snd (check_and_expire k cx)) = ([], t)"
  using time_now(4) [of cx t "cx_expires cx" k]
  by (auto simp: check_and_expire_def cx_time_def table_delete_def expires_delete_def split_beta Let_def)

lemma time_set [simp]: "cx_time (store_set k d dl cx) = cx_time cx"
proof -
  have "cx_time (rollback_set k ov oe cx) = cx_time cx" for ov oe cx
    by (simp add: rollback_set_def Let_def split: option.split)
  then show ?thesis by (simp add: store_set_def Let_def split_beta split: option.split)
qed

lemma time_counter: "cx_time cx = ([], t) \<Longrightarrow> cx_time (change_counter k f cx) = ([], t)"
proof -
  assume t: "cx_time cx = ([], t)"
  have s: "cx_time (store_counter k n cx) = cx_time cx" for n cx
    by (simp add: store_counter_def Let_def split_beta split: option.split)
  have z: "cx_time (snd (fetch_or_zero k cx)) = cx_time cx" for cx
    by (simp add: fetch_or_zero_def Let_def split_beta split: option.split)
  show ?thesis using time_expire [OF t, of k]
    by (simp add: change_counter_def Let_def split_beta s z split: option.split)
qed

lemma time_serve:
  assumes "cx_time cx = ([], t)"
  shows "cx_time (serve_get k cx) = ([], t)" "cx_time (serve_del k cx) = ([], t)"
    "cx_time (reply_ttl k cx) = ([], t)" "cx_time (serve_persist k cx) = ([], t)"
    "cx_time (serve_expire k n s cx) = ([], t)" "cx_time (snd (set_deadline s cx)) = ([], t)"
proof -
  note e = time_expire [OF assms, of k]
  show "cx_time (serve_get k cx) = ([], t)"
    using e by (simp add: serve_get_def reply_lookup_def split_beta split: option.split)
  show "cx_time (serve_del k cx) = ([], t)" "cx_time (serve_persist k cx) = ([], t)"
    using assms by (simp_all add: serve_del_def serve_persist_def)
  show "cx_time (reply_ttl k cx) = ([], t)"
    using e time_now(5) [OF e, of "cx_expires (snd (check_and_expire k cx))" k]
    by (auto simp: reply_ttl_def Let_def split_beta cx_time_def [of "_\<lparr>cx_env := _\<rparr>"] cx_time_def [of "snd _"])
  show "cx_time (serve_expire k n s cx) = ([], t)" "cx_time (snd (set_deadline s cx)) = ([], t)"
    using assms time_now(3) [OF assms]
    by (simp_all add: serve_expire_def set_deadline_def split_beta split: option.split)
qed

lemma serve_time:
  assumes "request_fits r" and "r \<noteq> Req_info" and "r \<noteq> Req_keys" and "cx_time cx = ([], t)"
    and "dispatch_command command_handlers (request_frame r @ rest) (length (request_frame r)) cx = Some cx'"
    and "\<not> cl_fd (cx_client cx) < 0"
  shows "cx_time cx' = ([], t)"
proof -
  have fits: "length (request_frame r) \<le> UINT16_MAX + 2" using assms(1) by (simp add: request_fits_def)
  note serve = time_serve [OF assms(4)] time_counter [OF assms(4)]
  show ?thesis
  proof (cases r)
    case (Req_set k d)
    then have "cx' = store_set k d None cx" using assms(5) fits
      by (simp add: dispatch_command_def pair_frame_reads command_handlers_simps handle_set_command_def parse_set_expiry_def Let_def)
    then show ?thesis using assms(4) by simp
  next
    case (Req_set_ex k d t)
    have "length k + length d + length t + 9 \<le> UINT16_MAX + 2" using fits Req_set_ex by simp
    from handle_set_ex_eq [OF this, of rest cx] show ?thesis
      using assms(4,5) fits Req_set_ex serve(6) [of t]
      by (auto simp: dispatch_command_def set_ex_frame_reads command_handlers_simps split: if_splits prod.splits sum.splits)
  next
    case (Req_incr_by k d)
    then show ?thesis using assms(4,5) fits time_counter [of "snd (cx_malloc cx)" t k "incr_by d"]
      by (auto simp: dispatch_command_def pair_frame_reads command_handlers_simps handle_incr_by_command_def
          handle_by_command_def Let_def split_beta split: if_splits)
  next
    case (Req_decr_by k d)
    then show ?thesis using assms(4,5) fits time_counter [of "snd (cx_malloc cx)" t k "decr_by d"]
      by (auto simp: dispatch_command_def pair_frame_reads command_handlers_simps handle_decr_by_command_def
          handle_by_command_def Let_def split_beta split: if_splits)
  next
    case (Req_ping d)
    obtain c e where q: "queue_frame CMD_PING d (cx_client cx) (cx_env cx) = (c, e)" by (meson surj_pair)
    have "cx' = cx\<lparr>cx_client := c, cx_env := e\<rparr>"
      using Req_ping assms(5,6) fits q
      by (simp add: dispatch_command_def key_frame_reads command_handlers_simps handle_ping_command_def send_pong_def)
    then show ?thesis using io_only_frame [OF q] assms(4) by (simp add: cx_time_def io_only_def)
  next
    case (Req_expire k d)
    have core: "length k + length d + 5 \<le> UINT16_MAX" using fits Req_expire by simp
    note sl = slice_prefix [OF pair_frame_reads(6) [OF core]]
    show ?thesis using Req_expire assms(4,5) fits serve(5)
      by (auto simp: dispatch_command_def pair_frame_reads command_handlers_simps handle_expire_command_def sl Let_def
          split: if_splits)
  qed (use assms fits serve in \<open>auto simp: dispatch_command_def key_frame_reads command_handlers_simps serve_key_request split: if_splits\<close>)
qed

section \<open>The abstract server on a sequence of requests\<close>

text \<open>The replies to a sequence of requests at one time, and the state after it.  INFO and KEYS
  are left out.\<close>

fun spec_run :: "int \<Rightarrow> request list \<Rightarrow> astate \<Rightarrow> response list \<times> astate" where
  "spec_run t [] s = ([], s)"
| "spec_run t (r # rs) s =
     (case spec_step r t t s of
        None \<Rightarrow> ([], s)
      | Some (resp, s1) \<Rightarrow> let (resps, s2) = spec_run t rs s1 in (resp # resps, s2))"

definition data_request :: "request \<Rightarrow> bool" where
  "data_request r \<longleftrightarrow> r \<noteq> Req_info \<and> r \<noteq> Req_keys \<and> length (request_frame r) \<le> FKVS_CLIENT_READ_BUFFER_SIZE"

definition wire :: "request list \<Rightarrow> bytes" where
  "wire rs = concat (map request_frame rs)"

definition encode_all :: "response list \<Rightarrow> bytes" where
  "encode_all resps = concat (map (encode_response \<circ> fit) resps)"

lemma wire_simps [simp]: "wire [] = []" "wire (r # rs) = request_frame r @ wire rs" "wire (a @ b) = wire a @ wire b"
  by (simp_all add: wire_def)

lemma encode_all_simps [simp]: "encode_all [] = []" "encode_all (r # rs) = encode_response (fit r) @ encode_all rs"
  "encode_all (a @ b) = encode_all a @ encode_all b"
  by (simp_all add: encode_all_def)

lemma spec_step_defined:
  "data_request r \<Longrightarrow> \<exists>resp s'. spec_step r t t s = Some (resp, s')"
  by (cases r) (auto simp: data_request_def split: option.split prod.split)

lemma request_header:
  assumes "length (request_frame r) \<le> UINT16_MAX + 2"
  shows "rd_u16 (request_frame r @ rest) 0 = Some (length (request_frame r) - 2)" "3 \<le> length (request_frame r)"
  using assms by (cases r; simp add: bare_frame_reads key_frame_reads pair_frame_reads set_ex_frame_reads)+

lemma rd_u16_drop: "rd_u16 (drop pos buf) 0 = rd_u16 buf pos"
  by (auto simp: rd_u16_def rd_def)

lemma rd_u16_prefix: "2 \<le> length a \<Longrightarrow> rd_u16 (a @ b) 0 = rd_u16 a 0"
  by (cases a) (auto simp: rd_u16_def rd_def nth_append)

text \<open>The bytes of a connection that are received and not yet served.\<close>

definition pending :: "nat \<Rightarrow> client \<Rightarrow> bytes" where
  "pending pos c = drop pos (take (cl_buf_used c) (cl_buffer c))"

text \<open>A proper beginning of a frame.\<close>

definition incomplete :: "bytes \<Rightarrow> bool" where
  "incomplete p \<longleftrightarrow> p = [] \<or> (\<exists>r q. data_request r \<and> request_frame r = p @ q \<and> q \<noteq> [])"

definition ready :: "int \<Rightarrow> ctx \<Rightarrow> bool" where
  "ready t cx \<longleftrightarrow> ctx_inv cx \<and> cx_safe cx \<and> cx_time cx = ([], t)"

lemma ready_client: "ready t cx \<Longrightarrow> client_inv (cx_client cx)"
  by (simp add: ready_def ctx_inv_def ctx_ok_def)

lemma ready_count: "ready t (count_command cx) = ready t cx" "db_view (count_command cx) = db_view cx"
  "cx_client (count_command cx) = cx_client cx"
  by (simp_all add: ready_def count_command_def ctx_inv_def ctx_ok_def cx_safe_def cx_time_def db_view_def)

lemma serve_one:
  assumes "ready t cx" and "data_request r" and "spec_step r t t (db_view cx) = Some (resp, s)"
  shows "\<exists>cx'. dispatch_command command_handlers (request_frame r @ rest) (length (request_frame r)) cx = Some cx'
    \<and> ready t cx' \<and> db_view cx' = s \<and> replies resp (cx_client cx) (cx_client cx')"
proof -
  have fits: "request_fits r" and k: "r \<noteq> Req_info" "r \<noteq> Req_keys"
    using assms(2) by (auto simp: data_request_def request_fits_def)
  have c: "ctx_inv cx" "cx_safe cx" "cx_time cx = ([], t)" using assms(1) by (auto simp: ready_def)
  have "spec_step r (cx_now cx) (cx_later cx) (db_view cx) = Some (resp, s)"
    using assms(3) time_now(1,2) [OF c(3)] by simp
  from serve_spec [OF c(1,2) fits this, of rest] obtain cx' where
    d: "dispatch_command command_handlers (request_frame r @ rest) (length (request_frame r)) cx = Some cx'"
      "ctx_inv cx'" "cx_safe cx'" "db_view cx' = s" "replies resp (cx_client cx) (cx_client cx')" by blast
  have "\<not> cl_fd (cx_client cx) < 0" using ready_client [OF assms(1)] by (simp add: client_inv_def)
  from serve_time [OF fits k c(3) d(1) this] show ?thesis using d by (auto simp: ready_def)
qed

lemma pending_split:
  assumes "client_inv c" and "pos \<le> cl_buf_used c"
  shows "drop pos (cl_buffer c) = pending pos c @ drop (cl_buf_used c) (cl_buffer c)"
proof -
  let ?u = "cl_buf_used c" and ?b = "cl_buffer c"
  have "length (take ?u ?b) = ?u" using assms(1) by (simp add: client_inv_def)
  then have "drop pos (take ?u ?b @ drop ?u ?b) = pending pos c @ drop ?u ?b"
    unfolding drop_append pending_def using assms(2) by simp
  then show ?thesis by (simp only: append_take_drop_id)
qed

lemma pending_frame:
  assumes "client_inv c" and "pending pos c = request_frame r @ rest" and "data_request r" and "pos \<le> cl_buf_used c"
  shows "rd_u16 (cl_buffer c) pos = Some (length (request_frame r) - 2)"
    and "drop pos (cl_buffer c) = request_frame r @ rest @ drop (cl_buf_used c) (cl_buffer c)"
    and "length (request_frame r) \<le> cl_buf_used c - pos"
proof -
  show d: "drop pos (cl_buffer c) = request_frame r @ rest @ drop (cl_buf_used c) (cl_buffer c)"
    using pending_split [OF assms(1,4)] by (simp add: assms(2))
  have "length (request_frame r) \<le> UINT16_MAX + 2" using assms(3) by (simp add: data_request_def)
  from request_header(1) [OF this] show "rd_u16 (cl_buffer c) pos = Some (length (request_frame r) - 2)"
    using rd_u16_drop [of pos "cl_buffer c"] d by simp
  have "length (pending pos c) = cl_buf_used c - pos" using assms(1) by (simp add: pending_def client_inv_def)
  then show "length (request_frame r) \<le> cl_buf_used c - pos" using assms(2) by simp
qed

lemma pending_incomplete:
  assumes "client_inv (cx_client cx)" and "incomplete (pending pos (cx_client cx))" and "pos \<le> cl_buf_used (cx_client cx)"
  shows "process_frames handlers pos cx = Some (Inr (pos, cx))"
proof -
  let ?c = "cx_client cx" and ?p = "pending pos (cx_client cx)"
  have len: "length ?p = cl_buf_used ?c - pos" using assms(1) by (simp add: pending_def client_inv_def)
  show ?thesis
  proof (cases "length ?p < 2")
    case True
    then show ?thesis by (subst process_frames.simps) (simp add: len [symmetric])
  next
    case False
    then obtain r q where r: "data_request r" "request_frame r = ?p @ q" "q \<noteq> []" using assms(2) by (auto simp: incomplete_def)
    have "rd_u16 (cl_buffer ?c) pos = rd_u16 ?p 0"
      using False pending_split [OF assms(1,3)] by (metis rd_u16_drop rd_u16_prefix not_less)
    also have "\<dots> = rd_u16 (request_frame r @ []) 0" using False r(2) by (simp add: rd_u16_prefix)
    also have "\<dots> = Some (length (request_frame r) - 2)" using r(1) by (intro request_header) (simp add: data_request_def)
    finally have h: "rd_u16 (cl_buffer ?c) pos = Some (length (request_frame r) - 2)" .
    have "2 + (length (request_frame r) - 2) = length (request_frame r)" using r(2) False by simp
    moreover have "length (request_frame r) \<le> FKVS_CLIENT_READ_BUFFER_SIZE" using r(1) by (simp add: data_request_def)
    moreover have "length ?p < length (request_frame r)" using r(2,3) by simp
    ultimately show ?thesis using False h by (subst process_frames.simps) (simp add: Let_def len [symmetric])
  qed
qed

section \<open>Serving what is in the buffer\<close>

text \<open>The first \<open>n\<close> requests have been served: the database is the abstract one and the replies
  have been queued in order, unless the connection failed.\<close>

definition served :: "int \<Rightarrow> request list \<Rightarrow> ctx \<Rightarrow> ctx \<Rightarrow> bool" where
  "served t rs cx cx' \<longleftrightarrow> ready t cx' \<and> db_view cx' = snd (spec_run t rs (db_view cx))
     \<and> delivers (encode_all (fst (spec_run t rs (db_view cx)))) (cx_client cx) (cx_client cx')"

lemma served_Nil: "ready t cx \<Longrightarrow> served t [] cx cx"
  using ready_client delivers_refl by (simp add: served_def)

lemma served_Cons:
  assumes "spec_step r t t (db_view cx) = Some (resp, s)" and "db_view cx1 = s"
    and "replies resp (cx_client cx) (cx_client cx1)" and "served t rs cx1 cx'"
  shows "served t (r # rs) cx cx'"
  using assms delivers_trans [of "encode_response (fit resp)" "cx_client cx" "cx_client cx1"]
  by (auto simp: served_def replies_def split_beta)

lemma process_requests:
  assumes "ready t cx" and "\<forall>r \<in> set rs. data_request r" and "incomplete part"
    and "pending pos (cx_client cx) = wire rs @ part" and "pos \<le> cl_buf_used (cx_client cx)"
    and "\<not> cl_write_failed (cx_client cx)"
  shows "\<exists>n cx'. n \<le> length rs \<and> served t (take n rs) cx cx'
    \<and> (if cl_write_failed (cx_client cx') then process_frames command_handlers pos cx = Some (Inl cx')
        else n = length rs \<and> process_frames command_handlers pos cx = Some (Inr (pos + length (wire rs), cx')))"
  using assms
proof (induction rs arbitrary: cx pos)
  case Nil
  then have "process_frames command_handlers pos cx = Some (Inr (pos, cx))"
    using pending_incomplete ready_client by simp
  then show ?case using Nil served_Nil by (intro exI [of _ 0] exI [of _ cx]) simp
next
  case (Cons r rs)
  let ?f = "request_frame r" and ?c = "cx_client cx"
  have dr: "data_request r" using Cons.prems(2) by simp
  note ci = ready_client [OF Cons.prems(1)]
  have p: "pending pos ?c = ?f @ (wire rs @ part)" using Cons.prems(4) by simp
  note pf = pending_frame [OF ci p dr Cons.prems(5)]
  have len: "3 \<le> length ?f" "length ?f \<le> FKVS_CLIENT_READ_BUFFER_SIZE"
    using request_header(2) [of r] dr by (auto simp: data_request_def)
  obtain resp s where sp: "spec_step r t t (db_view cx) = Some (resp, s)" using spec_step_defined [OF dr] by blast
  obtain cx1 where d: "dispatch_command command_handlers (?f @ (wire rs @ part) @ drop (cl_buf_used ?c) (cl_buffer ?c)) (length ?f) cx = Some cx1"
      "ready t cx1" "db_view cx1 = s" "replies resp ?c (cx_client cx1)"
    using serve_one [OF Cons.prems(1) dr sp] by blast
  let ?cx1 = "count_command cx1"
  have c1: "ready t ?cx1" "db_view ?cx1 = s" "replies resp ?c (cx_client ?cx1)" using d by (simp_all add: ready_count)
  have same: "same_input ?c (cx_client ?cx1)" using c1(3) by (simp add: replies_def delivers_def)
  have frame_len: "Suc (Suc (length ?f - 2)) = length ?f" using len(1) by simp
  have step: "process_frames command_handlers pos cx =
      (if cl_write_failed (cx_client ?cx1) then Some (Inl ?cx1)
       else process_frames command_handlers (pos + length ?f) ?cx1)"
    using pf d(1) len frame_len by (subst process_frames.simps) (simp add: Let_def)
  show ?case
  proof (cases "cl_write_failed (cx_client ?cx1)")
    case True
    have "served t (take 1 (r # rs)) cx ?cx1"
      using served_Cons [OF sp c1(2,3) served_Nil [OF c1(1)]] by simp
    then show ?thesis using True step by (intro exI [of _ 1] exI [of _ ?cx1]) simp
  next
    case False
    have "pending (pos + length ?f) (cx_client ?cx1) = drop (length ?f) (pending pos ?c)"
      using same by (simp add: pending_def same_input_def add.commute)
    then have p1: "pending (pos + length ?f) (cx_client ?cx1) = wire rs @ part" using p by simp
    have u1: "pos + length ?f \<le> cl_buf_used (cx_client ?cx1)" using pf(3) Cons.prems(5) same by (simp add: same_input_def)
    obtain n cx' where ih: "n \<le> length rs" "served t (take n rs) ?cx1 cx'"
      "if cl_write_failed (cx_client cx') then process_frames command_handlers (pos + length ?f) ?cx1 = Some (Inl cx')
        else n = length rs \<and> process_frames command_handlers (pos + length ?f) ?cx1 = Some (Inr (pos + length ?f + length (wire rs), cx'))"
      using Cons.IH [OF c1(1) _ Cons.prems(3) p1 u1 False] Cons.prems(2) by auto
    have "served t (take (Suc n) (r # rs)) cx cx'" using served_Cons [OF sp c1(2,3) ih(2)] by simp
    then show ?thesis using ih(1,3) step False
      by (intro exI [of _ "Suc n"] exI [of _ cx']) (auto simp: add.assoc split: if_splits)
  qed
qed

lemma compact_ok:
  assumes "client_inv c" and "pos \<le> cl_buf_used c"
  shows "client_inv (compact pos c)" and "pending 0 (compact pos c) = pending pos c"
    and "out_stream (compact pos c) = out_stream c" and "cl_write_failed (compact pos c) = cl_write_failed c"
    and "cl_sent (compact pos c) = cl_sent c"
  using assms
  by (auto simp: compact_def client_inv_def pending_def out_stream_def Let_def take_drop)

text \<open>What serving the buffered requests does to a connection.\<close>

definition batch :: "int \<Rightarrow> request list \<Rightarrow> bytes \<Rightarrow> ctx \<Rightarrow> int \<Rightarrow> ctx \<Rightarrow> bool" where
  "batch t rs part cx status cx' \<longleftrightarrow>
     (if status = 0
      then ready t cx' \<and> \<not> cl_write_failed (cx_client cx') \<and> pending 0 (cx_client cx') = part
        \<and> db_view cx' = snd (spec_run t rs (db_view cx))
        \<and> out_stream (cx_client cx') = out_stream (cx_client cx) @ encode_all (fst (spec_run t rs (db_view cx)))
      else status = -1 \<and> cl_write_failed (cx_client cx'))"

lemma try_process_requests:
  assumes "ready t cx" and "\<forall>r \<in> set rs. data_request r" and "incomplete part"
    and "pending 0 (cx_client cx) = wire rs @ part" and "\<not> cl_write_failed (cx_client cx)"
  shows "\<exists>status cx'. try_process_frames command_handlers cx = Some (status, cx') \<and> batch t rs part cx status cx'"
proof -
  obtain n cx1 where p: "n \<le> length rs" "served t (take n rs) cx cx1"
    "if cl_write_failed (cx_client cx1) then process_frames command_handlers 0 cx = Some (Inl cx1)
        else n = length rs \<and> process_frames command_handlers 0 cx = Some (Inr (length (wire rs), cx1))"
    using process_requests [OF assms(1-4) _ assms(5)] by auto
  show ?thesis
  proof (cases "cl_write_failed (cx_client cx1)")
    case True
    then show ?thesis using p(3) by (simp add: try_process_frames_def batch_def)
  next
    case False
    then have n: "n = length rs" and pf: "process_frames command_handlers 0 cx = Some (Inr (length (wire rs), cx1))"
      using p(3) by auto
    have sv: "served t rs cx cx1" using p(2) n by simp
    let ?c = "cx_client cx1" and ?pos = "length (wire rs)"
    note ci = ready_client [of t cx1]
    have r1: "ready t cx1" using sv by (simp add: served_def)
    have same: "same_input (cx_client cx) ?c" using sv by (simp add: served_def delivers_def)
    have pend: "pending 0 ?c = wire rs @ part" using same assms(4) by (simp add: pending_def same_input_def)
    have "length (pending 0 ?c) = cl_buf_used ?c" using ready_client [OF r1] by (simp add: pending_def client_inv_def)
    then have pos: "?pos \<le> cl_buf_used ?c" using pend by simp
    have pend': "pending ?pos ?c = part" using pend by (simp add: pending_def)
    note co = compact_ok [OF ready_client [OF r1] pos]
    define cx2 where "cx2 = cx_set_client (compact ?pos ?c) cx1"
    have r2: "ready t cx2" "db_view cx2 = db_view cx1" "cx_client cx2 = compact ?pos ?c"
      using r1 co(1) by (auto simp: cx2_def ready_def cx_set_client_def ctx_inv_def ctx_ok_def db_view_def cx_safe_def cx_time_def)
    define cx3 where "cx3 = (if length (cl_wbuf (cx_client cx2)) > 0 then cx_send wbuf_flush cx2 else cx2)"
    have tp: "try_process_frames command_handlers cx = Some (if cl_write_failed (cx_client cx3) then -1 else 0, cx3)"
      unfolding try_process_frames_def pf by (simp add: cx2_def cx3_def Let_def)
    have fl: "delivers [] (cx_client cx2) (cx_client cx3) \<and> ready t cx3 \<and> db_view cx3 = db_view cx2"
    proof (cases "length (cl_wbuf (cx_client cx2)) > 0")
      case True
      obtain c e where f: "wbuf_flush (cx_client cx2) (cx_env cx2) = (c, e)" by (meson surj_pair)
      note d = wbuf_flush_delivers [OF ready_client [OF r2(1)] f] and io = io_only_flush [OF f]
      have e: "cx3 = cx2\<lparr>cx_client := c, cx_env := e\<rparr>" using True f by (simp add: cx3_def cx_send_def)
      have "client_inv c" using d by (simp add: delivers_def)
      then show ?thesis using d io r2(1) e
        by (auto simp: ready_def ctx_inv_def ctx_ok_def db_view_def cx_safe_def cx_time_def io_only_def clock_ok_def)
    next
      case False
      then show ?thesis using r2(1) delivers_refl [OF ready_client [OF r2(1)]] by (simp add: cx3_def)
    qed
    have nf2: "\<not> cl_write_failed (cx_client cx2)" using co(4) False r2(3) by simp
    show ?thesis
    proof (cases "cl_write_failed (cx_client cx3)")
      case True
      then show ?thesis using tp by (simp add: batch_def)
    next
      case ok: False
      have "out_stream (cx_client cx3) = out_stream (cx_client cx2)" "same_input (cx_client cx2) (cx_client cx3)"
        using fl nf2 ok by (auto simp: delivers_def)
      moreover have "out_stream ?c = out_stream (cx_client cx) @ encode_all (fst (spec_run t rs (db_view cx)))"
        using sv assms(5) False by (auto simp: served_def delivers_def)
      ultimately show ?thesis
        using tp ok fl r2 co(2,3) pend' sv by (auto simp: batch_def served_def pending_def same_input_def)
    qed
  qed
qed

section \<open>Any segmentation\<close>

text \<open>A stream delivered by a sequence of \<open>recv\<close> calls, of which the kernel chooses the sizes:
  each gets as many bytes as asked, as the buffer has room for, or as are left.\<close>

fun feed :: "command_table \<Rightarrow> nat list \<Rightarrow> bytes \<Rightarrow> ctx \<Rightarrow> (int \<times> bytes \<times> ctx) option" where
  "feed handlers [] stream cx = Some (0, stream, cx)"
| "feed handlers (n # ns) stream cx =
     (if stream = [] then Some (0, [], cx)
      else let c = cx_client cx; data = take (min n (FKVS_CLIENT_READ_BUFFER_SIZE - cl_buf_used c)) stream in
        do {
          (status, cx) \<leftarrow> try_process_frames handlers (cx_set_client (receive data c) cx);
          if status < 0 then Some (status, drop (length data) stream, cx)
          else feed handlers ns (drop (length data) stream) cx
        })"

lemma spec_run_append:
  assumes "\<forall>r \<in> set as. data_request r"
  shows "spec_run t (as @ bs) s =
    (fst (spec_run t as s) @ fst (spec_run t bs (snd (spec_run t as s))), snd (spec_run t bs (snd (spec_run t as s))))"
  using assms
proof (induction as arbitrary: s)
  case (Cons r as)
  obtain resp s1 where "spec_step r t t s = Some (resp, s1)" using Cons.prems spec_step_defined by fastforce
  then show ?case using Cons by (simp add: split_beta)
qed simp

lemma spec_run_length: "\<forall>r \<in> set rs. data_request r \<Longrightarrow> length (fst (spec_run t rs s)) = length rs"
proof (induction rs arbitrary: s)
  case (Cons r rs)
  obtain resp s1 where "spec_step r t t s = Some (resp, s1)" using Cons.prems spec_step_defined by fastforce
  then show ?case using Cons by (simp add: split_beta)
qed simp

lemma batch_append:
  assumes "\<forall>r \<in> set as. data_request r" and "batch t as part cx 0 cx1" and "batch t bs part' cx1 status cx'"
  shows "batch t (as @ bs) part' cx status cx'"
  using assms by (auto simp: batch_def spec_run_append [OF assms(1)])

text \<open>Every prefix of a stream of frames is some frames and a proper beginning of the next.\<close>

lemma split_wire:
  assumes "wire rs = p @ q" and "\<forall>r \<in> set rs. data_request r"
  shows "\<exists>as bs part. rs = as @ bs \<and> p = wire as @ part \<and> incomplete part \<and> wire bs = part @ q"
  using assms
proof (induction rs arbitrary: p)
  case Nil
  then show ?case by (auto simp: incomplete_def)
next
  case (Cons r rs)
  show ?case
  proof (cases "length (request_frame r) \<le> length p")
    case True
    then obtain p' where p': "p = request_frame r @ p'"
      using Cons.prems(1) by (metis append_eq_append_conv_if append_take_drop_id wire_simps(2))
    then have "wire rs = p' @ q" using Cons.prems(1) by simp
    from Cons.IH [OF this] obtain as bs part where
      "rs = as @ bs" "p' = wire as @ part" "incomplete part" "wire bs = part @ q" using Cons.prems(2) by auto
    then show ?thesis using p' by (intro exI [of _ "r # as"] exI [of _ bs] exI [of _ part]) simp
  next
    case False
    then obtain q' where "request_frame r = p @ q'" "q' \<noteq> []"
      using Cons.prems(1) by (auto simp: append_eq_append_conv2)
    then have "incomplete p" using Cons.prems(2) by (auto simp: incomplete_def)
    then show ?thesis using Cons.prems(1) by (intro exI [of _ "[]"] exI [of _ "r # rs"] exI [of _ p]) simp
  qed
qed

lemma receive_ok:
  assumes "ready t cx" and "length data \<le> FKVS_CLIENT_READ_BUFFER_SIZE - cl_buf_used (cx_client cx)"
  defines "cx' \<equiv> cx_set_client (receive data (cx_client cx)) cx"
  shows "ready t cx'" and "pending 0 (cx_client cx') = pending 0 (cx_client cx) @ data"
    and "db_view cx' = db_view cx" and "out_stream (cx_client cx') = out_stream (cx_client cx)"
    and "cl_write_failed (cx_client cx') = cl_write_failed (cx_client cx)"
  using assms(1,2) ready_client [OF assms(1)]
  by (auto simp: cx'_def receive_def cx_set_client_def ready_def ctx_inv_def ctx_ok_def db_view_def cx_safe_def cx_time_def
      client_inv_def pending_def out_stream_def)

lemma frame_prefix:
  assumes "data_request r" and "data_request r'" and "request_frame r' = request_frame r @ x"
  shows "x = []"
proof -
  have l: "length (request_frame r) \<le> UINT16_MAX + 2" "length (request_frame r') \<le> UINT16_MAX + 2"
    using assms(1,2) by (auto simp: data_request_def)
  have "length (request_frame r) - 2 = length (request_frame r') - 2"
    using request_header(1) [OF l(1), of x] request_header(1) [OF l(2), of "[]"] assms(3) by simp
  then show ?thesis using request_header(2) [OF l(1)] assms(3) by (simp flip: length_0_conv)
qed

lemma incomplete_wire:
  assumes "\<forall>r \<in> set rs. data_request r" and "incomplete (wire rs)"
  shows "rs = []"
proof (cases rs)
  case (Cons r rest)
  then have f: "request_frame r \<noteq> []" using request_header(2) [of r] by auto
  then obtain r' q where "data_request r'" "request_frame r' = request_frame r @ (wire rest @ q)" "q \<noteq> []"
    using assms(2) Cons by (auto simp: incomplete_def)
  then show ?thesis using frame_prefix [of r r'] assms(1) Cons by auto
qed

lemma incomplete_room:
  assumes "client_inv c" and "incomplete (pending 0 c)"
  shows "cl_buf_used c < FKVS_CLIENT_READ_BUFFER_SIZE"
proof -
  have "length (pending 0 c) = cl_buf_used c" using assms(1) by (simp add: pending_def client_inv_def)
  then show ?thesis using assms(2) by (auto simp: incomplete_def data_request_def simp flip: length_greater_0_conv)
qed

lemma feed_requests:
  assumes "ready t cx" and "\<forall>r \<in> set rs. data_request r" and "pending 0 (cx_client cx) @ stream = wire rs"
    and "incomplete (pending 0 (cx_client cx))" and "\<not> cl_write_failed (cx_client cx)"
    and "\<forall>n \<in> set ns. 0 < n" and "length stream \<le> length ns"
  shows "\<exists>status rest cx'. feed command_handlers ns stream cx = Some (status, rest, cx') \<and> batch t rs [] cx status cx'
    \<and> (status = 0 \<longrightarrow> rest = [])"
  using assms
proof (induction ns arbitrary: cx rs stream)
  case Nil
  then have "rs = []" "pending 0 (cx_client cx) = []" using incomplete_wire [of rs] by auto
  then show ?case using Nil by (simp add: batch_def)
next
  case (Cons n ns)
  show ?case
  proof (cases "stream = []")
    case True
    then have "rs = []" "pending 0 (cx_client cx) = []" using Cons.prems incomplete_wire [of rs] by auto
    then show ?thesis using Cons.prems True by (simp add: batch_def)
  next
    case False
    define m where "m = min n (FKVS_CLIENT_READ_BUFFER_SIZE - cl_buf_used (cx_client cx))"
    define cx1 where "cx1 = cx_set_client (receive (take m stream) (cx_client cx)) cx"
    have m: "0 < m" using incomplete_room [OF ready_client [OF Cons.prems(1)] Cons.prems(4)] Cons.prems(6) by (simp add: m_def)
    have "length (take m stream) \<le> FKVS_CLIENT_READ_BUFFER_SIZE - cl_buf_used (cx_client cx)" by (simp add: m_def)
    note r = receive_ok [OF Cons.prems(1) this, folded cx1_def]
    have "wire rs = (pending 0 (cx_client cx) @ take m stream) @ drop m stream" using Cons.prems(3) by simp
    from split_wire [OF this Cons.prems(2)] obtain as bs part where
      s: "rs = as @ bs" "pending 0 (cx_client cx1) = wire as @ part" "incomplete part" "wire bs = part @ drop m stream"
      using r(2) by auto
    have dr: "\<forall>r \<in> set as. data_request r" "\<forall>r \<in> set bs. data_request r" using Cons.prems(2) s(1) by auto
    from try_process_requests [OF r(1) dr(1) s(3,2)] obtain status cx2 where
      t: "try_process_frames command_handlers cx1 = Some (status, cx2)" "batch t as part cx1 status cx2"
      using r(5) Cons.prems(5) by auto
    have dm: "drop (length (take m stream)) stream = drop m stream" by (simp add: min_def)
    have fd: "feed command_handlers (n # ns) stream cx =
        (if status < 0 then Some (status, drop m stream, cx2) else feed command_handlers ns (drop m stream) cx2)"
      using False t(1) by (simp add: Let_def m_def [symmetric] cx1_def [symmetric] dm del: length_take)
    have b: "batch t as part cx status cx2" using t(2) r(3,4) by (simp add: batch_def)
    show ?thesis
    proof (cases "status = 0")
      case True
      have "length (drop m stream) \<le> length ns" using Cons.prems(7) m by simp
      moreover have p2: "ready t cx2" "pending 0 (cx_client cx2) = part" "\<not> cl_write_failed (cx_client cx2)"
        using b True by (simp_all add: batch_def)
      ultimately obtain status' rest cx' where
        "feed command_handlers ns (drop m stream) cx2 = Some (status', rest, cx')" "batch t bs [] cx2 status' cx'" "status' = 0 \<longrightarrow> rest = []"
        using Cons.IH [OF p2(1) dr(2)] s(3,4) Cons.prems(6) by fastforce
      then show ?thesis using fd True batch_append [OF dr(1)] b s(1) by auto
    next
      case False
      then show ?thesis using b fd by (auto simp: batch_def)
    qed
  qed
qed

section \<open>What the commands leave alone\<close>

text \<open>The commands change the counters of the server and nothing else of it.\<close>

definition sv_fixed :: "server \<Rightarrow> server" where
  "sv_fixed srv = srv\<lparr>sv_metrics := \<lparr>ct_memory_usage = 0, ct_num_executed_commands = 0, ct_disconnected_clients = 0, ct_start_time = 0\<rparr>\<rparr>"

definition cx_fixed :: "ctx \<Rightarrow> server" where
  "cx_fixed cx = sv_fixed (cx_server cx)"

named_theorems fixed_simps

lemma fixed_basic [fixed_simps]:
  "cx_fixed (cx_send f cx) = cx_fixed cx" "cx_fixed (cx\<lparr>cx_env := e\<rparr>) = cx_fixed cx" "cx_fixed (cx\<lparr>cx_client := c\<rparr>) = cx_fixed cx"
  "cx_fixed (cx\<lparr>cx_client := c, cx_env := e\<rparr>) = cx_fixed cx" "cx_fixed (cx_set_client c cx) = cx_fixed cx"
  "cx_fixed (cx\<lparr>cx_server := (cx_server cx)\<lparr>sv_metrics := m\<rparr>\<rparr>) = cx_fixed cx"
  "cx_fixed (count_command cx) = cx_fixed cx"
  "cx_fixed (snd (table_set k d enc cx)) = cx_fixed cx" "cx_fixed (snd (expires_set k d enc cx)) = cx_fixed cx"
  "cx_fixed (snd (expires_put k t cx)) = cx_fixed cx" "cx_fixed (table_delete k cx) = cx_fixed cx"
  "cx_fixed (expires_delete k cx) = cx_fixed cx" "cx_fixed (expires_remove k cx) = cx_fixed cx"
  "cx_fixed (snd (table_snapshot k cx)) = cx_fixed cx" "cx_fixed (snd (expires_snapshot k cx)) = cx_fixed cx"
  "cx_fixed (snd (cx_malloc cx)) = cx_fixed cx" "cx_fixed (snd (cx_int64_to_string n cx)) = cx_fixed cx"
  "cx_fixed (snd (cx_now_ms cx)) = cx_fixed cx"
  by (auto simp: cx_fixed_def sv_fixed_def cx_send_def cx_set_client_def count_command_def table_set_def expires_set_def
      expires_put_def table_delete_def expires_delete_def cx_now_ms_def
      expires_remove_def table_snapshot_def expires_snapshot_def cx_malloc_def env_alloc_def
      cx_int64_to_string_def cx_set_allocs_def split: prod.split)

lemma fixed_expire [fixed_simps]: "cx_fixed (snd (check_and_expire k cx)) = cx_fixed cx"
  by (simp add: check_and_expire_def split_beta Let_def fixed_simps)

lemma fixed_set [fixed_simps]: "cx_fixed (store_set k d dl cx) = cx_fixed cx"
proof -
  have "cx_fixed (rollback_set k ov oe cx) = cx_fixed cx" for ov oe cx
    by (simp add: rollback_set_def Let_def fixed_simps split: option.split)
  then show ?thesis by (simp add: store_set_def Let_def split_beta fixed_simps split: option.split)
qed

lemma fixed_counter [fixed_simps]: "cx_fixed (change_counter k f cx) = cx_fixed cx"
  by (simp add: change_counter_def store_counter_def fetch_or_zero_def Let_def split_beta fixed_simps split: option.split)

lemma fixed_serve [fixed_simps]:
  "cx_fixed (serve_get k cx) = cx_fixed cx" "cx_fixed (serve_del k cx) = cx_fixed cx"
  "cx_fixed (reply_ttl k cx) = cx_fixed cx" "cx_fixed (serve_persist k cx) = cx_fixed cx"
  "cx_fixed (serve_expire k n s cx) = cx_fixed cx" "cx_fixed (snd (set_deadline s cx)) = cx_fixed cx"
  by (simp_all add: serve_get_def reply_lookup_def serve_del_def reply_ttl_def serve_persist_def serve_expire_def
      set_deadline_def Let_def split_beta fixed_simps split: option.split)

lemma fixed_reserve [fixed_simps]: "cx_fixed (snd (keys_reserve needed cap cx)) = cx_fixed cx"
  by (simp add: keys_reserve_def Let_def split_beta fixed_simps)

lemma fixed_chain [fixed_simps]: "cx_fixed (snd (keys_chain es buf cnt cap cx)) = cx_fixed cx"
  by (induction es arbitrary: buf cnt cap cx) (simp_all add: Let_def split_beta fixed_simps split: option.split)

lemma fixed_buckets [fixed_simps]: "cx_fixed (snd (keys_buckets ps buf cnt cap cx)) = cx_fixed cx"
proof (induction ps arbitrary: buf cnt cap cx)
  case (Cons p ps)
  then show ?case by (cases p) (simp add: split_beta fixed_simps split: option.split prod.split)
qed simp

lemma fixed_keys [fixed_simps]: "cx_fixed (list_keys cx) = cx_fixed cx"
  by (simp add: list_keys_def Let_def split_beta fixed_simps split: option.split prod.split)

lemma fixed_deadline: "set_deadline s cx = (ex, cx') \<Longrightarrow> cx_fixed cx' = cx_fixed cx"
  using fixed_serve(6) [of s cx] by simp

lemma fixed_parse: "parse_set_expiry buf n pos present cx = Some (ex, cx') \<Longrightarrow> cx_fixed cx' = cx_fixed cx"
  by (auto simp: parse_set_expiry_def Let_def bind_eq_Some_conv fixed_simps dest: fixed_deadline split: if_splits)

lemma case_sum_Some:
  "(case x of Inl a \<Rightarrow> f a | Inr b \<Rightarrow> g b) = Some r \<longleftrightarrow>
     (\<exists>a. x = Inl a \<and> f a = Some r) \<or> (\<exists>b. x = Inr b \<and> g b = Some r)"
  by (cases x) auto

lemma fixed_set_command: "handle_set_command buf n cx = Some cx' \<Longrightarrow> cx_fixed cx' = cx_fixed cx"
  by (auto simp: handle_set_command_def Let_def bind_eq_Some_conv case_sum_Some fixed_simps dest!: fixed_parse split: if_splits)

lemma fixed_handlers:
  "handle_get_command buf n cx = Some cx' \<Longrightarrow> cx_fixed cx' = cx_fixed cx"
  "handle_incr_command buf n cx = Some cx' \<Longrightarrow> cx_fixed cx' = cx_fixed cx"
  "handle_decr_command buf n cx = Some cx' \<Longrightarrow> cx_fixed cx' = cx_fixed cx"
  "handle_ping_command buf n cx = Some cx' \<Longrightarrow> cx_fixed cx' = cx_fixed cx"
  "handle_info_command buf n cx = Some cx' \<Longrightarrow> cx_fixed cx' = cx_fixed cx"
  "handle_del_command buf n cx = Some cx' \<Longrightarrow> cx_fixed cx' = cx_fixed cx"
  "handle_expire_command buf n cx = Some cx' \<Longrightarrow> cx_fixed cx' = cx_fixed cx"
  "handle_ttl_command buf n cx = Some cx' \<Longrightarrow> cx_fixed cx' = cx_fixed cx"
  "handle_persist_command buf n cx = Some cx' \<Longrightarrow> cx_fixed cx' = cx_fixed cx"
  "handle_keys_command buf n cx = Some cx' \<Longrightarrow> cx_fixed cx' = cx_fixed cx"
  "handle_by_command cmd f buf n cx = Some cx' \<Longrightarrow> cx_fixed cx' = cx_fixed cx"
  by (auto simp: handle_get_command_def handle_incr_command_def handle_decr_command_def handle_ping_command_def
      handle_info_command_def handle_del_command_def handle_expire_command_def handle_ttl_command_def
      handle_persist_command_def handle_keys_command_def handle_by_command_def
      Let_def bind_eq_Some_conv split_beta fixed_simps split: if_splits)

lemma fixed_handler:
  assumes "command_handlers cmd = Some f" and "f buf n cx = Some cx'"
  shows "cx_fixed cx' = cx_fixed cx"
proof -
  have "cmd \<in> set known_commands" using assms(1) command_handlers_None [of cmd] by auto
  then show ?thesis using assms
    by (auto simp: known_commands_def command_handlers_simps handle_incr_by_command_def handle_decr_by_command_def
        intro: fixed_set_command fixed_handlers)
qed

section \<open>Any bytes\<close>

text \<open>A step of the server on one connection: the invariant is kept, the configuration and the
  list of clients are left alone, and no allocation fails if none was to fail.\<close>

definition stays :: "ctx \<Rightarrow> ctx \<Rightarrow> bool" where
  "stays cx cx' \<longleftrightarrow> ctx_inv cx' \<and> (cx_safe cx \<longrightarrow> cx_safe cx') \<and> cx_fixed cx' = cx_fixed cx
     \<and> cl_fd (cx_client cx') = cl_fd (cx_client cx)
     \<and> cl_write_registered (cx_client cx') = cl_write_registered (cx_client cx)"

lemma stays_refl: "ctx_inv cx \<Longrightarrow> stays cx cx"
  by (simp add: stays_def)

lemma stays_trans: "stays a b \<Longrightarrow> stays b c \<Longrightarrow> stays a c"
  by (auto simp: stays_def)

lemma stays_client:
  assumes "ctx_inv cx" and "client_inv c" and "cl_fd c = cl_fd (cx_client cx)"
    and "cl_write_registered c = cl_write_registered (cx_client cx)"
  shows "stays cx (cx_set_client c cx)"
  using assms by (auto simp: stays_def fixed_simps) (auto simp: cx_set_client_def ctx_inv_def ctx_ok_def db_view_def cx_safe_def)

text \<open>Nothing complete is left at a position of the buffer.\<close>

definition starved :: "nat \<Rightarrow> client \<Rightarrow> bool" where
  "starved pos c \<longleftrightarrow> cl_buf_used c - pos < 2
     \<or> (case rd_u16 (cl_buffer c) pos of None \<Rightarrow> False
        | Some core_len \<Rightarrow> cl_buf_used c - pos < 2 + core_len \<and> 2 + core_len \<le> FKVS_CLIENT_READ_BUFFER_SIZE)"

lemma dispatch_keeps:
  assumes "ctx_inv cx" and "dispatch_command command_handlers buf n cx = Some cx'"
  shows "stays cx (count_command cx')" and "same_input (cx_client cx) (cx_client (count_command cx'))"
proof -
  have ok: "ctx_ok cx" using assms(1) by (simp add: ctx_inv_def)
  have "stays cx cx' \<and> same_input (cx_client cx) (cx_client cx')"
  proof (cases "cx' = cx")
    case True
    then show ?thesis using stays_refl [OF assms(1)] by (simp add: same_input_def)
  next
    case False
    then obtain cmd f where f: "command_handlers cmd = Some f" "f buf n cx = Some cx'"
      using assms(2) by (auto simp: dispatch_command_def bind_eq_Some_conv split: if_splits option.splits)
    note a = command_handlers_answer [OF f(1)]
    from answering_handler.handler_reply [OF a ok f(2)] have "same_input (cx_client cx) (cx_client cx')"
      by (auto simp: replies_def delivers_def)
    then show ?thesis using answering_handler.handler_inv [OF a assms(1) f(2)] fixed_handler [OF f]
      by (simp add: stays_def same_input_def)
  qed
  then show "stays cx (count_command cx')" "same_input (cx_client cx) (cx_client (count_command cx'))"
    by (simp_all add: stays_def fixed_simps)
      (simp_all add: count_command_def ctx_inv_def ctx_ok_def db_view_def cx_safe_def)
qed

lemma process_frames_dispatch:
  assumes "rd_u16 (cl_buffer (cx_client cx)) pos = Some core" and "2 + core \<le> FKVS_CLIENT_READ_BUFFER_SIZE"
    and "2 + core \<le> cl_buf_used (cx_client cx) - pos"
  shows "process_frames handlers pos cx =
    do {
      cx1 \<leftarrow> dispatch_command handlers (drop pos (cl_buffer (cx_client cx))) (2 + core) cx;
      if cl_write_failed (cx_client (count_command cx1)) then Some (Inl (count_command cx1))
      else process_frames handlers (pos + (2 + core)) (count_command cx1)
    }"
  using assms by (subst process_frames.simps) (simp add: Let_def cong: if_cong)

lemma process_frames_keeps:
  assumes "ctx_inv cx" and "pos \<le> cl_buf_used (cx_client cx)" and "process_frames command_handlers pos cx = Some r"
  shows "case r of
      Inl cx' \<Rightarrow> stays cx cx'
    | Inr (pos', cx') \<Rightarrow> stays cx cx' \<and> starved pos' (cx_client cx') \<and> pos' \<le> cl_buf_used (cx_client cx')"
  using assms
proof (induction "cl_buf_used (cx_client cx) - pos" arbitrary: pos cx rule: less_induct)
  case less
  let ?c = "cx_client cx"
  let ?avail = "cl_buf_used ?c - pos"
  show ?case
  proof (cases "?avail < 2")
    case True
    then have "r = Inr (pos, cx)" using less.prems(3) by (subst (asm) process_frames.simps) simp
    then show ?thesis using less.prems True stays_refl by (simp add: starved_def)
  next
    case False
    obtain core where core: "rd_u16 (cl_buffer ?c) pos = Some core"
      using less.prems(3) False by (subst (asm) process_frames.simps) (auto simp: Let_def bind_eq_Some_conv)
    show ?thesis
    proof (cases "2 + core > FKVS_CLIENT_READ_BUFFER_SIZE")
      case True
      then have "r = Inl (cx_set_client (?c\<lparr>cl_buf_used := 0, cl_frame_need := -1\<rparr>) cx)"
        using less.prems(3) False core by (subst (asm) process_frames.simps) (simp add: Let_def)
      moreover have "client_inv (?c\<lparr>cl_buf_used := 0, cl_frame_need := -1\<rparr>)"
        using less.prems(1) by (simp add: ctx_inv_def ctx_ok_def client_inv_def)
      ultimately show ?thesis using stays_client [OF less.prems(1)] by simp
    next
      case fits: False
      show ?thesis
      proof (cases "?avail < 2 + core")
        case True
        then have "r = Inr (pos, cx)"
          using less.prems(3) False core fits by (subst (asm) process_frames.simps) (simp add: Let_def)
        then show ?thesis using less.prems True core fits stays_refl by (simp add: starved_def)
      next
        case complete: False
        obtain cx1 where d: "dispatch_command command_handlers (drop pos (cl_buffer ?c)) (2 + core) cx = Some cx1"
          and r: "(if cl_write_failed (cx_client (count_command cx1)) then Some (Inl (count_command cx1))
            else process_frames command_handlers (pos + (2 + core)) (count_command cx1)) = Some r"
          using less.prems(3) process_frames_dispatch [OF core, of command_handlers] fits complete
          by (auto simp: bind_eq_Some_conv)
        let ?cx1 = "count_command cx1"
        note k = dispatch_keeps [OF less.prems(1) d]
        have u: "cl_buf_used (cx_client ?cx1) = cl_buf_used ?c" using k(2) by (simp add: same_input_def)
        have i: "ctx_inv ?cx1" using k(1) by (simp add: stays_def)
        show ?thesis
        proof (cases "cl_write_failed (cx_client ?cx1)")
          case True
          then show ?thesis using r k(1) by auto
        next
          case nf: False
          have "process_frames command_handlers (pos + (2 + core)) ?cx1 = Some r" using r nf by simp
          then have "case r of Inl cx' \<Rightarrow> stays ?cx1 cx'
            | Inr (pos', cx') \<Rightarrow> stays ?cx1 cx' \<and> starved pos' (cx_client cx') \<and> pos' \<le> cl_buf_used (cx_client cx')"
            using less.hyps [of ?cx1 "pos + (2 + core)"] u complete False i by auto
          then show ?thesis using stays_trans [OF k(1)] by (auto split: sum.splits)
        qed
      qed
    qed
  qed
qed

text \<open>Sending changes neither the tables nor what has been received.\<close>

lemma flush_keeps:
  assumes "ctx_inv cx"
  shows "stays cx (cx_send wbuf_flush cx)" and "same_input (cx_client cx) (cx_client (cx_send wbuf_flush cx))"
proof -
  obtain c e where f: "wbuf_flush (cx_client cx) (cx_env cx) = (c, e)" by (meson surj_pair)
  have ci: "client_inv (cx_client cx)" using assms by (simp add: ctx_inv_def ctx_ok_def)
  note d = wbuf_flush_delivers [OF ci f] and io = io_only_flush [OF f]
  show "same_input (cx_client cx) (cx_client (cx_send wbuf_flush cx))" using d f by (simp add: cx_send_def delivers_def)
  show "stays cx (cx_send wbuf_flush cx)" using d f io assms
    by (auto simp: stays_def fixed_simps)
      (auto simp: cx_send_def delivers_def same_input_def ctx_inv_def ctx_ok_def db_view_def io_only_def clock_ok_def cx_safe_def)
qed

lemma starved_compact:
  assumes "client_inv c" and "pos \<le> cl_buf_used c" and "starved pos c"
  shows "starved 0 (compact pos c)"
proof (cases "cl_buf_used c - pos < 2")
  case True
  then show ?thesis by (auto simp: starved_def compact_def Let_def)
next
  case False
  have "rd_u16 (cl_buffer (compact pos c)) 0 = rd_u16 (cl_buffer c) pos" if "0 < pos"
  proof -
    let ?p = "take (cl_buf_used c - pos) (drop pos (cl_buffer c))"
    have l: "2 \<le> length ?p" using False assms(1) by (auto simp: client_inv_def)
    have "rd_u16 (cl_buffer (compact pos c)) 0 = rd_u16 ?p 0"
      using that rd_u16_prefix [OF l] by (simp add: compact_def Let_def)
    also have "\<dots> = rd_u16 (drop pos (cl_buffer c)) 0"
      using rd_u16_prefix [OF l, of "drop (cl_buf_used c - pos) (drop pos (cl_buffer c))"] by (simp only: append_take_drop_id)
    finally show ?thesis by (simp add: rd_u16_drop)
  qed
  then show ?thesis using assms(3) by (cases "pos = 0") (auto simp: starved_def compact_def Let_def split: option.splits)
qed

lemma try_process_keeps:
  assumes "ctx_inv cx" and "try_process_frames command_handlers cx = Some (status, cx')"
  shows "stays cx cx'" and "status = 0 \<or> status = -1"
    and "status = 0 \<Longrightarrow> starved 0 (cx_client cx') \<and> cl_buf_used (cx_client cx') < FKVS_CLIENT_READ_BUFFER_SIZE
           \<and> \<not> cl_write_failed (cx_client cx')"
proof -
  obtain r where r: "process_frames command_handlers 0 cx = Some r"
    using assms(2) by (auto simp: try_process_frames_def bind_eq_Some_conv)
  note k = process_frames_keeps [OF assms(1) _ r]
  have "stays cx cx' \<and> (status = 0 \<or> status = -1) \<and> (status = 0 \<longrightarrow> starved 0 (cx_client cx') \<and> \<not> cl_write_failed (cx_client cx'))"
  proof (cases r)
    case (Inl cx1)
    then show ?thesis using k r assms(2) by (auto simp: try_process_frames_def)
  next
    case (Inr p)
    then obtain pos cx1 where p: "r = Inr (pos, cx1)" by (cases p) auto
    with k have k1: "stays cx cx1" "starved pos (cx_client cx1)" "pos \<le> cl_buf_used (cx_client cx1)" by auto
    have i1: "ctx_inv cx1" using k1(1) by (simp add: stays_def)
    have ci: "client_inv (cx_client cx1)" using i1 by (simp add: ctx_inv_def ctx_ok_def)
    define cx2 where "cx2 = cx_set_client (compact pos (cx_client cx1)) cx1"
    have s2: "stays cx1 cx2" using compact_ok(1) [OF ci k1(3)] unfolding cx2_def
      by (intro stays_client [OF i1]) (auto simp: compact_def Let_def)
    have i2: "ctx_inv cx2" "starved 0 (cx_client cx2)"
      using s2 starved_compact [OF ci k1(3,2)] by (auto simp: stays_def cx2_def cx_set_client_def)
    have t: "cx' = cx2 \<or> cx' = cx_send wbuf_flush cx2" "status = (if cl_write_failed (cx_client cx') then -1 else 0)"
      using assms(2) p r by (auto simp: try_process_frames_def cx2_def Let_def split: if_splits)
    have "stays cx2 cx' \<and> starved 0 (cx_client cx')"
      using t(1) i2 stays_refl flush_keeps [OF i2(1)] by (auto simp: starved_def same_input_def split: option.splits)
    then show ?thesis using t(2) stays_trans [OF stays_trans [OF k1(1) s2]] by auto
  qed
  then show "stays cx cx'" "status = 0 \<or> status = -1"
    "status = 0 \<Longrightarrow> starved 0 (cx_client cx') \<and> cl_buf_used (cx_client cx') < FKVS_CLIENT_READ_BUFFER_SIZE
       \<and> \<not> cl_write_failed (cx_client cx')"
    by (auto simp: starved_def split: option.splits)
qed

text \<open>C12: The read buffer never clogs.  Whatever bytes a connection has sent, when
  \<open>try_process_frames\<close> asks for more, no complete frame is left in the read buffer, the
  invariant of the server holds and there is room for at least one more byte, so that the
  next \<open>recv\<close> never asks for zero bytes, which it would take for the end of the stream.\<close>

theorem read_buffer_never_clogs:
  assumes "ctx_inv cx" and "try_process_frames command_handlers cx = Some (0, cx')"
  shows "ctx_inv cx' \<and> starved 0 (cx_client cx') \<and> cl_buf_used (cx_client cx') < FKVS_CLIENT_READ_BUFFER_SIZE"
  using try_process_keeps [OF assms] by (simp add: stays_def)

theorem read_buffer_never_clogs_witness:
  "\<exists>cx'. try_process_frames command_handlers (cx_set_client (receive [0, 4, 2] fresh_client) empty_ctx) = Some (0, cx')
    \<and> starved 0 (cx_client cx') \<and> cl_buf_used (cx_client cx') = 3"
proof -
  define c where "c = receive [0, 4, 2] fresh_client"
  define cx where "cx = cx_set_client c empty_ctx"
  have c: "cl_buf_used c = 3" "cl_wbuf c = []" "\<not> cl_write_failed c" "rd_u16 (cl_buffer c) 0 = Some 4"
    by (simp_all add: c_def receive_def fresh_client_def rd_u16_def rd_def get_u16_arith)
  have "client_inv c" by (simp add: c_def receive_def fresh_client_def client_inv_def)
  then have i: "ctx_inv cx" using empty_ctx_ok(1) by (simp add: cx_def cx_set_client_def ctx_inv_def ctx_ok_def db_view_def)
  have "process_frames command_handlers 0 cx = Some (Inr (0, cx))"
    using c by (subst process_frames.simps) (simp add: cx_def cx_set_client_def Let_def)
  then have t: "try_process_frames command_handlers cx = Some (0, cx)"
    using c by (simp add: try_process_frames_def cx_def cx_set_client_def compact_def)
  from read_buffer_never_clogs [OF i t] have "starved 0 (cx_client cx)" by simp
  then show ?thesis using t c(1) unfolding cx_def c_def [symmetric] by (auto simp: cx_set_client_def)
qed

text \<open>C3: Pipelined requests are served in order, however the stream is cut.  The frames of any
  requests (INFO and KEYS apart) sent back to back and received in any segments are all
  served: if the connection does not fail, every byte is consumed, the database is what the
  abstract commands make of it one after the other, and the replies are queued in the
  order of the requests, exactly one for each.\<close>

theorem pipeline_served_in_order:
  assumes "ready t cx" and "\<forall>r \<in> set rs. data_request r" and "cl_buf_used (cx_client cx) = 0"
    and "\<not> cl_write_failed (cx_client cx)" and "\<forall>n \<in> set ns. 0 < n" and "length (wire rs) \<le> length ns"
  shows "\<exists>status rest cx'. feed command_handlers ns (wire rs) cx = Some (status, rest, cx')
    \<and> (if status = 0
       then rest = [] \<and> cl_buf_used (cx_client cx') = 0 \<and> ready t cx'
         \<and> db_view cx' = snd (spec_run t rs (db_view cx))
         \<and> out_stream (cx_client cx') = out_stream (cx_client cx) @ encode_all (fst (spec_run t rs (db_view cx)))
         \<and> length (fst (spec_run t rs (db_view cx))) = length rs
       else status = -1 \<and> cl_write_failed (cx_client cx'))"
proof -
  have p: "pending 0 (cx_client cx) = []" using assms(3) by (simp add: pending_def)
  then have "pending 0 (cx_client cx) @ wire rs = wire rs" "incomplete (pending 0 (cx_client cx))"
    by (simp_all add: incomplete_def)
  from feed_requests [OF assms(1,2) this assms(4-6)] obtain status rest cx' where
    f: "feed command_handlers ns (wire rs) cx = Some (status, rest, cx')" "batch t rs [] cx status cx'" "status = 0 \<longrightarrow> rest = []"
    by blast
  have "cl_buf_used (cx_client cx') = 0" if "status = 0"
  proof -
    have "ready t cx'" "pending 0 (cx_client cx') = []" using f(2) that by (simp_all add: batch_def)
    then show ?thesis using ready_client [of t cx'] by (auto simp: pending_def client_inv_def)
  qed
  then show ?thesis using f spec_run_length [OF assms(2)] by (auto simp: batch_def)
qed

theorem pipeline_served_in_order_witness:
  "\<exists>status rest cx'. feed command_handlers (replicate 20 2) (wire [Req_set [107] [118], Req_get [107]]) empty_ctx = Some (status, rest, cx')
    \<and> (if status = 0 then out_stream (cx_client cx') = encode_all [Resp_value [118], Resp_value [118]] else cl_write_failed (cx_client cx'))"
proof -
  let ?rs = "[Req_set [107] [118], Req_get [107]]"
  have r: "ready 1000 empty_ctx"
    using empty_ctx_ok by (simp add: ready_def cx_time_def empty_ctx_def)
  have d: "\<forall>r \<in> set ?rs. data_request r" by (simp add: data_request_def pair_frame_def key_frame_def)
  have c: "cl_buf_used (cx_client empty_ctx) = 0" "\<not> cl_write_failed (cx_client empty_ctx)" "out_stream (cx_client empty_ctx) = []"
    by (simp_all add: empty_ctx_def fresh_client_def out_stream_def)
  have w: "length (wire ?rs) \<le> length (replicate 20 2)" by (simp add: pair_frame_def key_frame_def)
  have s: "fst (spec_run 1000 ?rs (db_view empty_ctx)) = [Resp_value [118], Resp_value [118]]"
    by (simp add: empty_ctx_ok(5) spec_set_def spec_get_def a_expire_def a_late_def)
  from pipeline_served_in_order [OF r d c(1,2) _ w] show ?thesis unfolding s c(3) by (auto split: if_splits)
qed

end
