(* ===== verification/Linked_List.thy ===== *)
theory Linked_List
  imports Registry
begin

text \<open>
  \<open>src/core/list.c\<close>: the doubly linked list that holds the connected clients.  The nodes
  live in an explicit heap, so that a wrong link, a dereferenced NULL or freed node and a
  double free are visible: the operation is then \<open>None\<close>.  Proved: every operation
  implements its counterpart on sequences, and the loops end on well-formed lists.
\<close>

section \<open>Nodes, lists and the heap\<close>

type_synonym addr = nat

record list_node =
  ln_prev :: "addr option"
  ln_next :: "addr option"
  ln_val :: addr

text \<open>\<open>lt_free\<close> tells whether the callback that releases a value is set.\<close>

record list_t =
  lt_head :: "addr option"
  lt_tail :: "addr option"
  lt_len :: int
  lt_free :: bool

text \<open>
  Addresses are never given out twice, so that an access to a released node is an access
  outside the heap even after later allocations.
\<close>

record node_heap =
  nh_cells :: "addr \<rightharpoonup> list_node"
  nh_next :: addr

definition malloc_node :: "list_node \<Rightarrow> node_heap \<Rightarrow> env \<Rightarrow> addr option \<times> node_heap \<times> env" where
  "malloc_node n h e =
     (let (ok, e) = env_alloc e in
      if ok then (Some (nh_next h), h\<lparr>nh_next := Suc (nh_next h), nh_cells := (nh_cells h)(nh_next h \<mapsto> n)\<rparr>, e)
      else (None, h, e))"

definition free_node :: "addr \<Rightarrow> node_heap \<Rightarrow> node_heap option" where
  "free_node p h = (if nh_cells h p = None then None else Some (h\<lparr>nh_cells := (nh_cells h)(p := None)\<rparr>))"

definition write_node :: "addr \<Rightarrow> (list_node \<Rightarrow> list_node) \<Rightarrow> node_heap \<Rightarrow> node_heap option" where
  "write_node p f h = do { n \<leftarrow> nh_cells h p; Some (h\<lparr>nh_cells := (nh_cells h)(p \<mapsto> f n)\<rparr>) }"

text \<open>Assignment through a pointer that the code has compared with NULL.\<close>

definition write_if :: "addr option \<Rightarrow> (list_node \<Rightarrow> list_node) \<Rightarrow> node_heap \<Rightarrow> node_heap option" where
  "write_if po f h = (case po of None \<Rightarrow> Some h | Some p \<Rightarrow> write_node p f h)"

section \<open>Operations\<close>

definition listCreate :: "env \<Rightarrow> list_t option \<times> env" where
  "listCreate e =
     (let (ok, e) = env_alloc e in
      (if ok then Some \<lparr>lt_head = None, lt_tail = None, lt_len = 0, lt_free = False\<rparr> else None, e))"

text \<open>The values handed to the callback are the first result.\<close>

partial_function (option) empty_loop :: "bool \<Rightarrow> addr option \<Rightarrow> node_heap \<Rightarrow> (addr list \<times> node_heap) option" where
  "empty_loop callback current h =
     (case current of
        None \<Rightarrow> Some ([], h)
      | Some p \<Rightarrow> do {
          node \<leftarrow> nh_cells h p;
          h \<leftarrow> free_node p h;
          (vs, h) \<leftarrow> empty_loop callback (ln_next node) h;
          Some (if callback then ln_val node # vs else vs, h)
        })"

definition listEmpty :: "list_t \<Rightarrow> node_heap \<Rightarrow> (addr list \<times> list_t \<times> node_heap) option" where
  "listEmpty l h = do {
     (vs, h) \<leftarrow> empty_loop (lt_free l) (lt_head l) h;
     Some (vs, l\<lparr>lt_tail := None, lt_head := None, lt_len := 0\<rparr>, h)
   }"

definition listLinkNodeToHead :: "list_t \<Rightarrow> addr \<Rightarrow> node_heap \<Rightarrow> (list_t \<times> node_heap) option" where
  "listLinkNodeToHead l p h =
     (if lt_len l = 0 then do {
        h \<leftarrow> write_node p (\<lambda>n. n\<lparr>ln_next := None, ln_prev := None\<rparr>) h;
        Some (l\<lparr>lt_head := Some p, lt_tail := Some p, lt_len := lt_len l + 1\<rparr>, h)
      }
      else do {
        h \<leftarrow> write_node p (\<lambda>n. n\<lparr>ln_next := lt_head l, ln_prev := None\<rparr>) h;
        head \<leftarrow> lt_head l;
        h \<leftarrow> write_node head (\<lambda>n. n\<lparr>ln_prev := Some p\<rparr>) h;
        Some (l\<lparr>lt_head := Some p, lt_len := lt_len l + 1\<rparr>, h)
      })"

text \<open>
  The operations that add a node return the list, or NULL when the node cannot be
  allocated: the first result.  The fields of a new node that the code has not set yet
  hold NULL here; they are written before they are read.
\<close>

definition listAddNodeToHead :: "list_t \<Rightarrow> addr \<Rightarrow> node_heap \<Rightarrow> env \<Rightarrow> (bool \<times> list_t \<times> node_heap \<times> env) option" where
  "listAddNodeToHead l v h e =
     (case malloc_node \<lparr>ln_prev = None, ln_next = None, ln_val = v\<rparr> h e of
        (None, h, e) \<Rightarrow> Some (False, l, h, e)
      | (Some p, h, e) \<Rightarrow> do { (l, h) \<leftarrow> listLinkNodeToHead l p h; Some (True, l, h, e) })"

definition listAddNodeToTail :: "list_t \<Rightarrow> addr \<Rightarrow> node_heap \<Rightarrow> env \<Rightarrow> (bool \<times> list_t \<times> node_heap \<times> env) option" where
  "listAddNodeToTail l v h e =
     (case malloc_node \<lparr>ln_prev = lt_tail l, ln_next = None, ln_val = v\<rparr> h e of
        (None, h, e) \<Rightarrow> Some (False, l, h, e)
      | (Some p, h, e) \<Rightarrow> do {
          h \<leftarrow> write_if (lt_tail l) (\<lambda>n. n\<lparr>ln_next := Some p\<rparr>) h;
          let l = l\<lparr>lt_tail := Some p\<rparr>;
          let l = (if lt_head l = None then l\<lparr>lt_head := Some p\<rparr> else l);
          Some (True, l\<lparr>lt_len := lt_len l + 1\<rparr>, h, e)
        })"

definition listInsertNode ::
  "list_t \<Rightarrow> addr \<Rightarrow> addr \<Rightarrow> bool \<Rightarrow> node_heap \<Rightarrow> env \<Rightarrow> (bool \<times> list_t \<times> node_heap \<times> env) option" where
  "listInsertNode l old_node v after h e =
     (case malloc_node \<lparr>ln_prev = None, ln_next = None, ln_val = v\<rparr> h e of
        (None, h, e) \<Rightarrow> Some (False, l, h, e)
      | (Some p, h, e) \<Rightarrow> do {
          old \<leftarrow> nh_cells h old_node;
          let (next, prev) = (if after then (ln_next old, Some old_node) else (Some old_node, ln_prev old));
          h \<leftarrow> write_node p (\<lambda>n. n\<lparr>ln_next := next, ln_prev := prev\<rparr>) h;
          let l = (if after \<and> lt_tail l = Some old_node then l\<lparr>lt_tail := Some p\<rparr>
                   else if \<not> after \<and> lt_head l = Some old_node then l\<lparr>lt_head := Some p\<rparr> else l);
          h \<leftarrow> write_if prev (\<lambda>n. n\<lparr>ln_next := Some p\<rparr>) h;
          h \<leftarrow> write_if next (\<lambda>n. n\<lparr>ln_prev := Some p\<rparr>) h;
          Some (True, l\<lparr>lt_len := lt_len l + 1\<rparr>, h, e)
        })"

text \<open>The value handed to the callback, if there is one, is the first result.\<close>

definition listDeleteNode :: "list_t \<Rightarrow> addr \<Rightarrow> node_heap \<Rightarrow> (addr option \<times> list_t \<times> node_heap) option" where
  "listDeleteNode l p h = do {
     node \<leftarrow> nh_cells h p;
     (l, h) \<leftarrow> (case ln_prev node of
        Some q \<Rightarrow> do { h \<leftarrow> write_node q (\<lambda>n. n\<lparr>ln_next := ln_next node\<rparr>) h; Some (l, h) }
      | None \<Rightarrow> Some (l\<lparr>lt_head := ln_next node\<rparr>, h));
     (l, h) \<leftarrow> (case ln_next node of
        Some q \<Rightarrow> do { h \<leftarrow> write_node q (\<lambda>n. n\<lparr>ln_prev := ln_prev node\<rparr>) h; Some (l, h) }
      | None \<Rightarrow> Some (l\<lparr>lt_tail := ln_prev node\<rparr>, h));
     h \<leftarrow> free_node p h;
     Some (if lt_free l then Some (ln_val node) else None, l\<lparr>lt_len := lt_len l - 1\<rparr>, h)
   }"

partial_function (option) find_loop :: "(addr \<Rightarrow> bool option) \<Rightarrow> addr option \<Rightarrow> node_heap \<Rightarrow> addr option option" where
  "find_loop test current h =
     (case current of
        None \<Rightarrow> Some None
      | Some p \<Rightarrow> do {
          node \<leftarrow> nh_cells h p;
          hit \<leftarrow> test (ln_val node);
          if hit then Some (Some p) else find_loop test (ln_next node) h
        })"

definition listFindNode :: "list_t \<Rightarrow> addr option \<Rightarrow> addr \<Rightarrow> node_heap \<Rightarrow> addr option option" where
  "listFindNode l start v h =
     find_loop (\<lambda>x. Some (x = v)) (case start of Some p \<Rightarrow> Some p | None \<Rightarrow> lt_head l) h"

text \<open>The values are pointers to clients; \<open>fds\<close> reads the descriptor of one.\<close>

definition listFindNodeByFd :: "(addr \<rightharpoonup> int) \<Rightarrow> list_t \<Rightarrow> int \<Rightarrow> node_heap \<Rightarrow> addr option option" where
  "listFindNodeByFd fds l fd h = find_loop (\<lambda>x. map_option (\<lambda>f. f = fd) (fds x)) (lt_head l) h"

section \<open>The sequence a list represents\<close>

text \<open>The heap holds exactly the nodes of the list.  The nodes of a list segment as pairs of address and value, from the predecessor \<open>p\<close> of
  the first to the successor \<open>q\<close> of the last.\<close>

definition first_ptr :: "(addr \<times> addr) list \<Rightarrow> addr option \<Rightarrow> addr option" where
  "first_ptr ns q = (case ns of [] \<Rightarrow> q | (x, _) # _ \<Rightarrow> Some x)"

definition last_ptr :: "addr option \<Rightarrow> (addr \<times> addr) list \<Rightarrow> addr option" where
  "last_ptr p ns = (if ns = [] then p else Some (fst (last ns)))"

lemma ptr_simps [simp]:
  "first_ptr [] q = q" "first_ptr ((x, v) # ns) q = Some x" "last_ptr p [] = p" "last_ptr p (as @ [(x, v)]) = Some x"
  "last_ptr p (as @ (x, v) # bs) = last_ptr (Some x) bs" "last_ptr p ((x, v) # bs) = last_ptr (Some x) bs"
  "first_ptr (as @ bs) q = first_ptr as (first_ptr bs q)"
  by (auto simp: first_ptr_def last_ptr_def split: list.splits)

fun dseg :: "(addr \<rightharpoonup> list_node) \<Rightarrow> addr option \<Rightarrow> (addr \<times> addr) list \<Rightarrow> addr option \<Rightarrow> bool" where
  "dseg h p [] q \<longleftrightarrow> True"
| "dseg h p ((x, v) # ns) q \<longleftrightarrow>
     h x = Some \<lparr>ln_prev = p, ln_next = first_ptr ns q, ln_val = v\<rparr> \<and> dseg h (Some x) ns q"

definition list_rep :: "node_heap \<Rightarrow> list_t \<Rightarrow> (addr \<times> addr) list \<Rightarrow> bool" where
  "list_rep h l ns \<longleftrightarrow> dseg (nh_cells h) None ns None \<and> distinct (map fst ns)
     \<and> lt_head l = first_ptr ns None \<and> lt_tail l = last_ptr None ns \<and> lt_len l = int (length ns)
     \<and> dom (nh_cells h) = fst ` set ns \<and> (\<forall>p \<in> fst ` set ns. p < nh_next h)"

lemma dseg_append: "dseg h p (as @ bs) q \<longleftrightarrow> dseg h p as (first_ptr bs q) \<and> dseg h (last_ptr p as) bs q"
proof (induction as arbitrary: p)
  case (Cons a as)
  then show ?case by (cases a) auto
qed simp

lemma dseg_frame: "(\<And>x. x \<in> fst ` set ns \<Longrightarrow> h' x = h x) \<Longrightarrow> dseg h' p ns q = dseg h p ns q"
  by (induction h p ns q rule: dseg.induct) auto

lemma dseg_other [simp]: "x \<notin> fst ` set ns \<Longrightarrow> dseg (h(x := c)) p ns q = dseg h p ns q"
  by (rule dseg_frame) auto

lemma dseg_dom: "dseg h p ns q \<Longrightarrow> fst ` set ns \<subseteq> dom h"
  by (induction h p ns q rule: dseg.induct) auto

text \<open>What a write through a link leaves alone.\<close>

definition relinked :: "(addr \<times> addr) list \<Rightarrow> node_heap \<Rightarrow> node_heap \<Rightarrow> bool" where
  "relinked ns h h' \<longleftrightarrow> nh_next h' = nh_next h \<and> dom (nh_cells h') = dom (nh_cells h)
     \<and> (\<forall>x. x \<notin> fst ` set ns \<longrightarrow> nh_cells h' x = nh_cells h x)"

lemma relinked_seg: "relinked ns h h' \<Longrightarrow> fst ` set ns \<inter> fst ` set ms = {} \<Longrightarrow> dseg (nh_cells h') p ms q = dseg (nh_cells h) p ms q"
  by (rule dseg_frame) (metis relinked_def disjoint_iff)

lemma write_next:
  assumes "dseg (nh_cells h) p as q" and "distinct (map fst as)"
  shows "\<exists>h'. write_if (last_ptr None as) (\<lambda>n. n\<lparr>ln_next := q'\<rparr>) h = Some h' \<and> dseg (nh_cells h') p as q' \<and> relinked as h h'"
proof (cases as rule: rev_cases)
  case Nil
  then show ?thesis by (simp add: write_if_def relinked_def)
next
  case (snoc bs xv)
  then show ?thesis using assms
    by (cases xv) (auto simp: dseg_append write_if_def write_node_def relinked_def)
qed

lemma write_prev:
  assumes "dseg (nh_cells h) p bs q" and "distinct (map fst bs)"
  shows "\<exists>h'. write_if (first_ptr bs None) (\<lambda>n. n\<lparr>ln_prev := p'\<rparr>) h = Some h' \<and> dseg (nh_cells h') p' bs q \<and> relinked bs h h'"
proof (cases bs)
  case Nil
  then show ?thesis by (simp add: write_if_def relinked_def)
next
  case (Cons xv cs)
  then show ?thesis using assms
    by (cases xv) (auto simp: write_if_def write_node_def relinked_def)
qed

text \<open>Both links between two segments, in the order in which the code writes them.\<close>

lemma write_links:
  assumes "dseg (nh_cells h) None as q" and "dseg (nh_cells h) p bs None" and "distinct (map fst (as @ bs))"
  shows "\<exists>h1 h2. write_if (last_ptr None as) (\<lambda>n. n\<lparr>ln_next := q'\<rparr>) h = Some h1
    \<and> write_if (first_ptr bs None) (\<lambda>n. n\<lparr>ln_prev := p'\<rparr>) h1 = Some h2
    \<and> dseg (nh_cells h2) None as q' \<and> dseg (nh_cells h2) p' bs None \<and> relinked (as @ bs) h h2"
proof -
  have d: "distinct (map fst as)" "distinct (map fst bs)" and i: "fst ` set as \<inter> fst ` set bs = {}" using assms(3) by auto
  from write_next [OF assms(1) d(1)] obtain h1 where
    h1: "write_if (last_ptr None as) (\<lambda>n. n\<lparr>ln_next := q'\<rparr>) h = Some h1" "dseg (nh_cells h1) None as q'" "relinked as h h1" by blast
  have "dseg (nh_cells h1) p bs None" using relinked_seg [OF h1(3) i] assms(2) by simp
  from write_prev [OF this d(2)] obtain h2 where
    h2: "write_if (first_ptr bs None) (\<lambda>n. n\<lparr>ln_prev := p'\<rparr>) h1 = Some h2" "dseg (nh_cells h2) p' bs None" "relinked bs h1 h2" by blast
  have "dseg (nh_cells h2) None as q'" using relinked_seg [OF h2(3)] h1(2) i by (metis inf_commute)
  moreover have "relinked (as @ bs) h h2" using h1(3) h2(3) by (simp add: relinked_def image_Un)
  ultimately show ?thesis using h1(1) h2(1,2) by blast
qed

section \<open>The operations implement those on sequences\<close>

lemma list_rep_fresh: "list_rep h l ns \<Longrightarrow> nh_next h \<notin> fst ` set ns"
  using dseg_dom by (fastforce simp: list_rep_def)

lemma list_rep_parts:
  assumes "list_rep h l (as @ bs)"
  shows "dseg (nh_cells h) None as (first_ptr bs None)" and "dseg (nh_cells h) (last_ptr None as) bs None"
    and "distinct (map fst (as @ bs))"
  using assms by (simp_all add: list_rep_def dseg_append)

text \<open>A new node between two segments.\<close>

lemma link_node:
  fixes h :: node_heap and l :: list_t and as bs :: "(addr \<times> addr) list" and x v :: addr
  assumes r: "list_rep h l (as @ bs)" and x: "x = nh_next h"
  defines "h0 \<equiv> h\<lparr>nh_next := Suc x, nh_cells := (nh_cells h)(x \<mapsto> \<lparr>ln_prev = last_ptr None as, ln_next = first_ptr bs None, ln_val = v\<rparr>)\<rparr>"
  shows "\<exists>h1 h2. write_if (last_ptr None as) (\<lambda>n. n\<lparr>ln_next := Some x\<rparr>) h0 = Some h1
    \<and> write_if (first_ptr bs None) (\<lambda>n. n\<lparr>ln_prev := Some x\<rparr>) h1 = Some h2
    \<and> (\<forall>l'. lt_head l' = first_ptr (as @ [(x, v)]) None \<longrightarrow> lt_tail l' = last_ptr (Some x) bs
         \<longrightarrow> lt_len l' = lt_len l + 1 \<longrightarrow> list_rep h2 l' (as @ (x, v) # bs))"
proof -
  have fr: "x \<notin> fst ` set as" "x \<notin> fst ` set bs" using list_rep_fresh [OF r] x by auto
  note p = list_rep_parts [OF r]
  have "dseg (nh_cells h0) None as (first_ptr bs None)" "dseg (nh_cells h0) (last_ptr None as) bs None"
    using p(1,2) fr by (simp_all add: h0_def)
  from write_links [OF this p(3), of "Some x" "Some x"] obtain h1 h2 where
    w: "write_if (last_ptr None as) (\<lambda>n. n\<lparr>ln_next := Some x\<rparr>) h0 = Some h1"
       "write_if (first_ptr bs None) (\<lambda>n. n\<lparr>ln_prev := Some x\<rparr>) h1 = Some h2"
       "dseg (nh_cells h2) None as (Some x)" "dseg (nh_cells h2) (Some x) bs None" "relinked (as @ bs) h0 h2" by blast
  have cx: "nh_cells h2 x = Some \<lparr>ln_prev = last_ptr None as, ln_next = first_ptr bs None, ln_val = v\<rparr>"
    using w(5) fr by (auto simp: relinked_def h0_def)
  have bound: "dom (nh_cells h2) = fst ` set (as @ (x, v) # bs)" "\<forall>p \<in> fst ` set (as @ (x, v) # bs). p < nh_next h2"
    using w(5) r x by (auto simp: relinked_def h0_def list_rep_def less_Suc_eq)
  have seg: "dseg (nh_cells h2) None (as @ (x, v) # bs) None" using w(3,4) cx by (simp add: dseg_append)
  have dist: "distinct (map fst (as @ (x, v) # bs))" using p(3) fr by auto
  have len: "lt_len l = int (length (as @ bs))" using r by (simp add: list_rep_def)
  show ?thesis using w(1,2) seg dist bound len
    by (intro exI [of _ h1] exI [of _ h2]) (simp add: list_rep_def)
qed

lemma unlink_node:
  assumes r: "list_rep h l (as @ (x, v) # bs)"
  shows "nh_cells h x = Some \<lparr>ln_prev = last_ptr None as, ln_next = first_ptr bs None, ln_val = v\<rparr>"
    and "\<exists>h1 h2. write_if (last_ptr None as) (\<lambda>n. n\<lparr>ln_next := first_ptr bs None\<rparr>) h = Some h1
    \<and> write_if (first_ptr bs None) (\<lambda>n. n\<lparr>ln_prev := last_ptr None as\<rparr>) h1 = Some h2
    \<and> (\<exists>h3. free_node x h2 = Some h3 \<and> nh_next h3 = nh_next h \<and>
        (\<forall>l'. lt_head l' = first_ptr (as @ bs) None \<longrightarrow> lt_tail l' = last_ptr None (as @ bs)
         \<longrightarrow> lt_len l' = lt_len l - 1 \<longrightarrow> list_rep h3 l' (as @ bs)))"
proof -
  have fr: "x \<notin> fst ` set as" "x \<notin> fst ` set bs" and d: "distinct (map fst (as @ bs))"
    using r by (auto simp: list_rep_def)
  have p: "dseg (nh_cells h) None as (Some x)" "dseg (nh_cells h) (Some x) bs None"
    using list_rep_parts(1,2) [OF r] by simp_all
  show c: "nh_cells h x = Some \<lparr>ln_prev = last_ptr None as, ln_next = first_ptr bs None, ln_val = v\<rparr>"
    using list_rep_parts(2) [OF r] by simp
  from write_links [OF p d, of "first_ptr bs None" "last_ptr None as"] obtain h1 h2 where
    w: "write_if (last_ptr None as) (\<lambda>n. n\<lparr>ln_next := first_ptr bs None\<rparr>) h = Some h1"
       "write_if (first_ptr bs None) (\<lambda>n. n\<lparr>ln_prev := last_ptr None as\<rparr>) h1 = Some h2"
       "dseg (nh_cells h2) None as (first_ptr bs None)" "dseg (nh_cells h2) (last_ptr None as) bs None" "relinked (as @ bs) h h2" by blast
  have "nh_cells h2 x = nh_cells h x" using w(5) fr by (auto simp: relinked_def)
  then have f: "free_node x h2 = Some (h2\<lparr>nh_cells := (nh_cells h2)(x := None)\<rparr>)" using c by (simp add: free_node_def)
  have dm: "dom ((nh_cells h2)(x := None)) = fst ` set (as @ bs)" using w(5) r fr by (auto simp: relinked_def list_rep_def)
  have bound: "\<forall>p \<in> fst ` set (as @ bs). p < nh_next h2" using w(5) r by (auto simp: relinked_def list_rep_def)
  have seg: "dseg ((nh_cells h2)(x := None)) None (as @ bs) None" using w(3,4) fr by (simp add: dseg_append)
  have len: "lt_len l = int (length (as @ bs)) + 1" using r by (simp add: list_rep_def)
  have "nh_next h2 = nh_next h" using w(5) by (simp add: relinked_def)
  then show "\<exists>h1 h2. write_if (last_ptr None as) (\<lambda>n. n\<lparr>ln_next := first_ptr bs None\<rparr>) h = Some h1
    \<and> write_if (first_ptr bs None) (\<lambda>n. n\<lparr>ln_prev := last_ptr None as\<rparr>) h1 = Some h2
    \<and> (\<exists>h3. free_node x h2 = Some h3 \<and> nh_next h3 = nh_next h \<and>
        (\<forall>l'. lt_head l' = first_ptr (as @ bs) None \<longrightarrow> lt_tail l' = last_ptr None (as @ bs)
         \<longrightarrow> lt_len l' = lt_len l - 1 \<longrightarrow> list_rep h3 l' (as @ bs)))"
    using w(1,2) f bound dm d seg len
    by (intro exI [of _ h1] exI [of _ h2]) (simp add: list_rep_def)
qed

lemma listAddNodeToTail_rep:
  assumes "list_rep h l ns" and "fst (env_alloc e)"
  shows "\<exists>l' h'. listAddNodeToTail l v h e = Some (True, l', h', snd (env_alloc e))
    \<and> list_rep h' l' (ns @ [(nh_next h, v)]) \<and> nh_next h' = Suc (nh_next h) \<and> lt_free l' = lt_free l"
proof -
  have r: "list_rep h l (ns @ [])" using assms(1) by simp
  obtain e' where e: "env_alloc e = (True, e')" using assms(2) by (cases "env_alloc e") auto
  have lt: "lt_tail l = last_ptr None ns" "lt_head l = first_ptr ns None" using assms(1) by (simp_all add: list_rep_def)
  from link_node [OF r refl, of v] obtain h1 where
    w: "write_if (lt_tail l) (\<lambda>n. n\<lparr>ln_next := Some (nh_next h)\<rparr>)
       (h\<lparr>nh_next := Suc (nh_next h), nh_cells := (nh_cells h)(nh_next h \<mapsto> \<lparr>ln_prev = lt_tail l, ln_next = None, ln_val = v\<rparr>)\<rparr>) = Some h1"
    and rep: "\<forall>l'. lt_head l' = first_ptr (ns @ [(nh_next h, v)]) None \<longrightarrow> lt_tail l' = Some (nh_next h)
         \<longrightarrow> lt_len l' = lt_len l + 1 \<longrightarrow> list_rep h1 l' (ns @ [(nh_next h, v)])"
    unfolding lt by (auto simp: write_if_def)
  have nx: "nh_next h1 = Suc (nh_next h)" using w by (auto simp: write_if_def write_node_def bind_eq_Some_conv split: option.splits)
  define l1 where "l1 = l\<lparr>lt_tail := Some (nh_next h)\<rparr>"
  define l' where "l' = (let m = if lt_head l1 = None then l1\<lparr>lt_head := Some (nh_next h)\<rparr> else l1 in m\<lparr>lt_len := lt_len m + 1\<rparr>)"
  have "listAddNodeToTail l v h e = Some (True, l', h1, e')"
    using e w by (simp add: listAddNodeToTail_def malloc_node_def l'_def l1_def Let_def)
  moreover have "list_rep h1 l' (ns @ [(nh_next h, v)])"
    using lt(2) by (intro rep [rule_format]) (auto simp: l'_def l1_def Let_def first_ptr_def split: list.splits)
  moreover have "lt_free l' = lt_free l" by (simp add: l'_def l1_def Let_def)
  ultimately show ?thesis using nx e by auto
qed

lemma listDeleteNode_rep:
  assumes "list_rep h l (as @ (x, v) # bs)"
  shows "\<exists>l' h'. listDeleteNode l x h = Some (if lt_free l then Some v else None, l', h')
    \<and> list_rep h' l' (as @ bs) \<and> nh_next h' = nh_next h \<and> lt_free l' = lt_free l"
proof -
  from unlink_node(2) [OF assms] obtain h1 h2 h3 where
    w: "write_if (last_ptr None as) (\<lambda>n. n\<lparr>ln_next := first_ptr bs None\<rparr>) h = Some h1"
       "write_if (first_ptr bs None) (\<lambda>n. n\<lparr>ln_prev := last_ptr None as\<rparr>) h1 = Some h2"
       "free_node x h2 = Some h3" "nh_next h3 = nh_next h"
    and rep: "\<And>l'. lt_head l' = first_ptr (as @ bs) None \<Longrightarrow> lt_tail l' = last_ptr None (as @ bs)
         \<Longrightarrow> lt_len l' = lt_len l - 1 \<Longrightarrow> list_rep h3 l' (as @ bs)" by blast
  note c = unlink_node(1) [OF assms]
  have lt: "lt_head l = first_ptr (as @ (x, v) # bs) None" "lt_tail l = last_ptr None (as @ (x, v) # bs)"
    using assms by (simp_all add: list_rep_def)
  define l1 where "l1 = (if last_ptr None as = None then l\<lparr>lt_head := first_ptr bs None\<rparr> else l)"
  define l2 where "l2 = (if first_ptr bs None = None then l1\<lparr>lt_tail := last_ptr None as\<rparr> else l1)"
  have "listDeleteNode l x h = Some (if lt_free l then Some v else None, l2\<lparr>lt_len := lt_len l2 - 1\<rparr>, h3)"
    using w(1-3) by (auto simp: listDeleteNode_def c l1_def l2_def write_if_def split: option.splits)
  moreover have "list_rep h3 (l2\<lparr>lt_len := lt_len l2 - 1\<rparr>) (as @ bs)"
  proof (rule rep)
    show "lt_head (l2\<lparr>lt_len := lt_len l2 - 1\<rparr>) = first_ptr (as @ bs) None"
      using lt by (cases as) (auto simp: l1_def l2_def last_ptr_def first_ptr_def)
    show "lt_tail (l2\<lparr>lt_len := lt_len l2 - 1\<rparr>) = last_ptr None (as @ bs)"
      using lt by (cases bs) (auto simp: l1_def l2_def last_ptr_def first_ptr_def)
  qed (simp add: l1_def l2_def)
  moreover have "lt_free (l2\<lparr>lt_len := lt_len l2 - 1\<rparr>) = lt_free l" by (simp add: l1_def l2_def)
  ultimately show ?thesis using w(4) by blast
qed

lemma listAddNodeToHead_rep:
  assumes "list_rep h l ns" and "fst (env_alloc e)"
  shows "\<exists>l' h'. listAddNodeToHead l v h e = Some (True, l', h', snd (env_alloc e))
    \<and> list_rep h' l' ((nh_next h, v) # ns) \<and> lt_free l' = lt_free l"
proof -
  let ?x = "nh_next h"
  have r: "list_rep h l ([] @ ns)" using assms(1) by simp
  obtain e' where e: "env_alloc e = (True, e')" using assms(2) by (cases "env_alloc e") auto
  have lt: "lt_tail l = last_ptr None ns" "lt_head l = first_ptr ns None" "lt_len l = int (length ns)"
    using assms(1) by (simp_all add: list_rep_def)
  from link_node [OF r refl, of v] obtain h2 where
    w: "write_if (first_ptr ns None) (\<lambda>n. n\<lparr>ln_prev := Some ?x\<rparr>)
       (h\<lparr>nh_next := Suc ?x, nh_cells := (nh_cells h)(?x \<mapsto> \<lparr>ln_prev = None, ln_next = first_ptr ns None, ln_val = v\<rparr>)\<rparr>) = Some h2"
    and rep: "\<And>l'. lt_head l' = Some ?x \<Longrightarrow> lt_tail l' = last_ptr (Some ?x) ns
         \<Longrightarrow> lt_len l' = lt_len l + 1 \<Longrightarrow> list_rep h2 l' ((?x, v) # ns)"
    by (auto simp: write_if_def)
  define l' where "l' = (if ns = [] then l\<lparr>lt_head := Some ?x, lt_tail := Some ?x, lt_len := lt_len l + 1\<rparr>
      else l\<lparr>lt_head := Some ?x, lt_len := lt_len l + 1\<rparr>)"
  have "listAddNodeToHead l v h e = Some (True, l', h2, e')"
    using e w lt by (cases ns) (auto simp: listAddNodeToHead_def listLinkNodeToHead_def malloc_node_def l'_def
        write_if_def write_node_def bind_eq_Some_conv)
  moreover have "list_rep h2 l' ((?x, v) # ns)"
    using lt by (intro rep) (auto simp: l'_def last_ptr_def)
  moreover have "lt_free l' = lt_free l" by (simp add: l'_def)
  ultimately show ?thesis using e by auto
qed

lemma listInsertNode_rep:
  assumes "list_rep h l (as @ (x, w) # bs)" and "fst (env_alloc e)"
  shows "\<exists>l' h'. listInsertNode l x v after h e = Some (True, l', h', snd (env_alloc e))
    \<and> list_rep h' l' (if after then as @ (x, w) # (nh_next h, v) # bs else as @ (nh_next h, v) # (x, w) # bs)
    \<and> lt_free l' = lt_free l"
proof -
  let ?n = "nh_next h"
  define as' where "as' = (if after then as @ [(x, w)] else as)"
  define bs' where "bs' = (if after then bs else (x, w) # bs)"
  have r: "list_rep h l (as' @ bs')" using assms(1) by (simp add: as'_def bs'_def)
  obtain e' where e: "env_alloc e = (True, e')" using assms(2) by (cases "env_alloc e") auto
  have c: "nh_cells h x = Some \<lparr>ln_prev = last_ptr None as, ln_next = first_ptr bs None, ln_val = w\<rparr>"
    using unlink_node(1) [OF assms(1)] .
  have ne: "x \<noteq> ?n" using list_rep_fresh [OF assms(1)] by auto
  have lt: "lt_head l = first_ptr (as @ [(x, w)]) None" "lt_tail l = last_ptr (Some x) bs"
    using assms(1) by (simp_all add: list_rep_def)
  from link_node [OF r refl, of v] obtain h1 h2 where
    w: "write_if (last_ptr None as') (\<lambda>n. n\<lparr>ln_next := Some ?n\<rparr>)
        (h\<lparr>nh_next := Suc ?n, nh_cells := (nh_cells h)(?n \<mapsto> \<lparr>ln_prev = last_ptr None as', ln_next = first_ptr bs' None, ln_val = v\<rparr>)\<rparr>) = Some h1"
       "write_if (first_ptr bs' None) (\<lambda>n. n\<lparr>ln_prev := Some ?n\<rparr>) h1 = Some h2"
    and rep: "\<And>l'. lt_head l' = first_ptr (as' @ [(?n, v)]) None \<Longrightarrow> lt_tail l' = last_ptr (Some ?n) bs'
         \<Longrightarrow> lt_len l' = lt_len l + 1 \<Longrightarrow> list_rep h2 l' (as' @ (?n, v) # bs')" by blast
  have x: "x \<notin> fst ` set as" "x \<notin> fst ` set bs" using assms(1) by (auto simp: list_rep_def)
  have hd: "lt_head l = Some x \<longleftrightarrow> as = []" using x(1) lt(1) by (cases as) auto
  have tl: "lt_tail l = Some x \<longleftrightarrow> bs = []" using x(2) lt(2) by (cases bs rule: rev_cases) auto
  define l1 where "l1 = (if after \<and> lt_tail l = Some x then l\<lparr>lt_tail := Some ?n\<rparr>
       else if \<not> after \<and> lt_head l = Some x then l\<lparr>lt_head := Some ?n\<rparr> else l)"
  have "listInsertNode l x v after h e = Some (True, l1\<lparr>lt_len := lt_len l1 + 1\<rparr>, h2, e')"
    using e w c ne by (cases after) (auto simp: listInsertNode_def malloc_node_def as'_def bs'_def l1_def write_node_def)
  moreover have "list_rep h2 (l1\<lparr>lt_len := lt_len l1 + 1\<rparr>) (as' @ (?n, v) # bs')"
  proof (rule rep)
    show "lt_head (l1\<lparr>lt_len := lt_len l1 + 1\<rparr>) = first_ptr (as' @ [(?n, v)]) None"
      using hd lt(1) by (cases as) (auto simp: l1_def as'_def)
    show "lt_tail (l1\<lparr>lt_len := lt_len l1 + 1\<rparr>) = last_ptr (Some ?n) bs'"
      using tl lt(2) by (cases bs rule: rev_cases) (auto simp: l1_def bs'_def)
  qed (simp add: l1_def)
  moreover have "lt_free (l1\<lparr>lt_len := lt_len l1 + 1\<rparr>) = lt_free l" by (simp add: l1_def)
  ultimately show ?thesis using e by (auto simp: as'_def bs'_def split: if_splits)
qed

lemma add_fails:
  assumes "\<not> fst (env_alloc e)"
  shows "listAddNodeToHead l v h e = Some (False, l, h, snd (env_alloc e))"
    and "listAddNodeToTail l v h e = Some (False, l, h, snd (env_alloc e))"
    and "listInsertNode l x v after h e = Some (False, l, h, snd (env_alloc e))"
  using assms
  by (simp_all add: listAddNodeToHead_def listAddNodeToTail_def listInsertNode_def malloc_node_def split_beta)

lemma find_loop_rep:
  assumes "dseg (nh_cells h) p ns None" and "\<forall>v \<in> snd ` set ns. test v \<noteq> None"
  shows "find_loop test (first_ptr ns None) h = Some (map_option fst (find (\<lambda>xv. test (snd xv) = Some True) ns))"
  using assms
proof (induction ns arbitrary: p)
  case Nil
  show ?case by (subst find_loop.simps) simp
next
  case (Cons xv ns)
  obtain x v where xv: "xv = (x, v)" by (cases xv)
  then obtain hit where "test v = Some hit" using Cons.prems(2) by auto
  then show ?case using Cons.prems Cons.IH [of "Some x"] xv by (subst find_loop.simps) auto
qed

lemma empty_loop_rep:
  assumes "dseg (nh_cells h) p ns None" and "distinct (map fst ns)"
  shows "empty_loop callback (first_ptr ns None) h =
    Some (if callback then map snd ns else [], h\<lparr>nh_cells := nh_cells h |` (- fst ` set ns)\<rparr>)"
  using assms
proof (induction ns arbitrary: p h)
  case Nil
  show ?case by (subst empty_loop.simps) (simp add: restrict_map_def)
next
  case (Cons xv ns)
  obtain x v where xv: "xv = (x, v)" by (cases xv)
  let ?h = "h\<lparr>nh_cells := (nh_cells h)(x := None)\<rparr>"
  have c: "nh_cells h x = Some \<lparr>ln_prev = p, ln_next = first_ptr ns None, ln_val = v\<rparr>" and d: "x \<notin> fst ` set ns"
    using Cons.prems xv by auto
  have "empty_loop callback (first_ptr ns None) ?h =
      Some (if callback then map snd ns else [], ?h\<lparr>nh_cells := nh_cells ?h |` (- fst ` set ns)\<rparr>)"
    using Cons.prems xv d by (intro Cons.IH [of _ "Some x"]) (simp_all del: fun_upd_apply)
  moreover have "((nh_cells h)(x := None)) |` (- fst ` set ns) = nh_cells h |` (- fst ` set (xv # ns))"
    using xv by (auto simp: restrict_map_def)
  ultimately show ?case using xv c by (subst empty_loop.simps) (simp add: free_node_def)
qed

lemma listEmpty_rep:
  assumes "list_rep h l ns"
  shows "\<exists>l' h'. listEmpty l h = Some (if lt_free l then map snd ns else [], l', h') \<and> list_rep h' l' []
    \<and> lt_free l' = lt_free l"
proof -
  have "nh_cells h |` (- fst ` set ns) = Map.empty"
    using assms by (auto simp: list_rep_def restrict_map_def fun_eq_iff domIff dom_def)
  then show ?thesis using assms empty_loop_rep [of h None ns "lt_free l"] by (simp add: list_rep_def listEmpty_def)
qed

lemma listFindNode_rep:
  assumes "list_rep h l ns"
  shows "listFindNode l None v h = Some (map_option fst (find (\<lambda>xv. snd xv = v) ns))"
  using assms find_loop_rep [of h None ns "\<lambda>x. Some (x = v)"] by (simp add: list_rep_def listFindNode_def)

lemma listFindNodeByFd_rep:
  assumes "list_rep h l ns" and "\<forall>v \<in> snd ` set ns. fds v \<noteq> None"
  shows "listFindNodeByFd fds l fd h = Some (map_option fst (find (\<lambda>xv. fds (snd xv) = Some fd) ns))"
proof -
  have "(map_option (\<lambda>f. f = fd) (fds v) = Some True) = (fds v = Some fd)" for v by (cases "fds v") auto
  then show ?thesis
    using assms find_loop_rep [of h None ns "\<lambda>x. map_option (\<lambda>f. f = fd) (fds x)"] by (simp add: list_rep_def listFindNodeByFd_def)
qed

section \<open>Sequences of operations\<close>

text \<open>Insertion and deletion find their node by its value, the way the callers do.\<close>

datatype list_op = Op_push addr | Op_append addr | Op_insert addr addr bool | Op_delete addr | Op_clear

fun run_op :: "list_op \<Rightarrow> list_t \<times> node_heap \<times> env \<Rightarrow> (list_t \<times> node_heap \<times> env) option" where
  "run_op (Op_push v) (l, h, e) = do { (_, s) \<leftarrow> listAddNodeToHead l v h e; Some s }"
| "run_op (Op_append v) (l, h, e) = do { (_, s) \<leftarrow> listAddNodeToTail l v h e; Some s }"
| "run_op (Op_insert w v after) (l, h, e) = do {
     found \<leftarrow> listFindNode l None w h;
     case found of
       None \<Rightarrow> Some (l, h, e)
     | Some p \<Rightarrow> do { (_, s) \<leftarrow> listInsertNode l p v after h e; Some s }
   }"
| "run_op (Op_delete v) (l, h, e) = do {
     found \<leftarrow> listFindNode l None v h;
     case found of
       None \<Rightarrow> Some (l, h, e)
     | Some p \<Rightarrow> do { (_, l, h) \<leftarrow> listDeleteNode l p h; Some (l, h, e) }
   }"
| "run_op Op_clear (l, h, e) = do { (_, l, h) \<leftarrow> listEmpty l h; Some (l, h, e) }"

fun run_ops :: "list_op list \<Rightarrow> list_t \<times> node_heap \<times> env \<Rightarrow> (list_t \<times> node_heap \<times> env) option" where
  "run_ops [] s = Some s"
| "run_ops (a # as) s = do { s \<leftarrow> run_op a s; run_ops as s }"

fun insert_beside :: "addr \<Rightarrow> addr \<Rightarrow> bool \<Rightarrow> addr list \<Rightarrow> addr list" where
  "insert_beside w v after [] = []"
| "insert_beside w v after (x # xs) =
     (if x = w then if after then x # v # xs else v # x # xs else x # insert_beside w v after xs)"

text \<open>The same operations on a sequence; those that allocate do nothing when there is no memory.\<close>

fun spec_op :: "list_op \<Rightarrow> addr list \<times> env \<Rightarrow> addr list \<times> env" where
  "spec_op (Op_push v) (vs, e) = (if fst (env_alloc e) then v # vs else vs, snd (env_alloc e))"
| "spec_op (Op_append v) (vs, e) = (if fst (env_alloc e) then vs @ [v] else vs, snd (env_alloc e))"
| "spec_op (Op_insert w v after) (vs, e) =
     (if w \<in> set vs then (if fst (env_alloc e) then insert_beside w v after vs else vs, snd (env_alloc e)) else (vs, e))"
| "spec_op (Op_delete v) (vs, e) = (remove1 v vs, e)"
| "spec_op Op_clear (vs, e) = ([], e)"

lemma find_split:
  assumes "list_rep h l ns"
  shows "v \<notin> snd ` set ns \<and> listFindNode l None v h = Some None
    \<or> (\<exists>as x bs. ns = as @ (x, v) # bs \<and> v \<notin> snd ` set as \<and> listFindNode l None v h = Some (Some x))"
proof (cases "v \<in> snd ` set ns")
  case True
  then have "\<exists>xv \<in> set ns. snd xv = v" by auto
  from split_list_first_prop [OF this] obtain as xv bs where s: "ns = as @ xv # bs" "snd xv = v" "\<forall>y \<in> set as. snd y \<noteq> v"
    by auto
  then have "find (\<lambda>xv. snd xv = v) ns = Some xv" by (induction as arbitrary: ns) auto
  then show ?thesis using s listFindNode_rep [OF assms, of v] by (cases xv) auto
next
  case False
  then have "find (\<lambda>xv. snd xv = v) ns = None" by (force simp: find_None_iff)
  then show ?thesis using False listFindNode_rep [OF assms, of v] by simp
qed

lemma insert_beside_split:
  "w \<notin> set as \<Longrightarrow> insert_beside w v after (as @ w # bs) = (if after then as @ w # v # bs else as @ v # w # bs)"
  by (induction as) auto

lemma run_op_rep:
  assumes "list_rep h l ns"
  shows "\<exists>l' h' ns'. run_op a (l, h, e) = Some (l', h', snd (spec_op a (map snd ns, e))) \<and> list_rep h' l' ns'
    \<and> map snd ns' = fst (spec_op a (map snd ns, e))"
proof (cases a)
  case (Op_push v)
  show ?thesis
  proof (cases "fst (env_alloc e)")
    case True
    from listAddNodeToHead_rep [OF assms this, of v] obtain l' h' where
      "listAddNodeToHead l v h e = Some (True, l', h', snd (env_alloc e))" "list_rep h' l' ((nh_next h, v) # ns)" by blast
    then show ?thesis using Op_push True by (intro exI [of _ l'] exI [of _ h'] exI [of _ "(nh_next h, v) # ns"]) simp
  qed (use Op_push assms add_fails(1) in auto)
next
  case (Op_append v)
  show ?thesis
  proof (cases "fst (env_alloc e)")
    case True
    from listAddNodeToTail_rep [OF assms this, of v] obtain l' h' where
      "listAddNodeToTail l v h e = Some (True, l', h', snd (env_alloc e))" "list_rep h' l' (ns @ [(nh_next h, v)])" by blast
    then show ?thesis using Op_append True by (intro exI [of _ l'] exI [of _ h'] exI [of _ "ns @ [(nh_next h, v)]"]) simp
  qed (use Op_append assms add_fails(2) in auto)
next
  case (Op_insert w v after)
  from find_split [OF assms, of w] show ?thesis
  proof (elim disjE conjE exE)
    assume "w \<notin> snd ` set ns" "listFindNode l None w h = Some None"
    then show ?thesis using Op_insert assms by auto
  next
    fix as x bs assume s: "ns = as @ (x, w) # bs" "w \<notin> snd ` set as" "listFindNode l None w h = Some (Some x)"
    have sp: "w \<in> set (map snd ns)" "insert_beside w v after (map snd ns) =
        (if after then map snd as @ w # v # map snd bs else map snd as @ v # w # map snd bs)"
      using s(1,2) by (auto simp: insert_beside_split)
    show ?thesis
    proof (cases "fst (env_alloc e)")
      case True
      from listInsertNode_rep [OF assms [unfolded s(1)] this, of v after] obtain l' h' where
        i: "listInsertNode l x v after h e = Some (True, l', h', snd (env_alloc e))"
          "list_rep h' l' (if after then as @ (x, w) # (nh_next h, v) # bs else as @ (nh_next h, v) # (x, w) # bs)" by blast
      then show ?thesis using Op_insert s(3) sp True
        by (intro exI [of _ l'] exI [of _ h'] exI [of _ "if after then as @ (x, w) # (nh_next h, v) # bs else as @ (nh_next h, v) # (x, w) # bs"])
          (simp del: set_map)
    next
      case False
      then show ?thesis using Op_insert s(3) sp assms add_fails(3) by (simp del: set_map) blast
    qed
  qed
next
  case (Op_delete v)
  from find_split [OF assms, of v] show ?thesis
  proof (elim disjE conjE exE)
    assume "v \<notin> snd ` set ns" "listFindNode l None v h = Some None"
    then show ?thesis using Op_delete assms by (auto simp: remove1_idem)
  next
    fix as x bs assume s: "ns = as @ (x, v) # bs" "v \<notin> snd ` set as" "listFindNode l None v h = Some (Some x)"
    from listDeleteNode_rep [OF assms [unfolded s(1)]] obtain r l' h' where
      "listDeleteNode l x h = Some (r, l', h')" "list_rep h' l' (as @ bs)" by blast
    then show ?thesis using Op_delete s by (intro exI [of _ l'] exI [of _ h'] exI [of _ "as @ bs"]) (simp add: remove1_append)
  qed
next
  case Op_clear
  then show ?thesis using listEmpty_rep [OF assms] by auto
qed

text \<open>C10: The linked list implements a sequence.  Any operations, in any order and with any
  failures of the allocator, run on a well-formed list without touching NULL, freed or
  foreign memory, free exactly the nodes they remove and leave a well-formed list, linked
  in both directions, with the length, the head and the tail of the sequence that the same
  operations give.\<close>

theorem linked_list_is_sequence:
  assumes "list_rep h l ns"
  shows "\<exists>l' h' ns'. run_ops as (l, h, e) = Some (l', h', snd (fold spec_op as (map snd ns, e)))
    \<and> list_rep h' l' ns' \<and> map snd ns' = fst (fold spec_op as (map snd ns, e))"
  using assms
proof (induction as arbitrary: h l ns e)
  case (Cons a as)
  obtain vs e1 where s: "spec_op a (map snd ns, e) = (vs, e1)" by (meson surj_pair)
  from run_op_rep [OF Cons.prems, of a e] obtain l1 h1 ns1 where
    r: "run_op a (l, h, e) = Some (l1, h1, e1)" "list_rep h1 l1 ns1" "map snd ns1 = vs" unfolding s by auto
  from Cons.IH [OF r(2), of e1] show ?case using r(1,3) s by simp
qed auto

theorem linked_list_is_sequence_witness:
  "\<exists>l' h' ns'. run_ops [Op_append 5, Op_append 6, Op_append 9, Op_insert 6 7 True, Op_push 4, Op_delete 5]
     (\<lparr>lt_head = None, lt_tail = None, lt_len = 0, lt_free = False\<rparr>, \<lparr>nh_cells = Map.empty, nh_next = 0\<rparr>,
      \<lparr>env_allocs = [True, True, False], env_clock = [], env_now = 0, env_sends = [], env_time = 0, env_maxrss = 0\<rparr>)
     = Some (l', h', \<lparr>env_allocs = [], env_clock = [], env_now = 0, env_sends = [], env_time = 0, env_maxrss = 0\<rparr>)
    \<and> list_rep h' l' ns' \<and> map snd ns' = [4, 6, 7]"
proof -
  have "list_rep \<lparr>nh_cells = Map.empty, nh_next = 0\<rparr> \<lparr>lt_head = None, lt_tail = None, lt_len = 0, lt_free = False\<rparr> []"
    by (simp add: list_rep_def)
  from linked_list_is_sequence [OF this, of "[Op_append 5, Op_append 6, Op_append 9, Op_insert 6 7 True, Op_push 4, Op_delete 5]"
      "\<lparr>env_allocs = [True, True, False], env_clock = [], env_now = 0, env_sends = [], env_time = 0, env_maxrss = 0\<rparr>"]
  show ?thesis by (simp add: env_alloc_def del: run_ops.simps)
qed

end
