(* ===== verification/Lifecycle.thy ===== *)
theory Lifecycle
  imports Networking Linked_List
begin

text \<open>
  \<open>src/server_lifecycle.c\<close>: the connected clients, how one is dropped and how the server is
  shut down, on a world that holds the memory of the clients, the open descriptors, the
  database and the scripts of what the kernel answers.  The event loops are built on it.
  Proved: dropping a client and shutting down touch live memory only, release each client
  and descriptor once and keep the books.
\<close>

section \<open>The world\<close>

text \<open>
  A run stops at the access to memory that is not allocated, or at a handler that reads
  past the read buffer.
\<close>

datatype fault = Invalid_pointer | Read_overrun

type_synonym 'a outcome = "fault + 'a"

definition and_then :: "'a outcome \<Rightarrow> ('a \<Rightarrow> 'b outcome) \<Rightarrow> 'b outcome" where
  "and_then r f = (case r of Inl e \<Rightarrow> Inl e | Inr x \<Rightarrow> f x)"

definition need :: "fault \<Rightarrow> 'a option \<Rightarrow> 'a outcome" where
  "need e r = (case r of None \<Rightarrow> Inl e | Some x \<Rightarrow> Inr x)"

lemma outcome_simps [simp]:
  "and_then (Inl e) f = Inl e" "and_then (Inr x) f = f x" "need e None = Inl e" "need e (Some x) = Inr x"
  by (simp_all add: and_then_def need_def)

text \<open>What \<open>accept\<close> and a read of the timer give.\<close>

datatype accept_result = Accept_new | Accept_again | Accept_intr | Accept_error

datatype timer_result = Timer_fired | Timer_again | Timer_intr | Timer_error

text \<open>
  \<open>w_list\<close> is \<open>server.clients\<close>, \<open>w_clients\<close> the allocated \<open>client_t\<close> structures, \<open>w_open\<close> the
  open descriptors of the process and \<open>w_database\<close> the store with the expiry table.
  \<open>w_cursor\<close> is the static cursor of the sweep.  \<open>w_ctls\<close> tells which registrations with the
  kernel succeed; \<open>w_watch\<close> lists the clients whose events the kernel reports.  A script that
  has run out answers "again", or success.
\<close>

record world =
  w_clients :: "addr \<rightharpoonup> client"
  w_next :: addr
  w_list :: "list_t option"
  w_nodes :: node_heap
  w_open :: "int list"
  w_database :: "(hashtable \<times> hashtable) option"
  w_server :: server
  w_env :: env
  w_cursor :: nat
  w_shutdown :: bool
  w_recvs :: "recv_result list"
  w_accepts :: "accept_result list"
  w_timers :: "timer_result list"
  w_ctls :: "bool list"
  w_watch :: "addr list"

definition client_at :: "addr \<Rightarrow> world \<Rightarrow> client outcome" where
  "client_at p w = need Invalid_pointer (w_clients w p)"

definition put_client :: "addr \<Rightarrow> client \<Rightarrow> world \<Rightarrow> world" where
  "put_client p c w = w\<lparr>w_clients := (w_clients w)(p \<mapsto> c)\<rparr>"

definition close_fd :: "int \<Rightarrow> world \<Rightarrow> world" where
  "close_fd fd w = w\<lparr>w_open := remove1 fd (w_open w)\<rparr>"

text \<open>\<open>accept\<close> returns the lowest descriptor that is not open.\<close>

definition lowest_fd :: "int list \<Rightarrow> int" where
  "lowest_fd fds = hd (filter (\<lambda>n. n \<notin> set fds) (map int [0..<Suc (length fds)]))"

definition free_client :: "addr \<Rightarrow> world \<Rightarrow> world outcome" where
  "free_client p w =
     and_then (client_at p w) (\<lambda>_. Inr (w\<lparr>w_clients := (w_clients w)(p := None)\<rparr>))"

section \<open>Signals\<close>

definition request_server_shutdown :: "world \<Rightarrow> world" where
  "request_server_shutdown w = w\<lparr>w_shutdown := True\<rparr>"

definition server_shutdown_requested :: "world \<Rightarrow> bool" where
  "server_shutdown_requested w = w_shutdown w"

definition reset_server_shutdown_request :: "world \<Rightarrow> world" where
  "reset_server_shutdown_request w = w\<lparr>w_shutdown := False\<rparr>"

section \<open>Dropping a client\<close>

text \<open>Taking the client out of the list, with the callback of the list set aside.\<close>

definition unlist_client :: "addr \<Rightarrow> world \<Rightarrow> (bool \<times> world) outcome" where
  "unlist_client p w =
     (case w_list w of
        None \<Rightarrow> Inr (False, w)
      | Some l \<Rightarrow>
          and_then (need Invalid_pointer (listFindNode l None p (w_nodes w))) (\<lambda>node.
            case node of
              None \<Rightarrow> Inr (False, w)
            | Some n \<Rightarrow>
                and_then (need Invalid_pointer (listDeleteNode (l\<lparr>lt_free := False\<rparr>) n (w_nodes w))) (\<lambda>(_, l', h).
                  Inr (True, w\<lparr>w_list := Some (l'\<lparr>lt_free := lt_free l\<rparr>), w_nodes := h\<rparr>))))"

definition count_disconnect :: "server \<Rightarrow> server" where
  "count_disconnect srv =
     (let n = (if sv_num_disconnected_clients srv < INT_MAX
               then sv_num_disconnected_clients srv + 1 else sv_num_disconnected_clients srv)
      in srv\<lparr>sv_num_disconnected_clients := n,
             sv_metrics := (sv_metrics srv)\<lparr>ct_disconnected_clients := n\<rparr>\<rparr>)"

definition server_drop_client :: "addr \<Rightarrow> world \<Rightarrow> world outcome" where
  "server_drop_client p w =
     and_then (client_at p w) (\<lambda>c.
     and_then (unlist_client p w) (\<lambda>(removed_from_list, w).
       let srv = w_server w;
           srv = (if removed_from_list \<and> sv_num_clients srv > 0 then srv\<lparr>sv_num_clients := sv_num_clients srv - 1\<rparr> else srv);
           w = w\<lparr>w_server := srv\<rparr>;
           w = (if cl_fd c \<ge> 0 then put_client p (c\<lparr>cl_fd := -1\<rparr>) (close_fd (cl_fd c) w) else w);
           w = w\<lparr>w_server := count_disconnect (w_server w)\<rparr>
       in free_client p w))"

section \<open>Shutdown\<close>

text \<open>The descriptors of all clients are closed in the order of the list.\<close>

partial_function (option) close_loop :: "addr option \<Rightarrow> world \<Rightarrow> world option" where
  "close_loop node w =
     (case node of
        None \<Rightarrow> Some w
      | Some n \<Rightarrow> do {
          cell \<leftarrow> nh_cells (w_nodes w) n;
          c \<leftarrow> w_clients w (ln_val cell);
          let w = (if cl_fd c \<ge> 0 then put_client (ln_val cell) (c\<lparr>cl_fd := -1\<rparr>) (close_fd (cl_fd c) w) else w);
          close_loop (ln_next cell) w
        })"

fun free_clients :: "addr list \<Rightarrow> world \<Rightarrow> world outcome" where
  "free_clients [] w = Inr w"
| "free_clients (p # ps) w = and_then (free_client p w) (free_clients ps)"

definition close_clients :: "list_t \<Rightarrow> world \<Rightarrow> (list_t \<times> world) outcome" where
  "close_clients l w =
     and_then (need Invalid_pointer (close_loop (lt_head l) w)) (\<lambda>w.
     and_then (need Invalid_pointer (listEmpty (l\<lparr>lt_free := True\<rparr>) (w_nodes w))) (\<lambda>(vs, l, h).
     and_then (free_clients vs (w\<lparr>w_nodes := h\<rparr>)) (\<lambda>w. Inr (l, w))))"

text \<open>\<open>unlink\<close> of the socket path has no counterpart here; the paths of the server are released
  when they are owned.\<close>

definition shutdown_server :: "world \<Rightarrow> world outcome" where
  "shutdown_server w =
     and_then
       (case w_list w of
          None \<Rightarrow> Inr w
        | Some l \<Rightarrow> and_then (close_clients l w) (\<lambda>(_, w). Inr (w\<lparr>w_list := None\<rparr>)))
     (\<lambda>w.
       let srv = (w_server w)\<lparr>sv_num_clients := 0\<rparr>;
           w = w\<lparr>w_database := None\<rparr>;
           srv = (if sv_owns_uds_socket_path srv then srv\<lparr>sv_uds_socket_path := None, sv_owns_uds_socket_path := False\<rparr> else srv);
           srv = (if sv_owns_bind_address srv then srv\<lparr>sv_bind_address := None, sv_owns_bind_address := False\<rparr> else srv);
           w = (if sv_fd srv \<ge> 0 then close_fd (sv_fd srv) w else w);
           srv = (if sv_fd srv \<ge> 0 then srv\<lparr>sv_fd := -1\<rparr> else srv)
       in Inr (w\<lparr>w_server := srv\<rparr>))"

section \<open>The invariant of the connections\<close>

text \<open>The database and the clock, apart from any connection.\<close>

definition db_ok :: "world \<Rightarrow> bool" where
  "db_ok w \<longleftrightarrow> (case w_database w of
       None \<Rightarrow> False
     | Some (store, expires) \<Rightarrow> store_inv store \<and> expires_inv expires \<and> clock_ok (w_env w)
         \<and> dom (deadlines expires) \<subseteq> dom (ht_map store))"

text \<open>
  The list names exactly the allocated clients, each once; their descriptors are open and
  distinct; the count of the server is the length of the list and within its limit.
\<close>

definition conns :: "world \<Rightarrow> (addr \<times> addr) list \<Rightarrow> bool" where
  "conns w ns \<longleftrightarrow>
     (\<exists>l. w_list w = Some l \<and> list_rep (w_nodes w) l ns) \<and> distinct (map snd ns)
     \<and> dom (w_clients w) = snd ` set ns \<and> (\<forall>p \<in> snd ` set ns. p < w_next w)
     \<and> (\<forall>p c. w_clients w p = Some c \<longrightarrow> client_inv c \<and> cl_fd c \<in> set (w_open w) \<and> cl_fd c \<noteq> sv_fd (w_server w))
     \<and> (\<forall>p q c d. w_clients w p = Some c \<longrightarrow> w_clients w q = Some d \<longrightarrow> cl_fd c = cl_fd d \<longrightarrow> p = q)
     \<and> distinct (w_open w) \<and> (\<forall>fd \<in> set (w_open w). 0 \<le> fd) \<and> (sv_fd (w_server w) \<ge> 0 \<longrightarrow> sv_fd (w_server w) \<in> set (w_open w))
     \<and> unat (sv_num_clients (w_server w)) = length ns \<and> sv_num_clients (w_server w) \<le> sv_max_clients (w_server w)"

definition world_inv :: "world \<Rightarrow> bool" where
  "world_inv w \<longleftrightarrow> (\<exists>ns. conns w ns) \<and> db_ok w"

definition dropped :: "server \<Rightarrow> server" where
  "dropped srv = count_disconnect (srv\<lparr>sv_num_clients := sv_num_clients srv - 1\<rparr>)"

lemma dropped_simps [simp]:
  "sv_num_clients (dropped srv) = sv_num_clients srv - 1" "sv_max_clients (dropped srv) = sv_max_clients srv"
  "sv_fd (dropped srv) = sv_fd srv"
  by (simp_all add: dropped_def count_disconnect_def Let_def)

lemma list_rep_callback: "list_rep h (l\<lparr>lt_free := b\<rparr>) ns = list_rep h l ns"
  by (simp add: list_rep_def)

lemma conns_listed:
  assumes "conns w ns" and "w_clients w p = Some c"
  shows "\<exists>as n bs. ns = as @ (n, p) # bs \<and> p \<notin> snd ` set as \<and> p \<notin> snd ` set bs"
proof -
  have "p \<in> snd ` set ns" using assms by (auto simp: conns_def)
  then obtain n where "(n, p) \<in> set ns" by auto
  then obtain as bs where "ns = as @ (n, p) # bs" by (meson split_list)
  then show ?thesis using assms(1) by (intro exI [of _ as] exI [of _ n] exI [of _ bs]) (auto simp: conns_def)
qed

lemma unlist_client_ok:
  assumes "conns w ns" and "w_clients w p = Some c"
  shows "\<exists>as n bs l h. ns = as @ (n, p) # bs \<and> unlist_client p w = Inr (True, w\<lparr>w_list := Some l, w_nodes := h\<rparr>)
    \<and> list_rep h l (as @ bs)"
proof -
  obtain l where l: "w_list w = Some l" "list_rep (w_nodes w) l ns" using assms(1) by (auto simp: conns_def)
  from conns_listed [OF assms] have "p \<in> snd ` set ns" by auto
  with find_split [OF l(2), of p] obtain as n bs where
    f: "ns = as @ (n, p) # bs" "listFindNode l None p (w_nodes w) = Some (Some n)" by auto
  have "list_rep (w_nodes w) (l\<lparr>lt_free := False\<rparr>) (as @ (n, p) # bs)" using l(2) f(1) by (simp add: list_rep_callback)
  from listDeleteNode_rep [OF this] obtain r l' h where
    d: "listDeleteNode (l\<lparr>lt_free := False\<rparr>) n (w_nodes w) = Some (r, l', h)" "list_rep h l' (as @ bs)" by blast
  show ?thesis using f l(1) d
    by (intro exI [of _ as] exI [of _ n] exI [of _ bs] exI [of _ "l'\<lparr>lt_free := lt_free l\<rparr>"] exI [of _ h])
      (simp add: unlist_client_def list_rep_callback)
qed

definition drop_world :: "addr \<Rightarrow> client \<Rightarrow> list_t \<Rightarrow> node_heap \<Rightarrow> world \<Rightarrow> world" where
  "drop_world p c l h w = w\<lparr>w_clients := (w_clients w)(p := None), w_list := Some l, w_nodes := h,
     w_open := remove1 (cl_fd c) (w_open w), w_server := dropped (w_server w)\<rparr>"

lemma server_drop_ok:
  assumes "conns w ns" and "w_clients w p = Some c"
  shows "\<exists>as n bs l h. ns = as @ (n, p) # bs \<and> server_drop_client p w = Inr (drop_world p c l h w)
    \<and> conns (drop_world p c l h w) (as @ bs)"
proof -
  from unlist_client_ok [OF assms] obtain as n bs l h where
    u: "ns = as @ (n, p) # bs" "unlist_client p w = Inr (True, w\<lparr>w_list := Some l, w_nodes := h\<rparr>)" "list_rep h l (as @ bs)"
    by blast
  have c: "client_inv c" "cl_fd c \<ge> 0" using assms by (auto simp: conns_def client_inv_def)
  have sf: "cl_fd c \<noteq> sv_fd (w_server w)" using assms by (auto simp: conns_def)
  have num: "unat (sv_num_clients (w_server w)) = Suc (length (as @ bs))" using assms(1) u(1) by (simp add: conns_def)
  then have pos: "sv_num_clients (w_server w) > 0" by (auto simp: word_gt_0)
  have eq: "server_drop_client p w = Inr (drop_world p c l h w)"
    using assms(2) u(2) c(2) pos
    by (simp add: server_drop_client_def client_at_def Let_def put_client_def close_fd_def free_client_def drop_world_def dropped_def)
  have n1: "unat (sv_num_clients (w_server w) - 1) = length (as @ bs)"
    using num pos by (simp add: unat_minus_one word_gt_0)
  have d: "distinct (map snd (as @ (n, p) # bs))" using assms(1) u(1) by (simp add: conns_def)
  have "conns (drop_world p c l h w) (as @ bs)"
    unfolding conns_def
  proof (intro conjI)
    show "\<exists>la. w_list (drop_world p c l h w) = Some la \<and> list_rep (w_nodes (drop_world p c l h w)) la (as @ bs)"
      using u(3) by (simp add: drop_world_def)
    show "distinct (map snd (as @ bs))" using d by auto
    show "dom (w_clients (drop_world p c l h w)) = snd ` set (as @ bs)"
      using assms(1) u(1) d by (auto simp: conns_def drop_world_def)
    show "\<forall>p'\<in>snd ` set (as @ bs). p' < w_next (drop_world p c l h w)"
      using assms(1) u(1) by (auto simp: conns_def drop_world_def)
    show "\<forall>q d. w_clients (drop_world p c l h w) q = Some d \<longrightarrow> client_inv d
        \<and> cl_fd d \<in> set (w_open (drop_world p c l h w)) \<and> cl_fd d \<noteq> sv_fd (w_server (drop_world p c l h w))"
      using assms unfolding conns_def drop_world_def by (auto simp: in_set_remove1)
    show "\<forall>q r d e. w_clients (drop_world p c l h w) q = Some d \<longrightarrow> w_clients (drop_world p c l h w) r = Some e
        \<longrightarrow> cl_fd d = cl_fd e \<longrightarrow> q = r"
      using assms(1) unfolding conns_def drop_world_def by auto
    show "distinct (w_open (drop_world p c l h w))" using assms(1) by (simp add: conns_def drop_world_def)
    show "\<forall>fd \<in> set (w_open (drop_world p c l h w)). 0 \<le> fd" using assms(1) by (auto simp: conns_def drop_world_def)
    show "sv_fd (w_server (drop_world p c l h w)) \<ge> 0 \<longrightarrow> sv_fd (w_server (drop_world p c l h w)) \<in> set (w_open (drop_world p c l h w))"
      using assms(1) sf by (simp add: conns_def drop_world_def)
    show "unat (sv_num_clients (w_server (drop_world p c l h w))) = length (as @ bs)" using n1 by (simp add: drop_world_def)
    show "sv_num_clients (w_server (drop_world p c l h w)) \<le> sv_max_clients (w_server (drop_world p c l h w))"
    proof -
      have "sv_num_clients (w_server w) \<le> sv_max_clients (w_server w)" using assms(1) by (simp add: conns_def)
      then show ?thesis using n1 num by (simp add: drop_world_def word_le_nat_alt)
    qed
  qed
  then show ?thesis using u(1) eq by blast
qed

section \<open>Shutting down releases everything\<close>

definition fds_of :: "world \<Rightarrow> addr set \<Rightarrow> int set" where
  "fds_of w ps = {cl_fd c | p c. p \<in> ps \<and> w_clients w p = Some c}"

lemma close_loop_ok:
  assumes "dseg (nh_cells (w_nodes w)) q ns None" and "distinct (map snd ns)"
    and "\<forall>p \<in> snd ` set ns. \<exists>c. w_clients w p = Some c \<and> cl_fd c \<ge> 0" and "distinct (w_open w)"
  shows "\<exists>cs os. close_loop (first_ptr ns None) w = Some (w\<lparr>w_clients := cs, w_open := os\<rparr>)
    \<and> dom cs = dom (w_clients w) \<and> distinct os \<and> set os = set (w_open w) - fds_of w (snd ` set ns)"
  using assms
proof (induction ns arbitrary: q w)
  case Nil
  show ?case using Nil(4) by (subst close_loop.simps)
    (auto simp: fds_of_def intro!: exI [of _ "w_clients w"] exI [of _ "w_open w"])
next
  case (Cons np ns)
  obtain n p where np: "np = (n, p)" by (cases np)
  obtain c where c: "w_clients w p = Some c" "cl_fd c \<ge> 0" using Cons.prems(3) np by auto
  have pn: "p \<notin> snd ` set ns" using Cons.prems(2) np by auto
  define w1 where "w1 = put_client p (c\<lparr>cl_fd := -1\<rparr>) (close_fd (cl_fd c) w)"
  have cl1: "w_clients w1 q = w_clients w q" if "q \<noteq> p" for q using that by (simp add: w1_def put_client_def close_fd_def)
  have step: "close_loop (first_ptr (np # ns) None) w = close_loop (first_ptr ns None) w1"
    using Cons.prems(1) c np by (subst close_loop.simps) (simp add: w1_def)
  have "\<exists>c. w_clients w1 q = Some c \<and> cl_fd c \<ge> 0" if "q \<in> snd ` set ns" for q
  proof -
    have "q \<noteq> p" using that pn by blast
    then show ?thesis using Cons.prems(3) that cl1 by auto
  qed
  moreover have "dseg (nh_cells (w_nodes w1)) (Some n) ns None" "distinct (w_open w1)"
    using Cons.prems(1,4) np by (simp_all add: w1_def put_client_def close_fd_def)
  ultimately obtain cs os where
    ih: "close_loop (first_ptr ns None) w1 = Some (w1\<lparr>w_clients := cs, w_open := os\<rparr>)"
      "dom cs = dom (w_clients w1)" "distinct os" "set os = set (w_open w1) - fds_of w1 (snd ` set ns)"
    using Cons.IH [of w1 "Some n"] Cons.prems(2) np by auto
  have f: "fds_of w1 (snd ` set ns) = fds_of w (snd ` set ns)" using cl1 pn unfolding fds_of_def by metis
  have "fds_of w (snd ` set (np # ns)) = insert (cl_fd c) (fds_of w (snd ` set ns))" using np c(1) by (auto simp: fds_of_def)
  moreover have "set (w_open w1) = set (w_open w) - {cl_fd c}" using Cons.prems(4) by (simp add: w1_def put_client_def close_fd_def)
  ultimately have "set os = set (w_open w) - fds_of w (snd ` set (np # ns))" using ih(4) f by auto
  moreover have "w1\<lparr>w_clients := cs, w_open := os\<rparr> = w\<lparr>w_clients := cs, w_open := os\<rparr>"
    by (simp add: w1_def put_client_def close_fd_def)
  moreover have "dom (w_clients w1) = dom (w_clients w)" using c by (auto simp: w1_def put_client_def close_fd_def)
  ultimately show ?case using step ih(1-3) by auto
qed

lemma free_clients_ok:
  assumes "distinct vs" and "set vs \<subseteq> dom (w_clients w)"
  shows "free_clients vs w = Inr (w\<lparr>w_clients := w_clients w |` (- set vs)\<rparr>)"
  using assms
proof (induction vs arbitrary: w)
  case (Cons p ps)
  let ?w = "w\<lparr>w_clients := (w_clients w)(p := None)\<rparr>"
  have "free_client p w = Inr ?w" using Cons.prems(2) by (auto simp: free_client_def client_at_def)
  moreover have "free_clients ps ?w = Inr (?w\<lparr>w_clients := w_clients ?w |` (- set ps)\<rparr>)"
    using Cons.prems by (intro Cons.IH) auto
  moreover have "((w_clients w)(p := None)) |` (- set ps) = w_clients w |` (- set (p # ps))"
    by (auto simp: restrict_map_def)
  ultimately show ?case by simp
qed (simp add: restrict_map_def)

lemma close_clients_ok:
  assumes "conns w ns" and "w_list w = Some l"
  shows "\<exists>l' h os. close_clients l w = Inr (l', w\<lparr>w_clients := Map.empty, w_open := os, w_nodes := h\<rparr>)
    \<and> nh_cells h = Map.empty \<and> distinct os \<and> set os = set (w_open w) - fds_of w (dom (w_clients w))"
proof -
  have r: "list_rep (w_nodes w) l ns" using assms by (auto simp: conns_def)
  have d: "distinct (map snd ns)" "dom (w_clients w) = snd ` set ns" "distinct (w_open w)" using assms(1) by (auto simp: conns_def)
  have "\<exists>c. w_clients w p = Some c \<and> cl_fd c \<ge> 0" if "p \<in> snd ` set ns" for p
  proof -
    obtain c where "w_clients w p = Some c" using d(2) \<open>p \<in> snd ` set ns\<close> by blast
    then show ?thesis using assms(1) by (auto simp: conns_def client_inv_def)
  qed
  moreover have "dseg (nh_cells (w_nodes w)) None ns None" and h: "lt_head l = first_ptr ns None" using r by (simp_all add: list_rep_def)
  ultimately obtain cs os where
    cl: "close_loop (lt_head l) w = Some (w\<lparr>w_clients := cs, w_open := os\<rparr>)" "dom cs = snd ` set ns" "distinct os"
      "set os = set (w_open w) - fds_of w (snd ` set ns)"
    using close_loop_ok [of w None ns] d by auto
  have "list_rep (w_nodes w) (l\<lparr>lt_free := True\<rparr>) ns" using r by (simp add: list_rep_callback)
  from listEmpty_rep [OF this] obtain l' h where
    e: "listEmpty (l\<lparr>lt_free := True\<rparr>) (w_nodes w) = Some (map snd ns, l', h)" "list_rep h l' []" by auto
  have "free_clients (map snd ns) (w\<lparr>w_clients := cs, w_open := os, w_nodes := h\<rparr>)
      = Inr (w\<lparr>w_clients := cs |` (- snd ` set ns), w_open := os, w_nodes := h\<rparr>)"
    using d(1) cl(2) by (subst free_clients_ok) auto
  moreover have "cs |` (- snd ` set ns) = Map.empty" using cl(2) by (auto simp: restrict_map_def fun_eq_iff dom_def)
  moreover have "nh_cells h = Map.empty" using e(2) by (simp add: list_rep_def)
  ultimately show ?thesis using cl(1,3,4) e(1) d(2) by (auto simp: close_clients_def)
qed

text \<open>A server with one connected client.\<close>

definition one_client :: world where
  "one_client = \<lparr>w_clients = [7 \<mapsto> fresh_client], w_next = 8,
     w_list = Some \<lparr>lt_head = Some 0, lt_tail = Some 0, lt_len = 1, lt_free = False\<rparr>,
     w_nodes = \<lparr>nh_cells = [0 \<mapsto> \<lparr>ln_prev = None, ln_next = None, ln_val = 7\<rparr>], nh_next = 1\<rparr>,
     w_open = [0, 1, 2, 3, 4, 5], w_database = Some (small_table, small_table), w_server = idle_server, w_env = quiet_env,
     w_cursor = 0, w_shutdown = False, w_recvs = [], w_accepts = [], w_timers = [], w_ctls = [], w_watch = [7]\<rparr>"

lemma one_client_conns: "conns one_client [(0, 7)]"
  using fresh_client_inv
  by (auto simp: conns_def one_client_def list_rep_def idle_server_def fresh_client_def split: if_splits)

lemma one_client_inv: "world_inv one_client"
proof -
  have "deadlines small_table = Map.empty" by (simp add: fun_eq_iff deadlines_def small_table_empty)
  then have "db_ok one_client"
    using empty_ctx_ok(1) by (simp add: db_ok_def one_client_def ctx_inv_def ctx_ok_def empty_ctx_def)
  then show ?thesis using one_client_conns by (auto simp: world_inv_def)
qed

lemma shutdown_ok:
  assumes "conns w ns"
  shows "\<exists>w'. shutdown_server w = Inr w' \<and> w_clients w' = Map.empty \<and> nh_cells (w_nodes w') = Map.empty
    \<and> w_list w' = None \<and> w_database w' = None \<and> sv_num_clients (w_server w') = 0 \<and> sv_fd (w_server w') < 0
    \<and> set (w_open w') = set (w_open w) - fds_of w (dom (w_clients w)) - {sv_fd (w_server w)}"
proof -
  obtain l where l: "w_list w = Some l" using assms by (auto simp: conns_def)
  from close_clients_ok [OF assms l] obtain l' h os where
    c: "close_clients l w = Inr (l', w\<lparr>w_clients := Map.empty, w_open := os, w_nodes := h\<rparr>)"
      "nh_cells h = Map.empty" "distinct os" "set os = set (w_open w) - fds_of w (dom (w_clients w))" by blast
  have "\<forall>fd \<in> set os. 0 \<le> fd" using assms c(4) by (auto simp: conns_def)
  then have sf: "sv_fd (w_server w) < 0 \<Longrightarrow> sv_fd (w_server w) \<notin> set os" by auto
  then show ?thesis using l c by (cases "sv_fd (w_server w) < 0") (auto simp: shutdown_server_def Let_def close_fd_def)
qed



text \<open>C34: Dropping a client.  For every connected client, \<open>server_drop_client\<close> finds its node,
  unlinks and frees exactly this node and this client, closes exactly its descriptor,
  counts one client less and one disconnection more (up to the largest \<open>int\<close>), and keeps
  the invariant of the connections; the database is left alone.\<close>

theorem drop_client_exact:
  assumes "conns w ns" and "w_clients w p = Some c"
  shows "\<exists>w' as n bs. ns = as @ (n, p) # bs \<and> server_drop_client p w = Inr w' \<and> conns w' (as @ bs)
    \<and> w_clients w' = (w_clients w)(p := None) \<and> w_open w' = remove1 (cl_fd c) (w_open w)
    \<and> w_database w' = w_database w
    \<and> sv_num_disconnected_clients (w_server w') = (let d = sv_num_disconnected_clients (w_server w) in if d < INT_MAX then d + 1 else d)"
proof -
  from server_drop_ok [OF assms] obtain as n bs l h where
    d: "ns = as @ (n, p) # bs" "server_drop_client p w = Inr (drop_world p c l h w)" "conns (drop_world p c l h w) (as @ bs)"
    by blast
  then show ?thesis
    by (intro exI [of _ "drop_world p c l h w"] exI [of _ as] exI [of _ n] exI [of _ bs])
      (simp add: drop_world_def dropped_def count_disconnect_def Let_def)
qed

theorem drop_client_exact_witness:
  "\<exists>w'. server_drop_client 7 one_client = Inr w' \<and> conns w' [] \<and> w_open w' = [0, 1, 2, 3, 4]
    \<and> sv_num_disconnected_clients (w_server w') = 1"
proof -
  have c: "w_clients one_client 7 = Some fresh_client" by (simp add: one_client_def)
  obtain w' as n bs where d: "[(0, 7)] = as @ (n, 7) # bs" "server_drop_client 7 one_client = Inr w'" "conns w' (as @ bs)"
    "w_open w' = remove1 (cl_fd fresh_client) (w_open one_client)"
    "sv_num_disconnected_clients (w_server w') = (let d = sv_num_disconnected_clients (w_server one_client) in if d < INT_MAX then d + 1 else d)"
    using drop_client_exact [OF one_client_conns c] by blast
  from d(1) have "as = []" "bs = []" by (cases as; auto)+
  then show ?thesis using d(2-5) by (simp add: one_client_def fresh_client_def idle_server_def)
qed

end
