(* ===== verification/Event_Loop.thy ===== *)
theory Event_Loop
  imports Lifecycle
begin

text \<open>
  What the event loops of \<open>src/io\<close> have in common: accepting a connection, receiving and
  serving its input, flushing its output, the expiry sweep, and the loop that drains a
  readable socket.  The drain loop is verified once, for any way to register interest in
  writing and to drop a client that keeps the invariant of the connections.
\<close>

section \<open>Steps of the loops\<close>

definition put_context :: "addr \<Rightarrow> ctx \<Rightarrow> world \<Rightarrow> world" where
  "put_context p cx w = (put_client p (cx_client cx) w)
     \<lparr>w_database := Some (cx_table cx, cx_expires cx), w_server := cx_server cx, w_env := cx_env cx\<rparr>"

text \<open>\<open>try_process_frames(c)\<close>.\<close>

definition serve_input :: "addr \<Rightarrow> world \<Rightarrow> (int \<times> world) outcome" where
  "serve_input p w =
     and_then (client_at p w) (\<lambda>c.
     and_then (need Invalid_pointer (w_database w)) (\<lambda>(store, expires).
     and_then (need Read_overrun (try_process_frames command_handlers
         \<lparr>cx_client = c, cx_table = store, cx_expires = expires, cx_server = w_server w, cx_env = w_env w\<rparr>)) (\<lambda>(status, cx).
       Inr (status, put_context p cx w))))"

text \<open>\<open>wbuf_flush(c)\<close>.\<close>

definition flush_client :: "addr \<Rightarrow> world \<Rightarrow> world outcome" where
  "flush_client p w =
     and_then (client_at p w) (\<lambda>c.
       let (c, e) = wbuf_flush c (w_env w) in Inr (put_client p c (w\<lparr>w_env := e\<rparr>)))"

definition sweep :: "world \<Rightarrow> world outcome" where
  "sweep w =
     and_then (need Invalid_pointer (w_database w)) (\<lambda>(store, expires).
       let (deleted, store, expires, cursor, e) = expire_sweep store expires 20 (w_cursor w) (w_env w)
       in Inr (w\<lparr>w_database := Some (store, expires), w_cursor := cursor, w_env := e\<rparr>))"

text \<open>The outcome of the next registration with the kernel.\<close>

definition next_ctl :: "world \<Rightarrow> bool \<times> world" where
  "next_ctl w = (case w_ctls w of [] \<Rightarrow> (True, w) | ok # oks \<Rightarrow> (ok, w\<lparr>w_ctls := oks\<rparr>))"

definition reject_if_server_at_capacity :: "int \<Rightarrow> world \<Rightarrow> bool \<times> world" where
  "reject_if_server_at_capacity cfd w =
     (if fkvs_server_can_accept_client (w_server w) then (False, w)
      else (True, (close_fd cfd w)\<lparr>w_server := fkvs_server_record_rejected_client (w_server w)\<rparr>))"

text \<open>A new descriptor.\<close>

definition open_fd :: "world \<Rightarrow> int \<times> world" where
  "open_fd w = (let cfd = lowest_fd (w_open w) in (cfd, w\<lparr>w_open := cfd # w_open w\<rparr>))"

text \<open>\<open>init_client\<close>, which closes the descriptor when there is no memory.\<close>

definition new_client :: "int \<Rightarrow> world \<Rightarrow> addr option \<times> world" where
  "new_client cfd w =
     (case init_client cfd (w_env w) of
        (None, e) \<Rightarrow> (None, close_fd cfd (w\<lparr>w_env := e\<rparr>))
      | (Some c, e) \<Rightarrow> (Some (w_next w),
          w\<lparr>w_env := e, w_clients := (w_clients w)(w_next w \<mapsto> c), w_next := Suc (w_next w)\<rparr>))"

definition client_has_oversized_partial_frame :: "client \<Rightarrow> bool" where
  "client_has_oversized_partial_frame c \<longleftrightarrow>
     cl_buf_used c = FKVS_CLIENT_READ_BUFFER_SIZE \<and> cl_frame_need c > 0 \<and> int (cl_buf_used c) < cl_frame_need c"

text \<open>What a \<open>recv\<close> for \<open>avail\<close> bytes gives; for zero bytes it gives zero.\<close>

definition recv_into :: "nat \<Rightarrow> recv_result \<Rightarrow> recv_result" where
  "recv_into avail r = (case r of
       Recv_data d \<Rightarrow> if take avail d = [] then Recv_eof else Recv_data (take avail d)
     | _ \<Rightarrow> r)"

text \<open>
  The loop that drains a readable socket.  The first result tells whether the client was
  dropped.  \<open>sync\<close> is \<open>sync_client_write_interest\<close> and \<open>drop_c\<close> is \<open>close_and_drop_client\<close>.
\<close>

fun drain_loop ::
  "(addr \<Rightarrow> world \<Rightarrow> (int \<times> world) outcome) \<Rightarrow> (addr \<Rightarrow> world \<Rightarrow> world outcome) \<Rightarrow> recv_result list \<Rightarrow> addr \<Rightarrow> world
    \<Rightarrow> (bool \<times> world) outcome" where
  "drain_loop sync drop_c [] p w =
     and_then (sync p w) (\<lambda>(status, w).
       if status = -1 then and_then (drop_c p w) (\<lambda>w. Inr (True, w)) else Inr (False, w))"
| "drain_loop sync drop_c (r # rs) p w =
     and_then (client_at p w) (\<lambda>c.
       case recv_into (FKVS_CLIENT_READ_BUFFER_SIZE - cl_buf_used c) r of
         Recv_data data \<Rightarrow>
           and_then (serve_input p (put_client p (receive data c) (w\<lparr>w_recvs := rs\<rparr>))) (\<lambda>(status, w).
             if status < 0 then and_then (drop_c p w) (\<lambda>w. Inr (True, w))
             else and_then (client_at p w) (\<lambda>c.
               if client_has_oversized_partial_frame c then and_then (drop_c p w) (\<lambda>w. Inr (True, w))
               else drain_loop sync drop_c rs p w))
       | Recv_eof \<Rightarrow> and_then (drop_c p (w\<lparr>w_recvs := rs\<rparr>)) (\<lambda>w. Inr (True, w))
       | Recv_again \<Rightarrow>
           and_then (sync p (w\<lparr>w_recvs := rs\<rparr>)) (\<lambda>(status, w).
             if status = -1 then and_then (drop_c p w) (\<lambda>w. Inr (True, w)) else Inr (False, w))
       | Recv_intr \<Rightarrow> drain_loop sync drop_c rs p (w\<lparr>w_recvs := rs\<rparr>)
       | Recv_error \<Rightarrow> and_then (drop_c p (w\<lparr>w_recvs := rs\<rparr>)) (\<lambda>w. Inr (True, w)))"

section \<open>What a run may end in\<close>

text \<open>No access to memory that is not allocated; when nothing goes wrong, the result is as
  stated.\<close>

definition ensures :: "'a outcome \<Rightarrow> ('a \<Rightarrow> bool) \<Rightarrow> bool" where
  "ensures r P \<longleftrightarrow> (case r of Inl e \<Rightarrow> e = Read_overrun | Inr x \<Rightarrow> P x)"

lemma ensures_simps [simp]: "ensures (Inl e) P \<longleftrightarrow> e = Read_overrun" "ensures (Inr x) P \<longleftrightarrow> P x"
  "ensures (need Read_overrun r) P \<longleftrightarrow> (\<forall>x. r = Some x \<longrightarrow> P x)"
  by (auto simp: ensures_def need_def split: option.splits)

lemma ensures_then: "ensures r P \<Longrightarrow> (\<And>x. P x \<Longrightarrow> ensures (f x) Q) \<Longrightarrow> ensures (and_then r f) Q"
  by (cases r) auto

lemma ensures_mono: "ensures r P \<Longrightarrow> (\<And>x. P x \<Longrightarrow> Q x) \<Longrightarrow> ensures r Q"
  by (cases r) auto

definition w_safe :: "world \<Rightarrow> bool" where
  "w_safe w \<longleftrightarrow> alloc_safe (env_allocs (w_env w))"

text \<open>The open descriptors that belong to no client: the listening socket, the one of the event
  queue, and what would be leaked.\<close>

definition strays :: "world \<Rightarrow> int set" where
  "strays w = set (w_open w) - fds_of w (dom (w_clients w))"

lemma strays_iff: "fd \<in> strays w \<longleftrightarrow> fd \<in> set (w_open w) \<and> (\<forall>p. map_option cl_fd (w_clients w p) \<noteq> Some fd)"
  by (auto simp: strays_def fds_of_def)

lemma strays_cong:
  "w_open w' = w_open w \<Longrightarrow> (\<And>p. map_option cl_fd (w_clients w' p) = map_option cl_fd (w_clients w p)) \<Longrightarrow> strays w' = strays w"
  by (simp add: set_eq_iff strays_iff)

lemma strays_grow:
  assumes "w_open w' = cl_fd c # w_open w" and "cl_fd c \<notin> set (w_open w)"
    and "w_clients w' = (w_clients w)(p \<mapsto> c)" and "w_clients w p = None"
  shows "strays w' = strays w"
proof (rule set_eqI)
  fix fd
  have "(\<forall>q. map_option cl_fd (w_clients w' q) \<noteq> Some fd) \<longleftrightarrow> fd \<noteq> cl_fd c \<and> (\<forall>q. map_option cl_fd (w_clients w q) \<noteq> Some fd)"
    using assms(3,4) by auto
  then show "fd \<in> strays w' \<longleftrightarrow> fd \<in> strays w" using assms(1,2) unfolding strays_iff by auto
qed

lemma no_value_removed: "f p = Some x \<Longrightarrow> (\<forall>q. f q \<noteq> Some v) \<longleftrightarrow> v \<noteq> x \<and> (\<forall>q. (f(p := None)) q \<noteq> Some v)"
  by (metis fun_upd_apply option.distinct(1) option.inject)

lemma strays_shrink:
  assumes "w_clients w p = Some c" and "distinct (w_open w)" and "w_open w' = remove1 (cl_fd c) (w_open w)"
    and "w_clients w' = (w_clients w)(p := None)"
  shows "strays w' = strays w"
proof (rule set_eqI)
  fix fd
  have "(\<lambda>q. map_option cl_fd (w_clients w' q)) = (\<lambda>q. map_option cl_fd (w_clients w q))(p := None)" using assms(4) by auto
  then have "(\<forall>q. map_option cl_fd (w_clients w q) \<noteq> Some fd) \<longleftrightarrow> fd \<noteq> cl_fd c \<and> (\<forall>q. map_option cl_fd (w_clients w' q) \<noteq> Some fd)"
    using no_value_removed [of "\<lambda>q. map_option cl_fd (w_clients w q)" p "cl_fd c" fd] assms(1) by (simp add: fun_eq_iff)
  then show "fd \<in> strays w' \<longleftrightarrow> fd \<in> strays w" using assms(2,3) unfolding strays_iff by auto
qed

text \<open>A step on the client \<open>p\<close>, after which it is connected or dropped.\<close>

definition client_step :: "addr \<Rightarrow> world \<Rightarrow> bool \<Rightarrow> world \<Rightarrow> bool" where
  "client_step p w gone w' \<longleftrightarrow> world_inv w' \<and> (w_safe w \<longrightarrow> w_safe w')
     \<and> dom (w_clients w') = (if gone then dom (w_clients w) - {p} else dom (w_clients w))
     \<and> w_watch w' = (if gone then removeAll p (w_watch w) else w_watch w) \<and> strays w' = strays w
     \<and> sv_fd (w_server w') = sv_fd (w_server w)"

lemma client_step_trans: "client_step p w False w1 \<Longrightarrow> client_step p w1 d w2 \<Longrightarrow> client_step p w d w2"
  by (auto simp: client_step_def)

lemma client_step_refl: "world_inv w \<Longrightarrow> client_step p w False w"
  by (simp add: client_step_def)

text \<open>Parts of the world that the invariant does not look at.\<close>

lemma world_inv_scripts [simp]:
  "world_inv (w\<lparr>w_recvs := rs\<rparr>) = world_inv w" "world_inv (w\<lparr>w_accepts := as\<rparr>) = world_inv w"
  "world_inv (w\<lparr>w_timers := ts\<rparr>) = world_inv w" "world_inv (w\<lparr>w_ctls := cs\<rparr>) = world_inv w"
  "world_inv (w\<lparr>w_watch := ps\<rparr>) = world_inv w" "world_inv (w\<lparr>w_cursor := n\<rparr>) = world_inv w"
  by (simp_all add: world_inv_def conns_def db_ok_def split: option.split)

lemma strays_scripts [simp]:
  "strays (w\<lparr>w_recvs := rs\<rparr>) = strays w" "strays (w\<lparr>w_accepts := as\<rparr>) = strays w"
  "strays (w\<lparr>w_timers := ts\<rparr>) = strays w" "strays (w\<lparr>w_ctls := cs\<rparr>) = strays w"
  "strays (w\<lparr>w_watch := ps\<rparr>) = strays w" "strays (w\<lparr>w_env := e\<rparr>) = strays w"
  by (simp_all add: strays_def fds_of_def)

lemma w_safe_scripts [simp]:
  "w_safe (w\<lparr>w_recvs := rs\<rparr>) = w_safe w" "w_safe (w\<lparr>w_ctls := cs\<rparr>) = w_safe w"
  "w_safe (put_client p c w) = w_safe w"
  by (simp_all add: w_safe_def put_client_def)

text \<open>A new state of a connected client and of the database.\<close>

lemma world_inv_update:
  assumes "world_inv w" and "w_clients w p = Some c" and "client_inv c'" and "cl_fd c' = cl_fd c"
    and "store_inv store" and "expires_inv expires" and "dom (deadlines expires) \<subseteq> dom (ht_map store)" and "clock_ok e"
    and "sv_fixed srv = sv_fixed (w_server w)"
  shows "world_inv ((put_client p c' w)\<lparr>w_database := Some (store, expires), w_server := srv, w_env := e\<rparr>)"
proof -
  from assms(1) obtain ns where ns: "conns w ns" by (auto simp: world_inv_def)
  have s: "sv_fd srv = sv_fd (w_server w)" "sv_num_clients srv = sv_num_clients (w_server w)" "sv_max_clients srv = sv_max_clients (w_server w)"
    using arg_cong [OF assms(9), of sv_fd] arg_cong [OF assms(9), of sv_num_clients] arg_cong [OF assms(9), of sv_max_clients]
    by (simp_all add: sv_fixed_def)
  have "conns ((put_client p c' w)\<lparr>w_database := Some (store, expires), w_server := srv, w_env := e\<rparr>) ns"
    using ns assms(2-4) s unfolding conns_def put_client_def by (auto split: if_splits) 
  then show ?thesis using assms(5-8) by (auto simp: world_inv_def db_ok_def)
qed

lemma world_inv_db:
  assumes "world_inv w"
  obtains store expires where "w_database w = Some (store, expires)" "store_inv store" "expires_inv expires"
    "dom (deadlines expires) \<subseteq> dom (ht_map store)" "clock_ok (w_env w)"
  using assms by (auto simp: world_inv_def db_ok_def split: option.splits)

lemma world_inv_client: "world_inv w \<Longrightarrow> w_clients w p = Some c \<Longrightarrow> client_inv c"
  by (auto simp: world_inv_def conns_def)

lemma put_client_step:
  assumes "world_inv w" and "w_clients w p = Some c" and "client_inv c'" and "cl_fd c' = cl_fd c"
  shows "client_step p w False (put_client p c' w)"
proof -
  from assms(1) obtain store expires where
    d: "w_database w = Some (store, expires)" "store_inv store" "expires_inv expires"
      "dom (deadlines expires) \<subseteq> dom (ht_map store)" "clock_ok (w_env w)" by (rule world_inv_db)
  have "(put_client p c' w)\<lparr>w_database := Some (store, expires), w_server := w_server w, w_env := w_env w\<rparr> = put_client p c' w"
    using d(1) by (simp add: put_client_def)
  with world_inv_update [OF assms d(2-5) refl] have "world_inv (put_client p c' w)" by simp
  moreover have "dom (w_clients (put_client p c' w)) = dom (w_clients w)" using assms(2) by (auto simp: put_client_def)
  moreover have "strays (put_client p c' w) = strays w" by (rule strays_cong) (use assms(2,4) in \<open>simp_all add: put_client_def\<close>)
  ultimately show ?thesis using assms(2) by (simp add: client_step_def) (simp add: put_client_def)
qed

lemma ctx_inv_parts:
  "ctx_inv cx \<longleftrightarrow> client_inv (cx_client cx) \<and> store_inv (cx_table cx) \<and> expires_inv (cx_expires cx) \<and> clock_ok (cx_env cx)
     \<and> dom (deadlines (cx_expires cx)) \<subseteq> dom (ht_map (cx_table cx))"
proof -
  have "dom (\<lambda>k. map_option ve_data (ht_map (cx_table cx) k)) = dom (ht_map (cx_table cx))" by (auto simp: dom_def)
  then show ?thesis by (auto simp: ctx_inv_def ctx_ok_def astate_inv_def db_view_def)
qed

lemma put_context_step:
  assumes "world_inv w" and "w_clients w p = Some c" and "stays cx cx'" and "cx_client cx = c"
    and "cx_server cx = w_server w" and "cx_env cx = w_env w"
  shows "client_step p w False (put_context p cx' w)"
proof -
  have "client_inv (cx_client cx')" "store_inv (cx_table cx')" "expires_inv (cx_expires cx')" "clock_ok (cx_env cx')"
    "dom (deadlines (cx_expires cx')) \<subseteq> dom (ht_map (cx_table cx'))" "cl_fd (cx_client cx') = cl_fd c"
    "sv_fixed (cx_server cx') = sv_fixed (w_server w)"
    using assms(3-5) by (auto simp: stays_def ctx_inv_parts cx_fixed_def)
  from world_inv_update [OF assms(1,2) this(1,6,2,3,5,4,7)] have "world_inv (put_context p cx' w)" by (simp add: put_context_def)
  moreover have "w_safe w \<longrightarrow> w_safe (put_context p cx' w)"
    using assms(3,6) by (simp add: stays_def cx_safe_def w_safe_def put_context_def put_client_def)
  moreover have "dom (w_clients (put_context p cx' w)) = dom (w_clients w)"
    using assms(2) by (auto simp: put_context_def put_client_def)
  moreover have "strays (put_context p cx' w) = strays w"
    by (rule strays_cong) (use assms(2) \<open>cl_fd (cx_client cx') = cl_fd c\<close> in \<open>simp_all add: put_context_def put_client_def\<close>)
  moreover have "sv_fd (cx_server cx') = sv_fd (w_server w)"
    using arg_cong [OF \<open>sv_fixed (cx_server cx') = sv_fixed (w_server w)\<close>, of sv_fd] by (simp add: sv_fixed_def)
  ultimately show ?thesis by (simp add: client_step_def) (simp add: put_context_def put_client_def)
qed

text \<open>Serving the input of a client; afterwards its read buffer is not full, unless the
  connection is to be dropped.\<close>

lemma serve_input_step:
  assumes "world_inv w" and "p \<in> dom (w_clients w)"
  shows "ensures (serve_input p w) (\<lambda>(status, w'). client_step p w False w' \<and> (status = 0 \<or> status = -1)
    \<and> (status = 0 \<longrightarrow> (\<exists>c. w_clients w' p = Some c \<and> cl_buf_used c < FKVS_CLIENT_READ_BUFFER_SIZE \<and> \<not> cl_write_failed c)))"
proof -
  obtain c where c: "w_clients w p = Some c" using assms(2) by auto
  from assms(1) obtain store expires where
    d: "w_database w = Some (store, expires)" "store_inv store" "expires_inv expires"
      "dom (deadlines expires) \<subseteq> dom (ht_map store)" "clock_ok (w_env w)" by (rule world_inv_db)
  define cx where "cx = \<lparr>cx_client = c, cx_table = store, cx_expires = expires, cx_server = w_server w, cx_env = w_env w\<rparr>"
  have i: "ctx_inv cx" using d(2-5) world_inv_client [OF assms(1) c] by (simp add: cx_def ctx_inv_parts)
  have s: "serve_input p w = and_then (need Read_overrun (try_process_frames command_handlers cx)) (\<lambda>(status, cx). Inr (status, put_context p cx w))"
    using c d(1) by (simp add: serve_input_def client_at_def cx_def)
  show ?thesis
  proof (cases "try_process_frames command_handlers cx")
    case (Some r)
    then obtain status cx' where r: "try_process_frames command_handlers cx = Some (status, cx')" by (cases r) auto
    note k = try_process_keeps [OF i r]
    have "client_step p w False (put_context p cx' w)"
      using put_context_step [OF assms(1) c k(1)] by (simp add: cx_def)
    then show ?thesis using s r k(2,3) by (simp add: put_context_def put_client_def)
  qed (simp add: s)
qed

lemma flush_client_step:
  assumes "world_inv w" and "p \<in> dom (w_clients w)"
  shows "ensures (flush_client p w) (client_step p w False)"
proof -
  obtain c where c: "w_clients w p = Some c" using assms(2) by auto
  from assms(1) obtain store expires where
    d: "w_database w = Some (store, expires)" "store_inv store" "expires_inv expires"
      "dom (deadlines expires) \<subseteq> dom (ht_map store)" "clock_ok (w_env w)" by (rule world_inv_db)
  define cx where "cx = \<lparr>cx_client = c, cx_table = store, cx_expires = expires, cx_server = w_server w, cx_env = w_env w\<rparr>"
  have i: "ctx_inv cx" using d(2-5) world_inv_client [OF assms(1) c] by (simp add: cx_def ctx_inv_parts)
  have "flush_client p w = Inr (put_context p (cx_send wbuf_flush cx) w)"
    using c d(1) by (simp add: flush_client_def client_at_def cx_def cx_send_def put_context_def put_client_def split_beta)
  then show ?thesis using put_context_step [OF assms(1) c flush_keeps(1) [OF i]] by (simp add: cx_def)
qed

lemma sweep_step:
  assumes "world_inv w"
  shows "ensures (sweep w) (\<lambda>w'. client_step p w False w' \<and> w_clients w' = w_clients w)"
proof -
  from assms(1) obtain store expires where
    d: "w_database w = Some (store, expires)" "store_inv store" "expires_inv expires"
      "dom (deadlines expires) \<subseteq> dom (ht_map store)" "clock_ok (w_env w)" by (rule world_inv_db)
  obtain deleted store' expires' cursor' e' where
    s: "expire_sweep store expires 20 (w_cursor w) (w_env w) = (deleted, store', expires', cursor', e')"
    using prod_cases5 by blast
  have h: "ht_inv store" "ht_inv expires" using d(2,3) by (simp_all add: store_inv_def expires_inv_def)
  note ok = expire_sweep_ok [OF h s]
  have e: "e' = snd (fkvs_now_ms (w_env w))" using s by (auto simp: expire_sweep_def Let_def split: prod.splits if_splits)
  have "store_inv store'" "expires_inv expires'" using ok d(2,3) by (auto simp: store_inv_def expires_inv_def restrict_map_def)
  moreover have "dom (deadlines expires') \<subseteq> dom (ht_map store')" using d(4) ok(3) deadlines_restrict [OF ok(4)] by auto
  moreover have "clock_ok e'" "env_allocs e' = env_allocs (w_env w)"
    using d(5) by (auto simp: e fkvs_now_ms_def clock_ok_def split: list.splits)
  ultimately show ?thesis using assms d(1) s
    by (auto simp: sweep_def client_step_def world_inv_def conns_def db_ok_def w_safe_def strays_def fds_of_def)
qed

section \<open>Dropping and accepting\<close>

lemma db_ok_cong: "w_database w' = w_database w \<Longrightarrow> w_env w' = w_env w \<Longrightarrow> db_ok w' = db_ok w"
  by (simp add: db_ok_def split: option.split)

lemma drop_step:
  assumes "world_inv w" and "p \<in> dom (w_clients w)"
  shows "ensures (server_drop_client p w) (\<lambda>w'. world_inv w' \<and> w_env w' = w_env w
    \<and> dom (w_clients w') = dom (w_clients w) - {p} \<and> w_watch w' = w_watch w \<and> strays w' = strays w
    \<and> sv_fd (w_server w') = sv_fd (w_server w))"
proof -
  obtain c where c: "w_clients w p = Some c" using assms(2) by auto
  obtain ns where ns: "conns w ns" "db_ok w" using assms(1) by (auto simp: world_inv_def)
  from server_drop_ok [OF ns(1) c] obtain as n bs l h where
    d: "server_drop_client p w = Inr (drop_world p c l h w)" "conns (drop_world p c l h w) (as @ bs)" by blast
  have "world_inv (drop_world p c l h w)" using d(2) ns(2) db_ok_cong [of "drop_world p c l h w" w]
    by (auto simp: world_inv_def drop_world_def)
  moreover have "strays (drop_world p c l h w) = strays w"
    by (rule strays_shrink [OF c]) (use ns(1) in \<open>simp_all add: conns_def drop_world_def\<close>)
  ultimately show ?thesis using d(1) by simp (simp add: drop_world_def)
qed

lemma conns_cong:
  assumes "w_clients w' = w_clients w" and "w_next w' = w_next w" and "w_list w' = w_list w" and "w_nodes w' = w_nodes w"
    and "w_open w' = w_open w" and "sv_fd (w_server w') = sv_fd (w_server w)"
    and "sv_num_clients (w_server w') = sv_num_clients (w_server w)" and "sv_max_clients (w_server w') = sv_max_clients (w_server w)"
  shows "conns w' ns = conns w ns"
  unfolding conns_def assms ..

lemma lowest_fd_free:
  shows "lowest_fd fds \<notin> set fds" and "0 \<le> lowest_fd fds"
proof -
  let ?cand = "filter (\<lambda>n. n \<notin> set fds) (map int [0..<Suc (length fds)])"
  have "?cand \<noteq> []"
  proof
    assume "?cand = []"
    then have "set (map int [0..<Suc (length fds)]) \<subseteq> set fds" unfolding filter_empty_conv by blast
    then have "card (set (map int [0..<Suc (length fds)])) \<le> card (set fds)" by (simp add: card_mono)
    moreover have "card (set (map int [0..<Suc (length fds)])) = Suc (length fds)"
      by (subst distinct_card) (auto simp: distinct_map)
    ultimately show False using card_length [of fds] by simp
  qed
  then have "lowest_fd fds \<in> set ?cand" unfolding lowest_fd_def by (rule hd_in_set)
  then show "lowest_fd fds \<notin> set fds" "0 \<le> lowest_fd fds" by (auto simp del: upt_Suc)
qed

text \<open>A new connection: the descriptor, the client and its node.\<close>

lemma accepted_conns:
  assumes "conns w ns" and "fkvs_server_can_accept_client (w_server w)" and "fd = lowest_fd (w_open w)"
    and "client_inv c" and "cl_fd c = fd" and "list_rep h l (ns @ [(n, w_next w)])"
    and "w_list w' = Some l" and "w_nodes w' = h" and "w_clients w' = (w_clients w)(w_next w \<mapsto> c)"
    and "w_next w' = Suc (w_next w)" and "w_open w' = fd # w_open w"
    and "w_server w' = (w_server w)\<lparr>sv_num_clients := sv_num_clients (w_server w) + 1\<rparr>"
  shows "conns w' (ns @ [(n, w_next w)])"
proof -
  have c: "unat (sv_num_clients (w_server w)) = length ns" "sv_num_clients (w_server w) < sv_max_clients (w_server w)"
    using assms(1,2) by (auto simp: conns_def fkvs_server_can_accept_client_def)
  have lt: "length ns < unat (sv_max_clients (w_server w))" using c by (simp add: word_less_nat_alt)
  moreover have "unat (sv_max_clients (w_server w)) < 2 ^ 32" using unsigned_less [of "sv_max_clients (w_server w)"] by simp
  ultimately have n1: "unat (sv_num_clients (w_server w) + 1) = Suc (length ns)"
    using c(1) by (simp add: unat_word_ariths(1))
  then have le: "sv_num_clients (w_server w) + 1 \<le> sv_max_clients (w_server w)" using lt by (simp add: word_le_nat_alt)
  have fr: "fd \<notin> set (w_open w)" "0 \<le> fd" using lowest_fd_free assms(3) by auto
  have new: "w_next w \<notin> snd ` set ns" using assms(1) by (auto simp: conns_def)
  have old: "cl_fd d \<noteq> fd" if "w_clients w p = Some d" for p d using assms(1) fr(1) that by (auto simp: conns_def)
  have inj: "p = q" if "w_clients w p = Some d" "w_clients w q = Some e" "cl_fd d = cl_fd e" for p q d e
    using assms(1) that unfolding conns_def by blast
  have sf: "fd \<noteq> sv_fd (w_server w)" using fr assms(1) by (auto simp: conns_def)
  show ?thesis
    unfolding conns_def assms(7-12)
  proof (intro conjI)
    show "distinct (map snd (ns @ [(n, w_next w)]))" using assms(1) new by (auto simp: conns_def)
    show "dom ((w_clients w)(w_next w \<mapsto> c)) = snd ` set (ns @ [(n, w_next w)])" using assms(1) by (auto simp: conns_def)
    show "\<forall>p \<in> snd ` set (ns @ [(n, w_next w)]). p < Suc (w_next w)" using assms(1) by (auto simp: conns_def less_Suc_eq)
    show "\<forall>p d. ((w_clients w)(w_next w \<mapsto> c)) p = Some d \<longrightarrow> client_inv d \<and> cl_fd d \<in> set (fd # w_open w)
        \<and> cl_fd d \<noteq> sv_fd ((w_server w)\<lparr>sv_num_clients := sv_num_clients (w_server w) + 1\<rparr>)"
      using assms(1,4,5) sf by (auto simp: conns_def)
    show "\<forall>p q d e. ((w_clients w)(w_next w \<mapsto> c)) p = Some d \<longrightarrow> ((w_clients w)(w_next w \<mapsto> c)) q = Some e
        \<longrightarrow> cl_fd d = cl_fd e \<longrightarrow> p = q"
      using inj old assms(5) by (auto split: if_splits) blast
  qed (use assms(1,6) fr n1 le in \<open>auto simp: conns_def\<close>)
qed

text \<open>A connection over the limit.\<close>

lemma reject_step:
  assumes "world_inv w" and "open_fd w = (cfd, w1)" and "reject_if_server_at_capacity cfd w1 = (True, w2)"
  shows "world_inv w2" and "w_env w2 = w_env w" and "w_clients w2 = w_clients w" and "w_watch w2 = w_watch w"
    and "strays w2 = strays w" and "sv_fd (w_server w2) = sv_fd (w_server w)"
proof -
  have w2: "w2 = (close_fd cfd w1)\<lparr>w_server := fkvs_server_record_rejected_client (w_server w1)\<rparr>"
    "w1 = w\<lparr>w_open := cfd # w_open w\<rparr>"
    using assms(2,3) by (auto simp: open_fd_def reject_if_server_at_capacity_def Let_def split: if_splits)
  then show e: "w_env w2 = w_env w" "w_clients w2 = w_clients w" "w_watch w2 = w_watch w" by (simp_all add: close_fd_def)
  show "strays w2 = strays w" by (rule strays_cong) (simp_all add: w2 close_fd_def)
  show "sv_fd (w_server w2) = sv_fd (w_server w)" by (simp add: w2 fkvs_server_record_rejected_client_def Let_def)
  from assms(1) obtain ns where "conns w ns" "db_ok w" by (auto simp: world_inv_def)
  moreover have "conns w2 ns = conns w ns"
    by (rule conns_cong) (simp_all add: w2 close_fd_def fkvs_server_record_rejected_client_def Let_def)
  moreover have "db_ok w2 = db_ok w" by (rule db_ok_cong) (simp_all add: w2 close_fd_def)
  ultimately show "world_inv w2" by (auto simp: world_inv_def)
qed

lemma init_client_ok:
  assumes "init_client cfd e = (Some c, e')" and "0 \<le> cfd"
  shows "client_inv c" and "cl_fd c = cfd"
  using assms by (auto simp: init_client_def client_inv_def Let_def split: prod.splits if_splits)

lemma env_alloc_keeps:
  "clock_ok (snd (env_alloc e)) = clock_ok e" "alloc_safe (env_allocs e) \<Longrightarrow> alloc_safe (env_allocs (snd (env_alloc e)))"
  "alloc_safe (env_allocs e) \<Longrightarrow> fst (env_alloc e)"
  using alloc_safeD [of "env_allocs e"] by (auto simp: env_alloc_def clock_ok_def split: prod.splits)

lemma init_client_env:
  assumes "init_client cfd e = (r, e')"
  shows "clock_ok e' = clock_ok e" and "alloc_safe (env_allocs e) \<Longrightarrow> alloc_safe (env_allocs e') \<and> r \<noteq> None"
proof -
  obtain a e1 where a: "env_alloc e = (a, e1)" by (meson surj_pair)
  obtain b e2 where b: "env_alloc e1 = (b, e2)" by (meson surj_pair)
  have i: "(r \<noteq> None) = (a \<and> b)" "e' = (if a then e2 else e1)"
    using assms a b by (auto simp: init_client_def split: if_splits)
  show "clock_ok e' = clock_ok e" using i(2) env_alloc_keeps(1) [of e] env_alloc_keeps(1) [of e1] a b by auto
  assume s: "alloc_safe (env_allocs e)"
  then have "a" "alloc_safe (env_allocs e1)" using env_alloc_keeps(2,3) [of e] a by auto
  then show "alloc_safe (env_allocs e') \<and> r \<noteq> None" using i env_alloc_keeps(2,3) [of e1] b by auto
qed

text \<open>A connection for which there is no memory.\<close>

lemma no_client_step:
  assumes "world_inv w" and "open_fd w = (cfd, w1)" and "new_client cfd w1 = (None, w2)"
  shows "world_inv w2" and "w_clients w2 = w_clients w" and "w_watch w2 = w_watch w" and "\<not> w_safe w"
    and "strays w2 = strays w"
proof -
  have w1: "w1 = w\<lparr>w_open := cfd # w_open w\<rparr>" using assms(2) by (auto simp: open_fd_def Let_def)
  obtain e where e: "init_client cfd (w_env w) = (None, e)" and w2: "w2 = close_fd cfd (w1\<lparr>w_env := e\<rparr>)"
    using assms(3) w1 by (auto simp: new_client_def split: prod.splits option.splits)
  from assms(1) obtain ns where ns: "conns w ns" "db_ok w" by (auto simp: world_inv_def)
  have "conns w2 ns = conns w ns" by (rule conns_cong) (simp_all add: w1 w2 close_fd_def)
  moreover have "db_ok w2" using ns(2) init_client_env(1) [OF e] by (auto simp: db_ok_def w1 w2 close_fd_def split: option.splits)
  ultimately show "world_inv w2" using ns(1) by (auto simp: world_inv_def)
  show "w_clients w2 = w_clients w" "w_watch w2 = w_watch w" by (simp_all add: w1 w2 close_fd_def)
  show "strays w2 = strays w" by (rule strays_cong) (simp_all add: w1 w2 close_fd_def)
  show "\<not> w_safe w" using init_client_env(2) [OF e] by (auto simp: w_safe_def)
qed

text \<open>A connection whose client and node could be allocated.\<close>

lemma new_client_listed:
  assumes "world_inv w" and "open_fd w = (cfd, w1)" and "fkvs_server_can_accept_client (w_server w)"
    and "new_client cfd w1 = (Some p, w2)" and "w_list w2 = Some l" and "fst (env_alloc (w_env w2))"
  shows "\<exists>l' h. listAddNodeToTail l p (w_nodes w2) (w_env w2) = Some (True, l', h, snd (env_alloc (w_env w2)))
    \<and> (let w3 = w2\<lparr>w_list := Some l', w_nodes := h, w_env := snd (env_alloc (w_env w2)),
              w_server := (w_server w2)\<lparr>sv_num_clients := sv_num_clients (w_server w2) + 1\<rparr>\<rparr>
       in world_inv w3 \<and> (w_safe w \<longrightarrow> w_safe w3) \<and> dom (w_clients w3) = insert p (dom (w_clients w))
          \<and> p \<notin> dom (w_clients w) \<and> w_watch w3 = w_watch w \<and> strays w3 = strays w
          \<and> sv_fd (w_server w3) = sv_fd (w_server w))"
proof -
  have w1: "w1 = w\<lparr>w_open := cfd # w_open w\<rparr>" and cfd: "cfd = lowest_fd (w_open w)" using assms(2) by (auto simp: open_fd_def Let_def)
  obtain c e where i: "init_client cfd (w_env w) = (Some c, e)" and p: "p = w_next w"
    and w2: "w2 = w1\<lparr>w_env := e, w_clients := (w_clients w)(w_next w \<mapsto> c), w_next := Suc (w_next w)\<rparr>"
    using assms(4) w1 by (auto simp: new_client_def split: prod.splits option.splits)
  note c = init_client_ok [OF i lowest_fd_free(2) [of "w_open w", folded cfd]] and ie = init_client_env [OF i]
  from assms(1) obtain ns where ns: "conns w ns" "db_ok w" by (auto simp: world_inv_def)
  have lr: "w_list w = Some l" "list_rep (w_nodes w) l ns" using ns(1) assms(5) by (auto simp: conns_def w1 w2)
  from listAddNodeToTail_rep [OF lr(2) assms(6), of p] obtain l' h where
    a: "listAddNodeToTail l p (w_nodes w) (w_env w2) = Some (True, l', h, snd (env_alloc (w_env w2)))"
      "list_rep h l' (ns @ [(nh_next (w_nodes w), p)])" by blast
  define w3 where "w3 = w2\<lparr>w_list := Some l', w_nodes := h, w_env := snd (env_alloc (w_env w2)),
              w_server := (w_server w2)\<lparr>sv_num_clients := sv_num_clients (w_server w2) + 1\<rparr>\<rparr>"
  have "conns w3 (ns @ [(nh_next (w_nodes w), w_next w)])"
    by (rule accepted_conns [OF ns(1) assms(3) cfd c a(2) [unfolded p]]) (simp_all add: w3_def w1 w2)
  moreover have "db_ok w3" using ns(2) ie(1) env_alloc_keeps(1) [of e]
    by (auto simp: db_ok_def w3_def w1 w2 split: option.splits)
  moreover have "w_safe w3" if "w_safe w" using that ie(2) env_alloc_keeps(2) [of e] by (auto simp: w_safe_def w3_def w1 w2)
  moreover have "p \<notin> dom (w_clients w)" using ns(1) p by (auto simp: conns_def)
  moreover have "strays w3 = strays w"
    by (rule strays_grow [of _ c _ p]) (use \<open>p \<notin> dom (w_clients w)\<close> c(2) p cfd lowest_fd_free(1) [of "w_open w"] in \<open>auto simp: w3_def w1 w2\<close>)
  ultimately have "world_inv w3 \<and> (w_safe w \<longrightarrow> w_safe w3) \<and> dom (w_clients w3) = insert p (dom (w_clients w))
      \<and> p \<notin> dom (w_clients w) \<and> w_watch w3 = w_watch w \<and> strays w3 = strays w
      \<and> sv_fd (w_server w3) = sv_fd (w_server w)"
    using p by (auto simp: world_inv_def) (auto simp: w3_def w1 w2)
  then show ?thesis using a(1) by (auto simp: w1 w2 w3_def Let_def)
qed

section \<open>The drain loop\<close>

text \<open>What the drain loop needs of its surroundings, and what it then guarantees.\<close>

locale event_backend =
  fixes sync :: "addr \<Rightarrow> world \<Rightarrow> (int \<times> world) outcome" and drop_c :: "addr \<Rightarrow> world \<Rightarrow> world outcome"
  assumes sync_step: "world_inv w \<Longrightarrow> p \<in> dom (w_clients w) \<Longrightarrow> ensures (sync p w) (\<lambda>(_, w'). client_step p w False w')"
    and drop_c_step: "world_inv w \<Longrightarrow> p \<in> dom (w_clients w) \<Longrightarrow> ensures (drop_c p w) (client_step p w True)"
begin

lemma drop_result:
  assumes "client_step p w False w1" and "p \<in> dom (w_clients w)"
  shows "ensures (and_then (drop_c p w1) (\<lambda>w. Inr (True, w))) (\<lambda>(gone, w'). client_step p w gone w')"
  using assms drop_c_step [of w1 p] client_step_trans [OF assms(1)]
  by (intro ensures_then [where P = "client_step p w1 True"]) (auto simp: client_step_def [of p w False w1])

lemma sync_result:
  assumes "client_step p w False w1" and "p \<in> dom (w_clients w)"
  shows "ensures (and_then (sync p w1) (\<lambda>(status, w2).
      if status = -1 then and_then (drop_c p w2) (\<lambda>w. Inr (True, w)) else Inr (False, w2))) (\<lambda>(gone, w'). client_step p w gone w')"
proof (rule ensures_then)
  have "world_inv w1" "p \<in> dom (w_clients w1)" using assms by (simp_all add: client_step_def)
  then show "ensures (sync p w1) (\<lambda>(_, w'). client_step p w1 False w')" by (rule sync_step)
  fix x :: "int \<times> world" assume "case x of (_, w') \<Rightarrow> client_step p w1 False w'"
  then obtain status w2 where x: "x = (status, w2)" "client_step p w False w2"
    using client_step_trans [OF assms(1)] by (cases x) auto
  show "ensures (case x of (status, w2) \<Rightarrow>
      if status = -1 then and_then (drop_c p w2) (\<lambda>w. Inr (True, w)) else Inr (False, w2)) (\<lambda>(gone, w'). client_step p w gone w')"
    using x drop_result [OF x(2) assms(2)] by simp
qed

lemma write_step:
  assumes "world_inv w" and "p \<in> dom (w_clients w)"
  shows "ensures (and_then (flush_client p w) (\<lambda>w.
      and_then (client_at p w) (\<lambda>c.
        if cl_write_failed c then and_then (drop_c p w) (\<lambda>w. Inr (True, w))
        else and_then (sync p w) (\<lambda>(status, w).
          if status = -1 then and_then (drop_c p w) (\<lambda>w. Inr (True, w)) else Inr (False, w)))))
    (\<lambda>(gone, w'). client_step p w gone w')"
proof (rule ensures_then [OF flush_client_step [OF assms]])
  fix w1 assume s: "client_step p w False w1"
  then have "p \<in> dom (w_clients w1)" using assms(2) by (simp add: client_step_def)
  then obtain c where "client_at p w1 = Inr c" by (auto simp: client_at_def)
  then show "ensures (and_then (client_at p w1) (\<lambda>c.
        if cl_write_failed c then and_then (drop_c p w1) (\<lambda>w. Inr (True, w))
        else and_then (sync p w1) (\<lambda>(status, w).
          if status = -1 then and_then (drop_c p w) (\<lambda>w. Inr (True, w)) else Inr (False, w))))
    (\<lambda>(gone, w'). client_step p w gone w')"
    using drop_result [OF s assms(2)] sync_result [OF s assms(2)] by simp
qed

lemma script_step: "world_inv w \<Longrightarrow> client_step p w False (w\<lparr>w_recvs := rs\<rparr>)"
  by (simp add: client_step_def)

lemma drain_step:
  assumes "world_inv w" and "p \<in> dom (w_clients w)"
  shows "ensures (drain_loop sync drop_c rs p w) (\<lambda>(gone, w'). client_step p w gone w')"
  using assms
proof (induction rs arbitrary: w)
  case Nil
  then show ?case using sync_result [OF client_step_refl] by simp
next
  case (Cons r rs)
  obtain c where c: "w_clients w p = Some c" using Cons.prems(2) by auto
  note ss = script_step [OF Cons.prems(1), of p rs]
  note ci = world_inv_client [OF Cons.prems(1) c]
  have again: "ensures (drain_loop sync drop_c rs p w1) (\<lambda>(gone, w'). client_step p w gone w')" if s: "client_step p w False w1" for w1
  proof (rule ensures_mono [OF Cons.IH])
    show "world_inv w1" "p \<in> dom (w_clients w1)" using s Cons.prems(2) by (simp_all add: client_step_def)
  qed (use client_step_trans [OF s] in auto)
  show ?case
  proof (cases "recv_into (FKVS_CLIENT_READ_BUFFER_SIZE - cl_buf_used c) r")
    case (Recv_data data)
    then have len: "length data \<le> FKVS_CLIENT_READ_BUFFER_SIZE - cl_buf_used c"
      by (auto simp: recv_into_def split: recv_result.splits if_splits)
    let ?w = "put_client p (receive data c) (w\<lparr>w_recvs := rs\<rparr>)"
    have "client_inv (receive data c)" "cl_fd (receive data c) = cl_fd c"
      using ci len by (auto simp: receive_def client_inv_def)
    then have st: "client_step p w False ?w"
      using put_client_step [of "w\<lparr>w_recvs := rs\<rparr>" p c "receive data c"] Cons.prems(1) c client_step_trans [OF ss] by simp
    have si: "ensures (serve_input p ?w) (\<lambda>(status, w'). client_step p ?w False w')"
    proof (rule ensures_mono [OF serve_input_step])
      show "world_inv ?w" "p \<in> dom (w_clients ?w)" using st Cons.prems(2) by (simp_all add: client_step_def)
    qed auto
    have "ensures (and_then (serve_input p ?w) (\<lambda>(status, w).
             if status < 0 then and_then (drop_c p w) (\<lambda>w. Inr (True, w))
             else and_then (client_at p w) (\<lambda>c.
               if client_has_oversized_partial_frame c then and_then (drop_c p w) (\<lambda>w. Inr (True, w))
               else drain_loop sync drop_c rs p w))) (\<lambda>(gone, w'). client_step p w gone w')"
    proof (rule ensures_then [OF si], clarify)
      fix status w1 assume "client_step p ?w False w1"
      then have s1: "client_step p w False w1" using client_step_trans [OF st] by blast
      then have "p \<in> dom (w_clients w1)" using Cons.prems(2) by (simp add: client_step_def)
      then obtain c1 where c1: "client_at p w1 = Inr c1" by (auto simp: client_at_def)
      show "ensures (if status < 0 then and_then (drop_c p w1) (\<lambda>w. Inr (True, w))
             else and_then (client_at p w1) (\<lambda>c.
               if client_has_oversized_partial_frame c then and_then (drop_c p w1) (\<lambda>w. Inr (True, w))
               else drain_loop sync drop_c rs p w1)) (\<lambda>(gone, w'). client_step p w gone w')"
        using drop_result [OF s1 Cons.prems(2)] again [OF s1] c1 by auto
    qed
    then show ?thesis using Recv_data c by (simp add: client_at_def)
  qed (use c sync_result [OF ss Cons.prems(2)] drop_result [OF ss Cons.prems(2)] again [OF ss] in \<open>simp_all add: client_at_def\<close>)
qed

lemma drain_result:
  assumes "client_step p w False w1" and "p \<in> dom (w_clients w)"
  shows "ensures (and_then (drain_loop sync drop_c rs p w1) (\<lambda>(gone, w). Inr (if gone then Some p else None, w)))
    (\<lambda>(gone, w'). (gone = None \<or> gone = Some p) \<and> client_step p w (gone = Some p) w')"
proof (rule ensures_then [OF drain_step])
  show "world_inv w1" "p \<in> dom (w_clients w1)" using assms by (simp_all add: client_step_def)
qed (use client_step_trans [OF assms(1)] in auto)

end

end
