(* ===== verification/Epoll.thy ===== *)
theory Epoll
  imports Event_Loop
begin

text \<open>
  \<open>src/io/event_dispatcher_epoll.c\<close>: the event loop for Linux without io_uring.  Proved:
  whatever events the kernel reports, in any number of rounds, the loop never touches a
  client that has been freed and keeps the invariant of the server, as long as no
  allocation fails; a failing allocation in \<open>listAddNodeToTail\<close> loses the list of clients.
\<close>

section \<open>Helpers\<close>

text \<open>Deregistering and dropping.  The result of \<open>EPOLL_CTL_DEL\<close> is ignored.\<close>

definition close_and_drop_client :: "addr \<Rightarrow> world \<Rightarrow> world outcome" where
  "close_and_drop_client p w =
     and_then (client_at p w) (\<lambda>_. server_drop_client p (w\<lparr>w_watch := removeAll p (w_watch w)\<rparr>))"

definition sync_client_write_interest :: "addr \<Rightarrow> world \<Rightarrow> (int \<times> world) outcome" where
  "sync_client_write_interest p w =
     and_then (client_at p w) (\<lambda>c.
       let want_write = (length (cl_wbuf c) > 0) in
       if cl_write_registered c = want_write then Inr (0, w)
       else let (ok, w) = next_ctl w in
         if \<not> ok then Inr (-1, w)
         else Inr (0, put_client p (c\<lparr>cl_write_registered := want_write\<rparr>) w))"

section \<open>Events\<close>

text \<open>
  The source compares the descriptor in the event's data with the timer and the listening
  socket before it takes the data for a pointer; here the data is tagged.
\<close>

datatype event_data = Ev_timer | Ev_listen | Ev_client "addr option"

text \<open>\<open>ev_hup\<close> is any of \<open>EPOLLRDHUP\<close>, \<open>EPOLLHUP\<close> and \<open>EPOLLERR\<close>.\<close>

record epoll_event =
  ev_data :: event_data
  ev_in :: bool
  ev_out :: bool
  ev_hup :: bool

text \<open>The timer is read until it has fired once or has nothing to tell.\<close>

fun timer_loop :: "timer_result list \<Rightarrow> world \<Rightarrow> world outcome" where
  "timer_loop [] w = Inr w"
| "timer_loop (r # rs) w =
     (case r of
        Timer_fired \<Rightarrow> sweep (w\<lparr>w_timers := rs\<rparr>)
      | Timer_intr \<Rightarrow> timer_loop rs (w\<lparr>w_timers := rs\<rparr>)
      | _ \<Rightarrow> Inr (w\<lparr>w_timers := rs\<rparr>))"

text \<open>\<open>server.clients = listAddNodeToTail(server.clients, c)\<close>, whatever it returns.\<close>

definition add_client :: "addr \<Rightarrow> world \<Rightarrow> world outcome" where
  "add_client p w =
     (case w_list w of
        None \<Rightarrow>
          let (ok, e) = env_alloc (w_env w)
          in if ok then Inl Invalid_pointer else Inr (w\<lparr>w_env := e\<rparr>)
      | Some l \<Rightarrow>
          and_then (need Invalid_pointer (listAddNodeToTail l p (w_nodes w) (w_env w))) (\<lambda>(added, l, h, e).
            Inr (w\<lparr>w_list := if added then Some l else None, w_nodes := h, w_env := e\<rparr>)))"

definition accept_one :: "world \<Rightarrow> world outcome" where
  "accept_one w =
     (let (cfd, w) = open_fd w;
          (rejected, w) = reject_if_server_at_capacity cfd w
      in if rejected then Inr w
         else case new_client cfd w of
             (None, w) \<Rightarrow> Inr w
           | (Some p, w) \<Rightarrow>
               and_then (add_client p w) (\<lambda>w.
                 let srv = w_server w;
                     w = w\<lparr>w_server := srv\<lparr>sv_num_clients := sv_num_clients srv + 1\<rparr>\<rparr>;
                     (ok, w) = next_ctl w;
                     w = w\<lparr>w_watch := (if ok then p # w_watch w else w_watch w)\<rparr>
                 in if ok then Inr w else close_and_drop_client p w))"

text \<open>Every failure of \<open>accept\<close> ends the loop.\<close>

fun accept_loop :: "accept_result list \<Rightarrow> world \<Rightarrow> world outcome" where
  "accept_loop [] w = Inr w"
| "accept_loop (r # rs) w =
     (case r of
        Accept_new \<Rightarrow> and_then (accept_one (w\<lparr>w_accepts := rs\<rparr>)) (accept_loop rs)
      | _ \<Rightarrow> Inr (w\<lparr>w_accepts := rs\<rparr>))"

text \<open>One event.  The first result is the client that was dropped, whose later events in the
  batch are cleared.  A NULL pointer passes the first test when the event is for writing
  only.\<close>

definition handle_event :: "epoll_event \<Rightarrow> world \<Rightarrow> (addr option \<times> world) outcome" where
  "handle_event ev w =
     (case ev_data ev of
        Ev_timer \<Rightarrow> and_then (timer_loop (w_timers w) w) (\<lambda>w. Inr (None, w))
      | Ev_listen \<Rightarrow> and_then (accept_loop (w_accepts w) w) (\<lambda>w. Inr (None, w))
      | Ev_client None \<Rightarrow>
          if ev_in ev \<or> ev_hup ev then Inr (None, w)
          else if ev_out ev then Inl Invalid_pointer else Inr (None, w)
      | Ev_client (Some p) \<Rightarrow>
          if ev_hup ev then and_then (close_and_drop_client p w) (\<lambda>w. Inr (Some p, w))
          else
            and_then
              (if ev_out ev
               then and_then (flush_client p w) (\<lambda>w.
                    and_then (client_at p w) (\<lambda>c.
                      if cl_write_failed c then and_then (close_and_drop_client p w) (\<lambda>w. Inr (True, w))
                      else and_then (sync_client_write_interest p w) (\<lambda>(status, w).
                        if status = -1 then and_then (close_and_drop_client p w) (\<lambda>w. Inr (True, w))
                        else Inr (False, w))))
               else Inr (False, w))
              (\<lambda>(gone, w).
                if gone then Inr (Some p, w)
                else if ev_in ev
                then and_then (drain_loop sync_client_write_interest close_and_drop_client (w_recvs w) p w)
                       (\<lambda>(gone, w). Inr (if gone then Some p else None, w))
                else Inr (None, w)))"

definition clear_pointer :: "addr option \<Rightarrow> epoll_event list \<Rightarrow> epoll_event list" where
  "clear_pointer gone evs = (case gone of
       None \<Rightarrow> evs
     | Some p \<Rightarrow> map (\<lambda>ev. if ev_data ev = Ev_client (Some p) then ev\<lparr>ev_data := Ev_client None\<rparr> else ev) evs)"

function handle_events :: "epoll_event list \<Rightarrow> world \<Rightarrow> world outcome" where
  "handle_events [] w = Inr w"
| "handle_events (ev # evs) w =
     and_then (handle_event ev w) (\<lambda>(gone, w). handle_events (clear_pointer gone evs) w)"
  by pat_completeness auto

termination
  by (relation "measure (\<lambda>(evs, w). length evs)") (auto simp: clear_pointer_def split: option.splits)

section \<open>The loop\<close>

text \<open>What \<open>epoll_wait\<close> gives; a signal may arrive while it waits.\<close>

datatype wait_result = Wait_events "epoll_event list" | Wait_intr | Wait_error

fun event_rounds :: "(bool \<times> wait_result) list \<Rightarrow> world \<Rightarrow> world outcome" where
  "event_rounds [] w = Inr w"
| "event_rounds ((signal, r) # rs) w =
     (if server_shutdown_requested w then Inr w
      else let w = (if signal then request_server_shutdown w else w) in
        case r of
          Wait_events evs \<Rightarrow> and_then (handle_events evs w) (event_rounds rs)
        | Wait_intr \<Rightarrow> if server_shutdown_requested w then Inr w else event_rounds rs w
        | Wait_error \<Rightarrow> Inr w)"

text \<open>\<open>create\<close>, \<open>add\<close> and \<open>timer\<close> tell whether the epoll instance, the registration of the
  listening socket and the timer succeed; without a timer the loop goes on.\<close>

definition run_event_loop :: "bool \<Rightarrow> bool \<Rightarrow> bool \<Rightarrow> (bool \<times> wait_result) list \<Rightarrow> world \<Rightarrow> (int \<times> world) outcome" where
  "run_event_loop create add timer rounds w =
     (if \<not> create then Inr (-1, w)
      else let (epfd, w) = open_fd w in
        if \<not> add then Inr (-1, close_fd epfd w)
        else let (tfd, w) = (if timer then open_fd w else (-1, w)) in
          and_then (event_rounds rounds w) (\<lambda>w.
            let w = (if tfd \<ge> 0 then close_fd tfd w else w) in Inr (0, close_fd epfd w)))"

section \<open>Steps keep the invariant\<close>

lemma close_and_drop_step:
  assumes "world_inv w" and "p \<in> dom (w_clients w)"
  shows "ensures (close_and_drop_client p w) (client_step p w True)"
proof -
  obtain c where c: "w_clients w p = Some c" using assms(2) by auto
  have "ensures (server_drop_client p (w\<lparr>w_watch := removeAll p (w_watch w)\<rparr>)) (client_step p w True)"
  proof (rule ensures_mono [OF drop_step])
    show "world_inv (w\<lparr>w_watch := removeAll p (w_watch w)\<rparr>)" "p \<in> dom (w_clients (w\<lparr>w_watch := removeAll p (w_watch w)\<rparr>))"
      using assms by simp_all
  qed (simp add: client_step_def w_safe_def)
  then show ?thesis using c by (simp add: close_and_drop_client_def client_at_def)
qed

lemma epoll_ctl_step:
  assumes "world_inv w" and "next_ctl w = (ok, w')"
  shows "client_step p w False w'" and "w_clients w' = w_clients w"
  using assms by (auto simp: next_ctl_def client_step_def split: list.splits)

lemma epoll_sync_step:
  assumes "world_inv w" and "p \<in> dom (w_clients w)"
  shows "ensures (sync_client_write_interest p w) (\<lambda>(_, w'). client_step p w False w')"
proof -
  obtain c where c: "w_clients w p = Some c" using assms(2) by auto
  obtain ok w1 where n: "next_ctl w = (ok, w1)" by (meson surj_pair)
  note s = epoll_ctl_step [OF assms(1) n]
  have i: "world_inv w1" "w_clients w1 p = Some c" using s(1) [of p] s(2) c by (simp_all add: client_step_def)
  have "client_inv (c\<lparr>cl_write_registered := b\<rparr>)" for b using world_inv_client [OF assms(1) c] by (simp add: client_inv_def)
  then have "client_step p w1 False (put_client p (c\<lparr>cl_write_registered := b\<rparr>) w1)" for b
    using put_client_step [OF i] by simp
  then show ?thesis using c n s(1) [of p] client_step_trans [of p w w1] client_step_refl [OF assms(1)]
    by (auto simp: sync_client_write_interest_def client_at_def Let_def)
qed

interpretation epoll_io: event_backend sync_client_write_interest close_and_drop_client
  by unfold_locales (fact epoll_sync_step, fact close_and_drop_step)

text \<open>The state between two rounds: the kernel watches exactly the connected clients, and the
  descriptors open beside theirs are those in \<open>F\<close>.\<close>

definition sound :: "int set \<Rightarrow> world \<Rightarrow> bool" where
  "sound F w \<longleftrightarrow> world_inv w \<and> w_safe w \<and> set (w_watch w) = dom (w_clients w) \<and> strays w = F"

lemma sound_client_step: "sound F w \<Longrightarrow> client_step p w gone w' \<Longrightarrow> sound F w'"
  by (auto simp: sound_def client_step_def split: if_splits)

lemma sound_scripts [simp]:
  "sound F (w\<lparr>w_accepts := as\<rparr>) = sound F w" "sound F (w\<lparr>w_timers := ts\<rparr>) = sound F w" "sound F (w\<lparr>w_recvs := rs\<rparr>) = sound F w"
  by (simp_all add: sound_def w_safe_def)

lemma timer_loop_step:
  assumes "sound F w"
  shows "ensures (timer_loop ts w) (\<lambda>w'. sound F w' \<and> w_clients w' = w_clients w \<and> sv_fd (w_server w') = sv_fd (w_server w))"
  using assms
proof (induction ts arbitrary: w)
  case (Cons r rs)
  have "ensures (sweep (w\<lparr>w_timers := rs\<rparr>)) (\<lambda>w'. sound F w' \<and> w_clients w' = w_clients w \<and> sv_fd (w_server w') = sv_fd (w_server w))"
  proof (rule ensures_mono [OF sweep_step [of _ 0]])
    show "world_inv (w\<lparr>w_timers := rs\<rparr>)" using Cons.prems by (simp add: sound_def)
    show "sound F w' \<and> w_clients w' = w_clients w \<and> sv_fd (w_server w') = sv_fd (w_server w)"
      if "client_step 0 (w\<lparr>w_timers := rs\<rparr>) False w' \<and> w_clients w' = w_clients (w\<lparr>w_timers := rs\<rparr>)" for w'
      using that sound_client_step [of F "w\<lparr>w_timers := rs\<rparr>" 0 False w'] Cons.prems by (simp add: client_step_def)
  qed
  then show ?case using Cons.IH [of "w\<lparr>w_timers := rs\<rparr>"] Cons.prems by (cases r) simp_all
qed simp

text \<open>Accepting only adds clients.\<close>

definition more_clients :: "world \<Rightarrow> world \<Rightarrow> bool" where
  "more_clients w w' \<longleftrightarrow> dom (w_clients w) \<subseteq> dom (w_clients w') \<and> sv_fd (w_server w') = sv_fd (w_server w)"

lemma accept_one_step:
  assumes "sound F w"
  shows "ensures (accept_one w) (\<lambda>w'. sound F w' \<and> more_clients w w')"
proof -
  have inv: "world_inv w" and safe: "w_safe w" and watch: "set (w_watch w) = dom (w_clients w)" and st: "strays w = F" using assms by (auto simp: sound_def)
  obtain cfd w1 where o: "open_fd w = (cfd, w1)" by (meson surj_pair)
  have w1: "w1 = w\<lparr>w_open := cfd # w_open w\<rparr>" using o by (auto simp: open_fd_def Let_def)
  obtain rejected w2 where r: "reject_if_server_at_capacity cfd w1 = (rejected, w2)" by (meson surj_pair)
  show ?thesis
  proof (cases rejected)
    case True
    with r have "reject_if_server_at_capacity cfd w1 = (True, w2)" by simp
    from reject_step [OF inv o this] True show ?thesis using safe watch st o r
      by (simp add: accept_one_def sound_def w_safe_def more_clients_def)
  next
    case False
    then have w2: "w2 = w1" and can: "fkvs_server_can_accept_client (w_server w)"
      using r by (auto simp: reject_if_server_at_capacity_def w1 split: if_splits)
    obtain po w3 where n: "new_client cfd w1 = (po, w3)" by (meson surj_pair)
    then obtain p where po: "po = Some p" using no_client_step(4) [OF inv o] safe by (cases po) auto
    from inv obtain l where "w_list w = Some l" by (auto simp: world_inv_def conns_def)
    then have l: "w_list w3 = Some l" using n po by (auto simp: new_client_def w1 split: prod.splits option.splits)
    have "alloc_safe (env_allocs (w_env w3))"
      using n po safe init_client_env(2) [of cfd "w_env w"]
      by (auto simp: new_client_def w1 w_safe_def split: prod.splits option.splits)
    then have al: "fst (env_alloc (w_env w3))" by (rule env_alloc_keeps(3))
    from new_client_listed [OF inv o can n [unfolded po] l al] obtain l' h where
      a: "listAddNodeToTail l p (w_nodes w3) (w_env w3) = Some (True, l', h, snd (env_alloc (w_env w3)))"
      and w4: "let w4 = w3\<lparr>w_list := Some l', w_nodes := h, w_env := snd (env_alloc (w_env w3)),
              w_server := (w_server w3)\<lparr>sv_num_clients := sv_num_clients (w_server w3) + 1\<rparr>\<rparr>
       in world_inv w4 \<and> (w_safe w \<longrightarrow> w_safe w4) \<and> dom (w_clients w4) = insert p (dom (w_clients w))
          \<and> p \<notin> dom (w_clients w) \<and> w_watch w4 = w_watch w \<and> strays w4 = strays w
          \<and> sv_fd (w_server w4) = sv_fd (w_server w)" by blast
    define w4 where "w4 = w3\<lparr>w_list := Some l', w_nodes := h, w_env := snd (env_alloc (w_env w3)),
              w_server := (w_server w3)\<lparr>sv_num_clients := sv_num_clients (w_server w3) + 1\<rparr>\<rparr>"
    have i4: "world_inv w4" "w_safe w4" "dom (w_clients w4) = insert p (dom (w_clients w))" "p \<notin> dom (w_clients w)" "w_watch w4 = w_watch w"
      "strays w4 = strays w" "sv_fd (w_server w4) = sv_fd (w_server w)"
      using w4 safe by (simp_all add: w4_def Let_def)
    obtain ok w5 where c: "next_ctl w4 = (ok, w5)" by (meson surj_pair)
    note s5 = epoll_ctl_step [OF i4(1) c]
    have eq: "accept_one w = (let w = w5\<lparr>w_watch := (if ok then p # w_watch w5 else w_watch w5)\<rparr>
        in if ok then Inr w else close_and_drop_client p w)"
      using o r False w2 n po l a c by (simp add: accept_one_def add_client_def w4_def Let_def)
    show ?thesis
    proof (cases ok)
      case True
      then show ?thesis using eq s5(1) [of p] i4 watch st by (auto simp: sound_def client_step_def w_safe_def more_clients_def Let_def)
    next
      case notok: False
      have "ensures (close_and_drop_client p w5) (client_step p w5 True)"
        using s5 i4 by (intro close_and_drop_step) (auto simp: client_step_def)
      moreover have "dom (w_clients w) - {p} = dom (w_clients w)" "insert p (dom (w_clients w)) - {p} = dom (w_clients w)"
        using i4(4) by (simp_all add: Diff_insert_absorb)
      then have "sound F w' \<and> more_clients w w'" if "client_step p w5 True w'" for w'
        using that s5(1) [of p] i4(2,3,5,6,7) watch st by (simp add: sound_def client_step_def more_clients_def)
      ultimately have "ensures (close_and_drop_client p w5) (\<lambda>w'. sound F w' \<and> more_clients w w')"
        by (rule ensures_mono)
      then show ?thesis using eq notok by simp
    qed
  qed
qed

lemma accept_loop_step:
  assumes "sound F w"
  shows "ensures (accept_loop rs w) (\<lambda>w'. sound F w' \<and> more_clients w w')"
  using assms
proof (induction rs arbitrary: w)
  case (Cons r rs)
  have "ensures (and_then (accept_one (w\<lparr>w_accepts := rs\<rparr>)) (accept_loop rs)) (\<lambda>w'. sound F w' \<and> more_clients w w')"
  proof (rule ensures_then [OF accept_one_step])
    show "sound F (w\<lparr>w_accepts := rs\<rparr>)" using Cons.prems by simp
    fix w1 assume s: "sound F w1 \<and> more_clients (w\<lparr>w_accepts := rs\<rparr>) w1"
    then show "ensures (accept_loop rs w1) (\<lambda>w'. sound F w' \<and> more_clients w w')"
      by (intro ensures_mono [OF Cons.IH]) (auto simp: more_clients_def)
  qed
  then show ?case using Cons.prems by (cases r) (simp_all add: more_clients_def)
qed (simp add: more_clients_def)

lemma handle_client_event_step:
  assumes "world_inv w" and "p \<in> dom (w_clients w)" and "ev_data ev = Ev_client (Some p)"
  shows "ensures (handle_event ev w) (\<lambda>(gone, w'). (gone = None \<or> gone = Some p) \<and> client_step p w (gone = Some p) w')"
proof (cases "ev_hup ev")
  case True
  have "ensures (and_then (close_and_drop_client p w) (\<lambda>w. Inr (Some p, w)))
      (\<lambda>(gone, w'). (gone = None \<or> gone = Some p) \<and> client_step p w (gone = Some p) w')"
    by (rule ensures_then [OF close_and_drop_step [OF assms(1,2)]]) simp
  then show ?thesis using True assms(3) by (simp add: handle_event_def)
next
  case False
  define first where "first = (if ev_out ev
      then and_then (flush_client p w) (\<lambda>w.
        and_then (client_at p w) (\<lambda>c.
          if cl_write_failed c then and_then (close_and_drop_client p w) (\<lambda>w. Inr (True, w))
          else and_then (sync_client_write_interest p w) (\<lambda>(status, w).
            if status = -1 then and_then (close_and_drop_client p w) (\<lambda>w. Inr (True, w)) else Inr (False, w))))
      else Inr (False, w))"
  have f: "ensures first (\<lambda>(gone, w'). client_step p w gone w')"
    using epoll_io.write_step [OF assms(1,2)] client_step_refl [OF assms(1)] by (simp add: first_def)
  have "ensures (and_then first (\<lambda>(gone, w).
                if gone then Inr (Some p, w)
                else if ev_in ev
                then and_then (drain_loop sync_client_write_interest close_and_drop_client (w_recvs w) p w)
                       (\<lambda>(gone, w). Inr (if gone then Some p else None, w))
                else Inr (None, w))) (\<lambda>(gone, w'). (gone = None \<or> gone = Some p) \<and> client_step p w (gone = Some p) w')"
  proof (rule ensures_then [OF f], clarify)
    fix gone w1 assume s: "client_step p w gone w1"
    show "ensures (if gone then Inr (Some p, w1)
                else if ev_in ev
                then and_then (drain_loop sync_client_write_interest close_and_drop_client (w_recvs w1) p w1)
                       (\<lambda>(gone, w). Inr (if gone then Some p else None, w))
                else Inr (None, w1)) (\<lambda>(gone, w'). (gone = None \<or> gone = Some p) \<and> client_step p w (gone = Some p) w')"
      using s epoll_io.drain_result [OF _ assms(2), of w1] by (cases gone) auto
  qed
  then show ?thesis using False assms(3) by (simp add: handle_event_def first_def)
qed

section \<open>Any number of rounds\<close>

text \<open>
  What \<open>epoll_wait\<close> may report: each watched object at most once, and clients that are
  registered.
\<close>

definition reported :: "epoll_event list \<Rightarrow> addr set \<Rightarrow> bool" where
  "reported evs ps \<longleftrightarrow> distinct (map ev_data evs) \<and>
     (\<forall>ev \<in> set evs. \<forall>po. ev_data ev = Ev_client po \<longrightarrow> (\<exists>p \<in> ps. po = Some p))"

lemma reported_mono: "reported evs ps \<Longrightarrow> ps \<subseteq> qs \<Longrightarrow> reported evs qs"
  unfolding reported_def by blast

lemma clear_pointer_unused:
  assumes "distinct (map ev_data (ev # evs))" and "gone = None \<or> (\<exists>p. gone = Some p \<and> ev_data ev = Ev_client (Some p))"
  shows "clear_pointer gone evs = evs"
  using assms by (auto simp: clear_pointer_def intro!: map_idI split: option.splits) force

lemma handle_event_step:
  assumes "sound F w" and "reported (ev # evs) (dom (w_clients w))"
  shows "ensures (handle_event ev w) (\<lambda>(gone, w'). sound F w' \<and> clear_pointer gone evs = evs \<and> reported evs (dom (w_clients w'))
    \<and> sv_fd (w_server w') = sv_fd (w_server w))" (is "ensures _ ?P")
proof -
  have rep: "distinct (map ev_data (ev # evs))" "reported evs (dom (w_clients w))" using assms(2) by (auto simp: reported_def)
  have keep: "clear_pointer None evs = evs" by (simp add: clear_pointer_def)
  have inv: "world_inv w" using assms(1) by (simp add: sound_def)
  show ?thesis
  proof (cases "ev_data ev")
    case Ev_timer
    have "ensures (and_then (timer_loop (w_timers w) w) (\<lambda>w. Inr (None, w))) ?P"
      by (rule ensures_then [OF timer_loop_step [OF assms(1)]]) (use rep keep in simp)
    then show ?thesis using Ev_timer by (simp add: handle_event_def)
  next
    case Ev_listen
    have "ensures (and_then (accept_loop (w_accepts w) w) (\<lambda>w. Inr (None, w))) ?P"
      by (rule ensures_then [OF accept_loop_step [OF assms(1)]]) (use rep keep reported_mono in \<open>auto simp: more_clients_def\<close>)
    then show ?thesis using Ev_listen by (simp add: handle_event_def)
  next
    case (Ev_client po)
    then obtain p where p: "ev_data ev = Ev_client (Some p)" "p \<in> dom (w_clients w)" using assms(2) by (auto simp: reported_def)
    show ?thesis
    proof (rule ensures_mono [OF handle_client_event_step [OF inv p(2,1)]], clarify)
      fix gone w' assume g: "gone = None \<or> gone = Some p" and s: "client_step p w (gone = Some p) w'"
      have "clear_pointer gone evs = evs" using clear_pointer_unused [OF rep(1)] g p(1) by auto
      moreover have "reported evs (dom (w_clients w'))"
        using rep s p(1) unfolding reported_def client_step_def by (force split: if_splits)
      ultimately show "sound F w' \<and> clear_pointer gone evs = evs \<and> reported evs (dom (w_clients w')) \<and> sv_fd (w_server w') = sv_fd (w_server w)"
        using sound_client_step [OF assms(1) s] s by (simp add: client_step_def)
    qed
  qed
qed

lemma handle_events_step:
  assumes "sound F w" and "reported evs (dom (w_clients w))"
  shows "ensures (handle_events evs w) (\<lambda>w'. sound F w' \<and> sv_fd (w_server w') = sv_fd (w_server w))"
  using assms
proof (induction evs arbitrary: w)
  case (Cons ev evs)
  show ?case unfolding handle_events.simps
  proof (rule ensures_then [OF handle_event_step [OF Cons.prems]], clarify)
    fix gone w1 assume "sound F w1" "clear_pointer gone evs = evs" "reported evs (dom (w_clients w1))"
      and fd: "sv_fd (w_server w1) = sv_fd (w_server w)"
    then show "ensures (handle_events (clear_pointer gone evs) w1) (\<lambda>w'. sound F w' \<and> sv_fd (w_server w') = sv_fd (w_server w))"
      using Cons.IH [of w1] by simp
  qed
qed simp

text \<open>What the kernel and the clients do between two rounds: new input, new connections, a later
  clock, another behaviour of the sockets.  No allocation fails.\<close>

definition kernel_input ::
  "recv_result list \<Rightarrow> accept_result list \<Rightarrow> timer_result list \<Rightarrow> bool list \<Rightarrow> int \<Rightarrow> send_result list \<Rightarrow> world \<Rightarrow> world" where
  "kernel_input recvs accepts timers ctls now sends w =
     w\<lparr>w_recvs := recvs, w_accepts := accepts, w_timers := timers, w_ctls := ctls,
       w_env := (w_env w)\<lparr>env_clock := [], env_now := now, env_sends := sends\<rparr>\<rparr>"

lemma kernel_input_sound:
  assumes "sound F w" and "reading_ok now"
  shows "sound F (kernel_input recvs accepts timers ctls now sends w)"
    and "w_clients (kernel_input recvs accepts timers ctls now sends w) = w_clients w"
proof -
  have "db_ok (w\<lparr>w_env := (w_env w)\<lparr>env_clock := [], env_now := now, env_sends := sends\<rparr>\<rparr>)"
    using assms by (auto simp: sound_def world_inv_def db_ok_def clock_ok_def split: option.splits)
  then show "sound F (kernel_input recvs accepts timers ctls now sends w)"
    using assms(1) by (auto simp: sound_def world_inv_def kernel_input_def w_safe_def conns_def db_ok_def strays_def fds_of_def split: option.splits)
qed (simp add: kernel_input_def)

inductive epoll_reach :: "world \<Rightarrow> world \<Rightarrow> bool" for w0 where
  start: "epoll_reach w0 w0"
| round: "epoll_reach w0 w \<Longrightarrow> reported evs (set (w_watch w)) \<Longrightarrow> reading_ok now
    \<Longrightarrow> handle_events evs (kernel_input recvs accepts timers ctls now sends w) = Inr w' \<Longrightarrow> epoll_reach w0 w'"

lemma round_ensures:
  assumes "sound F w" and "reported evs (set (w_watch w))" and "reading_ok now"
  shows "ensures (handle_events evs (kernel_input recvs accepts timers ctls now sends w)) (sound F)"
proof -
  have "reported evs (dom (w_clients w))" using assms(1,2) by (simp add: sound_def)
  then show ?thesis
    using kernel_input_sound [OF assms(1,3)] by (intro ensures_mono [OF handle_events_step [of F]]) auto
qed

lemma epoll_reach_sound: "epoll_reach w0 w \<Longrightarrow> sound F w0 \<Longrightarrow> sound F w"
proof (induction rule: epoll_reach.induct)
  case (round w evs now recvs accepts timers ctls sends w')
  then show ?case using round_ensures [of F w evs now recvs accepts timers ctls sends] by simp
qed simp

text \<open>C6: The epoll loop never touches a freed client.  After any number of rounds, with any
  events, input, new connections, partial writes and failing registrations, the invariant
  of the server holds: the list, the allocated clients, the open sockets and the watched
  pointers agree, the number of clients is within the limit, and no descriptor has leaked
  or was closed too often: beside those of the clients, the same ones are open as at the start.  From there no batch of
  events that the kernel may report leads to an access through an invalid pointer, as long
  as memory can be allocated.\<close>

theorem epoll_loop_memory_safe:
  assumes "world_inv w0" and "w_safe w0" and "set (w_watch w0) = dom (w_clients w0)"
    and "epoll_reach w0 w" and "reported evs (set (w_watch w))" and "reading_ok now"
  shows "world_inv w \<and> set (w_watch w) = dom (w_clients w) \<and> strays w = strays w0
    \<and> handle_events evs (kernel_input recvs accepts timers ctls now sends w) \<noteq> Inl Invalid_pointer"
proof -
  have s: "sound (strays w0) w" using epoll_reach_sound [OF assms(4), of "strays w0"] assms(1-3) by (simp add: sound_def)
  from round_ensures [OF s assms(5,6), of recvs accepts timers ctls sends] show ?thesis using s
    by (cases "handle_events evs (kernel_input recvs accepts timers ctls now sends w)") (auto simp: sound_def)
qed

theorem epoll_loop_memory_safe_witness:
  "handle_events [\<lparr>ev_data = Ev_client (Some 7), ev_in = True, ev_out = False, ev_hup = False\<rparr>,
      \<lparr>ev_data = Ev_listen, ev_in = True, ev_out = False, ev_hup = False\<rparr>]
    (kernel_input [Recv_data [0, 1, 8], Recv_eof] [Accept_new] [] [] 1000 [] one_client) \<noteq> Inl Invalid_pointer"
proof -
  have w: "w_safe one_client" "set (w_watch one_client) = dom (w_clients one_client)"
    by (simp_all add: w_safe_def one_client_def)
  have "reported [\<lparr>ev_data = Ev_client (Some 7), ev_in = True, ev_out = False, ev_hup = False\<rparr>,
      \<lparr>ev_data = Ev_listen, ev_in = True, ev_out = False, ev_hup = False\<rparr>] (set (w_watch one_client))"
    by (auto simp: reported_def one_client_def)
  moreover have "reading_ok 1000" by (simp add: reading_ok_def)
  ultimately show ?thesis using epoll_loop_memory_safe [OF one_client_inv w epoll_reach.start] by blast
qed

section \<open>When memory runs out\<close>

text \<open>C35: A connection for which the list node cannot be allocated costs all others: the result
  NULL of \<open>listAddNodeToTail\<close> replaces \<open>server.clients\<close>.  Every connected client stays
  allocated and counted but is in no list any more.\<close>

theorem epoll_out_of_memory_loses_clients:
  assumes "world_inv w" and "fkvs_server_can_accept_client (w_server w)" and "env_allocs (w_env w) = [True, True, False]"
    and "w_ctls w = []"
  shows "\<exists>w'. accept_one w = Inr w' \<and> w_list w' = None \<and> dom (w_clients w) \<subset> dom (w_clients w')
    \<and> sv_num_clients (w_server w') = sv_num_clients (w_server w) + 1"
proof -
  obtain ns l where ns: "conns w ns" and l: "w_list w = Some l" using assms(1) by (auto simp: world_inv_def conns_def)
  obtain e where e: "env_alloc (w_env w) = (True, e)" "env_allocs e = [True, False]"
    using assms(3) by (simp add: env_alloc_def)
  obtain e' where e': "env_alloc e = (True, e')" "\<not> fst (env_alloc e')"
    using e(2) by (simp add: env_alloc_def)
  have new: "w_next w \<notin> dom (w_clients w)" using ns by (auto simp: conns_def)
  obtain c where i: "init_client (lowest_fd (w_open w)) (w_env w) = (Some c, e')"
    using e(1) e'(1) by (simp add: init_client_def)
  show ?thesis
    using assms(2,4) l i e'(2) new
    by (auto simp: accept_one_def open_fd_def reject_if_server_at_capacity_def new_client_def add_client_def next_ctl_def
        add_fails(2) Let_def)
qed

theorem epoll_out_of_memory_loses_clients_witness:
  "\<exists>w'. accept_one (one_client\<lparr>w_env := quiet_env\<lparr>env_allocs := [True, True, False]\<rparr>\<rparr>) = Inr w' \<and> w_list w' = None"
proof -
  let ?w = "one_client\<lparr>w_env := quiet_env\<lparr>env_allocs := [True, True, False]\<rparr>\<rparr>"
  have "world_inv ?w" using one_client_inv
    by (auto simp: world_inv_def conns_def db_ok_def one_client_def clock_ok_def reading_ok_def)
  moreover have "fkvs_server_can_accept_client (w_server ?w)"
    by (simp add: fkvs_server_can_accept_client_def one_client_def idle_server_def)
  ultimately show ?thesis using epoll_out_of_memory_loses_clients [of ?w] by (auto simp: one_client_def)
qed

end
