(* ===== verification/Kqueue.thy ===== *)
theory Kqueue
  imports Epoll
begin

text \<open>
  \<open>src/io/event_dispatcher_kqueue.c\<close>: the event loop for macOS.  The kernel reports reads and
  writes of one client as two events, and an event whose client is gone is matched by its
  descriptor.  Proved: no batch of events reaches freed memory or closes a descriptor that
  belongs to another part of the server; an outdated event can hang up a new client.
\<close>

section \<open>Helpers\<close>

text \<open>The result of \<open>EV_DELETE\<close> is ignored.\<close>

definition kq_close_and_drop_client :: "addr \<Rightarrow> world \<Rightarrow> world outcome" where
  "kq_close_and_drop_client p w =
     and_then (client_at p w) (\<lambda>_. server_drop_client p (w\<lparr>w_watch := removeAll p (w_watch w)\<rparr>))"

text \<open>After a failure to deregister, the script tells whether the error is \<open>ENOENT\<close>.\<close>

definition kq_sync_client_write_interest :: "addr \<Rightarrow> world \<Rightarrow> (int \<times> world) outcome" where
  "kq_sync_client_write_interest p w =
     and_then (client_at p w) (\<lambda>c.
       let want_write = (length (cl_wbuf c) > 0) in
       if cl_write_registered c = want_write then Inr (0, w)
       else let (ok, w) = next_ctl w in
         if ok then Inr (0, put_client p (c\<lparr>cl_write_registered := want_write\<rparr>) w)
         else if \<not> want_write
         then let (enoent, w) = next_ctl w in
           if enoent then Inr (0, put_client p (c\<lparr>cl_write_registered := False\<rparr>) w) else Inr (-1, w)
         else Inr (-1, w))"

section \<open>Events\<close>

datatype kq_filter = EVFILT_READ | EVFILT_WRITE | EVFILT_TIMER

record kevent =
  ke_ident :: int
  ke_filter :: kq_filter
  ke_eof :: bool
  ke_udata :: "addr option"

definition kq_accept_one :: "world \<Rightarrow> world outcome" where
  "kq_accept_one w =
     (let (cfd, w) = open_fd w;
          (rejected, w) = reject_if_server_at_capacity cfd w
      in if rejected then Inr w
         else case new_client cfd w of
             (None, w) \<Rightarrow> Inr w
           | (Some p, w) \<Rightarrow>
               and_then (add_client p w) (\<lambda>w.
                 let srv = w_server w;
                     w = w\<lparr>w_server := srv\<lparr>sv_num_clients := sv_num_clients srv + 1\<rparr>\<rparr>;
                     (ok, w) = next_ctl w;
                     w = w\<lparr>w_watch := (if ok then p # w_watch w else w_watch w)\<rparr>
                 in if ok then Inr w else kq_close_and_drop_client p w))"

fun kq_accept_loop :: "accept_result list \<Rightarrow> world \<Rightarrow> world outcome" where
  "kq_accept_loop [] w = Inr w"
| "kq_accept_loop (r # rs) w =
     (case r of
        Accept_new \<Rightarrow> and_then (kq_accept_one (w\<lparr>w_accepts := rs\<rparr>)) (kq_accept_loop rs)
      | _ \<Rightarrow> Inr (w\<lparr>w_accepts := rs\<rparr>))"

text \<open>The client with a descriptor, for an event without a pointer.\<close>

definition kq_find_client :: "int \<Rightarrow> world \<Rightarrow> addr option outcome" where
  "kq_find_client fd w =
     and_then (need Invalid_pointer (w_list w)) (\<lambda>l.
     and_then (need Invalid_pointer (listFindNodeByFd (\<lambda>p. map_option cl_fd (w_clients w p)) l fd (w_nodes w))) (\<lambda>node.
       case node of
         None \<Rightarrow> Inr None
       | Some n \<Rightarrow> and_then (need Invalid_pointer (nh_cells (w_nodes w) n)) (\<lambda>cell. Inr (Some (ln_val cell)))))"

definition kq_client_event :: "kevent \<Rightarrow> addr \<Rightarrow> world \<Rightarrow> (addr option \<times> world) outcome" where
  "kq_client_event ev p w =
     (if ke_filter ev = EVFILT_WRITE
      then and_then
          (and_then (flush_client p w) (\<lambda>w.
             and_then (client_at p w) (\<lambda>c.
               if cl_write_failed c then and_then (kq_close_and_drop_client p w) (\<lambda>w. Inr (True, w))
               else and_then (kq_sync_client_write_interest p w) (\<lambda>(status, w).
                 if status = -1 then and_then (kq_close_and_drop_client p w) (\<lambda>w. Inr (True, w)) else Inr (False, w)))))
          (\<lambda>(gone, w). Inr (if gone then Some p else None, w))
      else if ke_eof ev then and_then (kq_close_and_drop_client p w) (\<lambda>w. Inr (Some p, w))
      else and_then (drain_loop kq_sync_client_write_interest kq_close_and_drop_client (w_recvs w) p w)
             (\<lambda>(gone, w). Inr (if gone then Some p else None, w)))"

text \<open>One event.  The first result is the client that was dropped.\<close>

definition kq_handle_event :: "kevent \<Rightarrow> world \<Rightarrow> (addr option \<times> world) outcome" where
  "kq_handle_event ev w =
     (if ke_filter ev = EVFILT_TIMER then and_then (sweep w) (\<lambda>w. Inr (None, w))
      else if ke_ident ev = sv_fd (w_server w)
      then and_then (kq_accept_loop (w_accepts w) w) (\<lambda>w. Inr (None, w))
      else and_then (case ke_udata ev of Some p \<Rightarrow> Inr (Some p) | None \<Rightarrow> kq_find_client (ke_ident ev) w) (\<lambda>po.
        case po of
          None \<Rightarrow> Inr (None, close_fd (ke_ident ev) w)
        | Some p \<Rightarrow> kq_client_event ev p w))"

definition kq_clear_pointer :: "addr option \<Rightarrow> kevent list \<Rightarrow> kevent list" where
  "kq_clear_pointer gone evs = (case gone of
       None \<Rightarrow> evs
     | Some p \<Rightarrow> map (\<lambda>ev. if ke_udata ev = Some p then ev\<lparr>ke_udata := None\<rparr> else ev) evs)"

function kq_handle_events :: "kevent list \<Rightarrow> world \<Rightarrow> world outcome" where
  "kq_handle_events [] w = Inr w"
| "kq_handle_events (ev # evs) w =
     and_then (kq_handle_event ev w) (\<lambda>(gone, w). kq_handle_events (kq_clear_pointer gone evs) w)"
  by pat_completeness auto

termination
  by (relation "measure (\<lambda>(evs, w). length evs)") (auto simp: kq_clear_pointer_def split: option.splits)

section \<open>The loop\<close>

datatype kq_wait_result = Kq_events "kevent list" | Kq_intr | Kq_error

fun kq_rounds :: "(bool \<times> kq_wait_result) list \<Rightarrow> world \<Rightarrow> world outcome" where
  "kq_rounds [] w = Inr w"
| "kq_rounds ((signal, r) # rs) w =
     (if server_shutdown_requested w then Inr w
      else let w = (if signal then request_server_shutdown w else w) in
        case r of
          Kq_events evs \<Rightarrow> and_then (kq_handle_events evs w) (kq_rounds rs)
        | Kq_intr \<Rightarrow> if server_shutdown_requested w then Inr w else kq_rounds rs w
        | Kq_error \<Rightarrow> Inr w)"

text \<open>\<open>create\<close> and \<open>add\<close> tell whether the queue and the registration of the listening socket
  succeed; the loop goes on without a timer.\<close>

definition kq_run_event_loop :: "bool \<Rightarrow> bool \<Rightarrow> (bool \<times> kq_wait_result) list \<Rightarrow> world \<Rightarrow> (int \<times> world) outcome" where
  "kq_run_event_loop create add rounds w =
     (if \<not> create then Inr (-1, w)
      else let (kq, w) = open_fd w in
        if \<not> add then Inr (-1, close_fd kq w)
        else and_then (kq_rounds rounds w) (\<lambda>w. Inr (0, close_fd kq w)))"

section \<open>Steps keep the invariant\<close>

text \<open>Dropping and accepting are the routines of the epoll loop.\<close>

lemma kq_drop_same: "kq_close_and_drop_client = close_and_drop_client"
  by (simp add: fun_eq_iff kq_close_and_drop_client_def close_and_drop_client_def)

lemma kq_accept_same: "kq_accept_one = accept_one"
  unfolding fun_eq_iff kq_accept_one_def accept_one_def kq_drop_same by simp

lemma kq_accept_loop_same: "kq_accept_loop rs w = accept_loop rs w"
proof (induction rs arbitrary: w)
  case (Cons r rs)
  then have "kq_accept_loop rs = accept_loop rs" by (simp add: fun_eq_iff)
  then show ?case by (cases r) (simp_all add: kq_accept_same)
qed simp

lemma kq_sync_step:
  assumes "world_inv w" and "p \<in> dom (w_clients w)"
  shows "ensures (kq_sync_client_write_interest p w) (\<lambda>(_, w'). client_step p w False w')"
proof -
  obtain c where c: "w_clients w p = Some c" using assms(2) by auto
  obtain ok w1 where n1: "next_ctl w = (ok, w1)" by (meson surj_pair)
  obtain enoent w2 where n2: "next_ctl w1 = (enoent, w2)" by (meson surj_pair)
  note s1 = epoll_ctl_step [OF assms(1) n1]
  have i1: "world_inv w1" "w_clients w1 p = Some c" using s1(1) [of p] s1(2) c by (simp_all add: client_step_def)
  note s2 = epoll_ctl_step [OF i1(1) n2]
  have i2: "world_inv w2" "w_clients w2 p = Some c" using s2(1) [of p] s2(2) i1 by (simp_all add: client_step_def)
  have t2: "client_step p w False w2" using client_step_trans [OF s1(1) s2(1)] .
  have ci: "client_inv (c\<lparr>cl_write_registered := b\<rparr>)" for b using world_inv_client [OF assms(1) c] by (simp add: client_inv_def)
  have p1: "client_step p w False (put_client p (c\<lparr>cl_write_registered := b\<rparr>) w1)" for b
    using client_step_trans [OF s1(1) put_client_step [OF i1 ci]] by simp
  have p2: "client_step p w False (put_client p (c\<lparr>cl_write_registered := b\<rparr>) w2)" for b
    using client_step_trans [OF t2 put_client_step [OF i2 ci]] by simp
  show ?thesis using c n1 n2 s1(1) [of p] t2 p1 p2 client_step_refl [OF assms(1)]
    by (simp add: kq_sync_client_write_interest_def client_at_def Let_def)
qed

interpretation kqueue_io: event_backend kq_sync_client_write_interest kq_close_and_drop_client
  by unfold_locales (fact kq_sync_step, simp only: kq_drop_same close_and_drop_step)

lemma kq_client_event_step:
  assumes "world_inv w" and "p \<in> dom (w_clients w)"
  shows "ensures (kq_client_event ev p w) (\<lambda>(gone, w'). (gone = None \<or> gone = Some p) \<and> client_step p w (gone = Some p) w')"
proof -
  have "ensures (and_then (kq_close_and_drop_client p w) (\<lambda>w. Inr (Some p, w)))
      (\<lambda>(gone, w'). (gone = None \<or> gone = Some p) \<and> client_step p w (gone = Some p) w')"
    by (rule ensures_then [OF kqueue_io.drop_c_step [OF assms]]) simp
  moreover have "ensures (and_then
          (and_then (flush_client p w) (\<lambda>w.
             and_then (client_at p w) (\<lambda>c.
               if cl_write_failed c then and_then (kq_close_and_drop_client p w) (\<lambda>w. Inr (True, w))
               else and_then (kq_sync_client_write_interest p w) (\<lambda>(status, w).
                 if status = -1 then and_then (kq_close_and_drop_client p w) (\<lambda>w. Inr (True, w)) else Inr (False, w)))))
          (\<lambda>(gone, w). Inr (if gone then Some p else None, w)))
      (\<lambda>(gone, w'). (gone = None \<or> gone = Some p) \<and> client_step p w (gone = Some p) w')"
    by (rule ensures_then [OF kqueue_io.write_step [OF assms]]) auto
  ultimately show ?thesis using kqueue_io.drain_result [OF client_step_refl [OF assms(1)] assms(2), of "w_recvs w"]
    by (simp add: kq_client_event_def)
qed

lemma dseg_cell: "dseg h q ns r \<Longrightarrow> (n, v) \<in> set ns \<Longrightarrow> \<exists>cell. h n = Some cell \<and> ln_val cell = v"
  by (induction h q ns r rule: dseg.induct) auto

lemma kq_find_ok:
  assumes "world_inv w"
  shows "(kq_find_client fd w = Inr None \<and> (\<forall>p. map_option cl_fd (w_clients w p) \<noteq> Some fd))
    \<or> (\<exists>p. kq_find_client fd w = Inr (Some p) \<and> map_option cl_fd (w_clients w p) = Some fd)"
proof -
  let ?fds = "\<lambda>p. map_option cl_fd (w_clients w p)"
  from assms obtain ns l where ns: "conns w ns" "w_list w = Some l" "list_rep (w_nodes w) l ns"
    by (auto simp: world_inv_def conns_def)
  have d: "dom (w_clients w) = snd ` set ns" using ns(1) by (simp add: conns_def)
  then have f: "listFindNodeByFd ?fds l fd (w_nodes w) = Some (map_option fst (find (\<lambda>xv. ?fds (snd xv) = Some fd) ns))"
    by (intro listFindNodeByFd_rep [OF ns(3)]) auto
  show ?thesis
  proof (cases "find (\<lambda>xv. ?fds (snd xv) = Some fd) ns")
    case None
    have "?fds p \<noteq> Some fd" if "p \<in> snd ` set ns" for p
      using that None unfolding find_None_iff by (metis image_iff)
    moreover have "?fds p \<noteq> Some fd" if "p \<notin> snd ` set ns" for p using that d by (auto simp: domIff)
    ultimately have "\<forall>p. ?fds p \<noteq> Some fd" by blast
    then show ?thesis using None f ns(2) by (simp add: kq_find_client_def)
  next
    case (Some xv)
    then have "xv \<in> set ns" "?fds (snd xv) = Some fd" unfolding find_Some_iff by (metis nth_mem)+
    then obtain n p where xv: "xv = (n, p)" "(n, p) \<in> set ns" "?fds p = Some fd" by (metis prod.collapse)
    then obtain cell where "nh_cells (w_nodes w) n = Some cell" "ln_val cell = p"
      using dseg_cell [OF _ xv(2)] ns(3) unfolding list_rep_def by blast
    then show ?thesis using Some f ns(2) xv by (auto simp: kq_find_client_def)
  qed
qed

section \<open>Any number of rounds\<close>

text \<open>
  What \<open>kevent\<close> may report: the timer, the listening socket and registered clients, with the
  descriptor and the pointer they were registered with, in any order and number.
\<close>

definition kq_reported :: "kevent list \<Rightarrow> world \<Rightarrow> bool" where
  "kq_reported evs w \<longleftrightarrow> (\<forall>ev \<in> set evs. ke_filter ev = EVFILT_TIMER \<or> ke_ident ev = sv_fd (w_server w)
     \<or> (\<exists>p c. ke_udata ev = Some p \<and> p \<in> set (w_watch w) \<and> w_clients w p = Some c \<and> ke_ident ev = cl_fd c))"

text \<open>What is left of it while the batch is handled.  \<open>F\<close> holds the descriptors of other parts.\<close>

definition kq_live :: "int set \<Rightarrow> kevent list \<Rightarrow> world \<Rightarrow> bool" where
  "kq_live F evs w \<longleftrightarrow> (\<forall>ev \<in> set evs. ke_filter ev = EVFILT_TIMER \<or> ke_ident ev = sv_fd (w_server w)
     \<or> (ke_ident ev \<notin> F \<and> (\<forall>p. ke_udata ev = Some p \<longrightarrow> p \<in> dom (w_clients w))))"

lemma kq_live_mono: "kq_live F evs w \<Longrightarrow> more_clients w w' \<Longrightarrow> kq_live F evs w'"
  unfolding kq_live_def more_clients_def by (metis subsetD)

lemma kq_live_step:
  assumes "kq_live F evs w" and "client_step p w (gone = Some p) w'" and "gone = None \<or> gone = Some p"
  shows "kq_live F (kq_clear_pointer gone evs) w'"
  using assms by (auto simp: kq_live_def kq_clear_pointer_def client_step_def)

lemma kq_handle_event_step:
  assumes "sound F w" and "kq_live F (ev # evs) w"
  shows "ensures (kq_handle_event ev w) (\<lambda>(gone, w'). sound F w' \<and> sv_fd (w_server w') = sv_fd (w_server w)
    \<and> kq_live F (kq_clear_pointer gone evs) w')" (is "ensures _ ?P")
proof -
  have inv: "world_inv w" and st: "strays w = F" using assms(1) by (simp_all add: sound_def)
  have live: "kq_live F evs w" using assms(2) by (simp add: kq_live_def)
  have keep: "kq_clear_pointer None evs = evs" by (simp add: kq_clear_pointer_def)
  have client: "ensures (kq_client_event ev p w) ?P" if "p \<in> dom (w_clients w)" for p
  proof (rule ensures_mono [OF kq_client_event_step [OF inv that]], clarify)
    fix gone w1 assume "gone = None \<or> gone = Some p" "client_step p w (gone = Some p) w1"
    then show "sound F w1 \<and> sv_fd (w_server w1) = sv_fd (w_server w) \<and> kq_live F (kq_clear_pointer gone evs) w1"
      using sound_client_step [OF assms(1)] kq_live_step [OF live] by (intro conjI) (blast | simp add: client_step_def)+
  qed
  consider "ke_filter ev = EVFILT_TIMER" | "ke_filter ev \<noteq> EVFILT_TIMER" "ke_ident ev = sv_fd (w_server w)"
    | p where "ke_filter ev \<noteq> EVFILT_TIMER" "ke_ident ev \<noteq> sv_fd (w_server w)" "ke_udata ev = Some p" "p \<in> dom (w_clients w)"
    | "ke_filter ev \<noteq> EVFILT_TIMER" "ke_ident ev \<noteq> sv_fd (w_server w)" "ke_udata ev = None" "ke_ident ev \<notin> F"
    using assms(2) by (cases "ke_udata ev") (auto simp: kq_live_def)
  then show ?thesis
  proof cases
    case 1
    have "ensures (and_then (sweep w) (\<lambda>w. Inr (None, w))) ?P"
    proof (rule ensures_then [OF sweep_step [OF inv, of 0]])
      fix w1 assume s: "client_step 0 w False w1 \<and> w_clients w1 = w_clients w"
      then have "sound F w1" using sound_client_step [OF assms(1)] by blast
      moreover have m: "more_clients w w1" using s by (simp add: client_step_def more_clients_def)
      ultimately show "ensures (Inr (None, w1)) ?P" using kq_live_mono [OF live m] keep by (simp add: more_clients_def)
    qed
    then show ?thesis using 1 by (simp add: kq_handle_event_def)
  next
    case 2
    have "ensures (and_then (accept_loop (w_accepts w) w) (\<lambda>w. Inr (None, w))) ?P"
      by (rule ensures_then [OF accept_loop_step [OF assms(1)]])
        (use kq_live_mono [OF live] keep in \<open>auto simp: more_clients_def\<close>)
    then show ?thesis using 2 by (simp add: kq_handle_event_def kq_accept_loop_same)
  next
    case 3
    then show ?thesis using client by (simp add: kq_handle_event_def)
  next
    case 4
    from kq_find_ok [OF inv, of "ke_ident ev"] show ?thesis
    proof
      assume f: "kq_find_client (ke_ident ev) w = Inr None \<and> (\<forall>p. map_option cl_fd (w_clients w p) \<noteq> Some (ke_ident ev))"
      then have "ke_ident ev \<notin> set (w_open w)" using st 4(4) strays_iff [of "ke_ident ev" w] by blast
      then have "close_fd (ke_ident ev) w = w" by (simp add: close_fd_def remove1_idem)
      then show ?thesis using f 4 assms(1) live keep by (simp add: kq_handle_event_def)
    next
      assume "\<exists>p. kq_find_client (ke_ident ev) w = Inr (Some p) \<and> map_option cl_fd (w_clients w p) = Some (ke_ident ev)"
      then obtain p where "kq_find_client (ke_ident ev) w = Inr (Some p)" "p \<in> dom (w_clients w)" by auto
      then show ?thesis using 4 client by (simp add: kq_handle_event_def)
    qed
  qed
qed

lemma kq_handle_events_step:
  assumes "sound F w" and "kq_live F evs w"
  shows "ensures (kq_handle_events evs w) (\<lambda>w'. sound F w' \<and> sv_fd (w_server w') = sv_fd (w_server w))"
  using assms
proof (induction evs w rule: kq_handle_events.induct)
  case (2 ev evs w)
  show ?case unfolding kq_handle_events.simps
  proof (rule ensures_then [OF kq_handle_event_step [OF 2(2,3)]], clarify)
    fix gone w1 assume a: "sound F w1" "sv_fd (w_server w1) = sv_fd (w_server w)" "kq_live F (kq_clear_pointer gone evs) w1"
    show "ensures (kq_handle_events (kq_clear_pointer gone evs) w1) (\<lambda>w'. sound F w' \<and> sv_fd (w_server w') = sv_fd (w_server w))"
      using 2(1) [OF a(1,3)] a(2) by simp
  qed
qed simp

inductive kq_reach :: "world \<Rightarrow> world \<Rightarrow> bool" for w0 where
  start: "kq_reach w0 w0"
| round: "kq_reach w0 w \<Longrightarrow> kq_reported evs w \<Longrightarrow> reading_ok now
    \<Longrightarrow> kq_handle_events evs (kernel_input recvs accepts timers ctls now sends w) = Inr w' \<Longrightarrow> kq_reach w0 w'"

lemma kq_round_ensures:
  assumes "sound F w" and "kq_reported evs w" and "reading_ok now"
  shows "ensures (kq_handle_events evs (kernel_input recvs accepts timers ctls now sends w)) (sound F)"
proof -
  have s: "sound (strays w) w" "strays w = F" using assms(1) by (simp_all add: sound_def)
  let ?w = "kernel_input recvs accepts timers ctls now sends w"
  have "kq_live (strays w) evs ?w" using assms(2) unfolding kq_live_def kq_reported_def
    by (fastforce simp: kernel_input_def strays_iff)
  from kq_handle_events_step [OF kernel_input_sound(1) [OF s(1) assms(3)] this] show ?thesis
    by (rule ensures_mono) (use s(2) in \<open>auto simp: sound_def\<close>)
qed

lemma kq_reach_sound: "kq_reach w0 w \<Longrightarrow> sound F w0 \<Longrightarrow> sound F w"
proof (induction rule: kq_reach.induct)
  case (round w evs now recvs accepts timers ctls sends w')
  then show ?case using kq_round_ensures [of F w evs now recvs accepts timers ctls sends] by simp
qed simp

text \<open>C8: The kqueue loop never touches a freed client, although one batch may hold several
  events of one client and events whose client was dropped earlier in the batch.  After any
  number of rounds the invariant of the server holds and no descriptor has leaked, and from
  there no batch that the kernel may report leads to an access through an invalid pointer,
  as long as memory can be allocated.\<close>

theorem kqueue_loop_memory_safe:
  assumes "world_inv w0" and "w_safe w0" and "set (w_watch w0) = dom (w_clients w0)"
    and "kq_reach w0 w" and "kq_reported evs w" and "reading_ok now"
  shows "world_inv w \<and> set (w_watch w) = dom (w_clients w) \<and> strays w = strays w0
    \<and> kq_handle_events evs (kernel_input recvs accepts timers ctls now sends w) \<noteq> Inl Invalid_pointer"
proof -
  have s: "sound (strays w0) w" using kq_reach_sound [OF assms(4), of "strays w0"] assms(1-3) by (simp add: sound_def)
  from kq_round_ensures [OF s assms(5,6), of recvs accepts timers ctls sends] show ?thesis using s
    by (cases "kq_handle_events evs (kernel_input recvs accepts timers ctls now sends w)") (auto simp: sound_def)
qed

theorem kqueue_loop_memory_safe_witness:
  "kq_handle_events [\<lparr>ke_ident = 5, ke_filter = EVFILT_READ, ke_eof = False, ke_udata = Some 7\<rparr>,
      \<lparr>ke_ident = 3, ke_filter = EVFILT_READ, ke_eof = False, ke_udata = None\<rparr>,
      \<lparr>ke_ident = 5, ke_filter = EVFILT_WRITE, ke_eof = False, ke_udata = Some 7\<rparr>]
    (kernel_input [Recv_data [0, 1, 8], Recv_eof] [Accept_new] [] [] 1000 [] one_client) \<noteq> Inl Invalid_pointer"
proof -
  have w: "w_safe one_client" "set (w_watch one_client) = dom (w_clients one_client)"
    by (simp_all add: w_safe_def one_client_def)
  have "kq_reported [\<lparr>ke_ident = 5, ke_filter = EVFILT_READ, ke_eof = False, ke_udata = Some 7\<rparr>,
      \<lparr>ke_ident = 3, ke_filter = EVFILT_READ, ke_eof = False, ke_udata = None\<rparr>,
      \<lparr>ke_ident = 5, ke_filter = EVFILT_WRITE, ke_eof = False, ke_udata = Some 7\<rparr>] one_client"
    by (simp add: kq_reported_def one_client_def idle_server_def fresh_client_def)
  moreover have "reading_ok 1000" by (simp add: reading_ok_def)
  ultimately show ?thesis using kqueue_loop_memory_safe [OF one_client_inv w kq_reach.start] by blast
qed

section \<open>Outdated events\<close>

lemma lowest_fd_eq:
  assumes "0 \<le> fd" and "fd \<notin> set fds" and "\<forall>n. 0 \<le> n \<longrightarrow> n < fd \<longrightarrow> n \<in> set fds"
  shows "lowest_fd fds = fd"
proof -
  let ?n = "nat fd"
  have sub: "set (map int [0..<?n]) \<subseteq> set fds" using assms(1,3) by auto
  then have "card (set (map int [0..<?n])) \<le> card (set fds)" by (simp add: card_mono)
  moreover have "card (set (map int [0..<?n])) = ?n" by (subst distinct_card) (auto simp: distinct_map)
  ultimately have "?n \<le> length fds" using card_length [of fds] by simp
  then have "[0..<Suc (length fds)] = [0..<?n] @ ?n # [Suc ?n..<Suc (length fds)]"
    using upt_add_eq_append [of 0 ?n "Suc (length fds) - ?n"] upt_conv_Cons [of ?n "Suc (length fds)"] by simp
  moreover have "filter (\<lambda>n. n \<notin> set fds) (map int [0..<?n]) = []" using sub by (auto simp: filter_empty_conv)
  ultimately show ?thesis using assms(1,2) by (simp add: lowest_fd_def del: upt_Suc)
qed

text \<open>A write event on a broken connection drops its client.\<close>

lemma kq_broken_write:
  assumes "world_inv w" and "w_clients w p = Some c" and "cl_wbuf c \<noteq> []" and "\<not> cl_write_failed c"
    and "env_sends (w_env w) = Send_error # sends" and "ke_filter ev = EVFILT_WRITE"
  shows "\<exists>w'. kq_client_event ev p w = Inr (Some p, w') \<and> world_inv w' \<and> w_clients w' = (w_clients w)(p := None)
    \<and> w_open w' = remove1 (cl_fd c) (w_open w) \<and> w_next w' = w_next w \<and> w_accepts w' = w_accepts w \<and> w_ctls w' = w_ctls w
    \<and> w_server w' = dropped (w_server w) \<and> (w_safe w \<longrightarrow> w_safe w')"
proof -
  have p: "p \<in> dom (w_clients w)" using assms(2) by blast
  have "cl_wbuf_capacity c \<noteq> 0" using world_inv_client [OF assms(1,2)] assms(3) by (auto simp: client_inv_def)
  then obtain c1 e1 where f: "wbuf_flush c (w_env w) = (c1, e1)" "cl_write_failed c1" "cl_fd c1 = cl_fd c" "env_allocs e1 = env_allocs (w_env w)"
    using assms(3-5) by (simp add: wbuf_flush_def)
  define w1 where "w1 = put_client p c1 (w\<lparr>w_env := e1\<rparr>)"
  have fl: "flush_client p w = Inr w1" using assms(2) f(1) by (simp add: flush_client_def client_at_def w1_def)
  have i1: "world_inv w1" using flush_client_step [OF assms(1) p] fl by (simp add: client_step_def)
  have c1: "w_clients w1 p = Some c1" by (simp add: w1_def put_client_def)
  define w2 where "w2 = w1\<lparr>w_watch := removeAll p (w_watch w1)\<rparr>"
  from i1 obtain ns where ns: "conns w2 ns" "db_ok w2" unfolding w2_def
    by (auto simp: world_inv_def conns_def db_ok_def split: option.splits)
  have c2: "w_clients w2 p = Some c1" using c1 by (simp add: w2_def)
  from server_drop_ok [OF ns(1) c2] obtain as n bs l h where
    d: "server_drop_client p w2 = Inr (drop_world p c1 l h w2)" "conns (drop_world p c1 l h w2) (as @ bs)" by blast
  have "db_ok (drop_world p c1 l h w2)" using ns(2) db_ok_cong [of "drop_world p c1 l h w2" w2] by (simp add: drop_world_def)
  then have "world_inv (drop_world p c1 l h w2)" using d(2) by (auto simp: world_inv_def)
  moreover have "kq_client_event ev p w = Inr (Some p, drop_world p c1 l h w2)"
    using assms(6) fl c1 f(2) d(1) by (simp add: kq_client_event_def client_at_def kq_close_and_drop_client_def w2_def)
  ultimately show ?thesis using f(3,4)
    by (intro exI [of _ "drop_world p c1 l h w2"]) (simp add: drop_world_def w2_def w1_def put_client_def w_safe_def)
qed

text \<open>A connection that is accepted and registered.\<close>

lemma accept_one_ok:
  assumes "world_inv w" and "w_safe w" and "fkvs_server_can_accept_client (w_server w)" and "w_ctls w = []"
  shows "\<exists>w' c. accept_one w = Inr w' \<and> world_inv w' \<and> w_clients w' = (w_clients w)(w_next w \<mapsto> c) \<and> w_next w' = Suc (w_next w)
    \<and> cl_fd c = lowest_fd (w_open w) \<and> w_next w \<notin> dom (w_clients w) \<and> sv_fd (w_server w') = sv_fd (w_server w)"
proof -
  obtain cfd w1 where o: "open_fd w = (cfd, w1)" by (meson surj_pair)
  have w1: "w1 = w\<lparr>w_open := cfd # w_open w\<rparr>" "cfd = lowest_fd (w_open w)" using o by (auto simp: open_fd_def Let_def)
  obtain po w3 where n: "new_client cfd w1 = (po, w3)" by (meson surj_pair)
  then obtain p where po: "po = Some p" using no_client_step(4) [OF assms(1) o] assms(2) by (cases po) auto
  obtain c e where i: "init_client cfd (w_env w) = (Some c, e)" and p: "p = w_next w"
    and w3: "w3 = w1\<lparr>w_env := e, w_clients := (w_clients w)(w_next w \<mapsto> c), w_next := Suc (w_next w)\<rparr>"
    using n po w1 by (auto simp: new_client_def split: prod.splits option.splits)
  from assms(1) obtain l where "w_list w = Some l" by (auto simp: world_inv_def conns_def)
  then have l: "w_list w3 = Some l" by (simp add: w3 w1(1))
  have al: "fst (env_alloc (w_env w3))"
    using env_alloc_keeps(3) [of e] init_client_env(2) [OF i] assms(2) by (simp add: w3 w_safe_def)
  from new_client_listed [OF assms(1) o assms(3) n [unfolded po] l al] obtain l' h where
    a: "listAddNodeToTail l p (w_nodes w3) (w_env w3) = Some (True, l', h, snd (env_alloc (w_env w3)))"
    and i4: "world_inv (w3\<lparr>w_list := Some l', w_nodes := h, w_env := snd (env_alloc (w_env w3)),
              w_server := (w_server w3)\<lparr>sv_num_clients := sv_num_clients (w_server w3) + 1\<rparr>\<rparr>)" "p \<notin> dom (w_clients w)"
    by (auto simp: Let_def)
  let ?w = "w3\<lparr>w_list := Some l', w_nodes := h, w_env := snd (env_alloc (w_env w3)),
              w_server := (w_server w3)\<lparr>sv_num_clients := sv_num_clients (w_server w3) + 1\<rparr>\<rparr>"
  have "accept_one w = Inr (?w\<lparr>w_watch := p # w_watch w3\<rparr>)"
    using assms(3,4) o n po l a by (simp add: accept_one_def reject_if_server_at_capacity_def add_client_def next_ctl_def w1(1) w3 Let_def)
  then show ?thesis using i4 p init_client_ok(2) [OF i] lowest_fd_free(2) w1(2)
    by (intro exI [of _ "?w\<lparr>w_watch := p # w_watch w3\<rparr>"] exI [of _ c]) (simp add: w3 w1(1))
qed

text \<open>C37: An outdated event can hang up a client that has just connected.  A broken connection is
  reported as a write event and as a read event with \<open>EV_EOF\<close>.  The write event drops the
  client and clears the pointer of the read event; a connection that is accepted between
  the two gets the descriptor that has become free; the read event then finds the new
  client by this descriptor and drops it.\<close>

theorem kqueue_stale_event_drops_new_client:
  assumes "world_inv w" and "w_safe w" and "w_clients w p = Some c" and "cl_wbuf c \<noteq> []" and "\<not> cl_write_failed c"
    and "env_sends (w_env w) = Send_error # sends" and "w_accepts w = [Accept_new]" and "w_ctls w = []"
    and "\<forall>n. 0 \<le> n \<longrightarrow> n < cl_fd c \<longrightarrow> n \<in> set (w_open w)"
  shows "\<exists>w'. kq_handle_events
      [\<lparr>ke_ident = cl_fd c, ke_filter = EVFILT_WRITE, ke_eof = True, ke_udata = Some p\<rparr>,
       \<lparr>ke_ident = sv_fd (w_server w), ke_filter = EVFILT_READ, ke_eof = False, ke_udata = None\<rparr>,
       \<lparr>ke_ident = cl_fd c, ke_filter = EVFILT_READ, ke_eof = True, ke_udata = Some p\<rparr>] w = Inr w'
    \<and> w_next w' = Suc (w_next w) \<and> w_clients w' = (w_clients w)(p := None)"
proof -
  let ?read = "\<lparr>ke_ident = cl_fd c, ke_filter = EVFILT_READ, ke_eof = True, ke_udata = None\<rparr>"
  obtain ns where ns: "conns w ns" using assms(1) by (auto simp: world_inv_def)
  have fd: "cl_fd c \<noteq> sv_fd (w_server w)" "0 \<le> cl_fd c" "distinct (w_open w)" using ns assms(3) by (auto simp: conns_def)
  obtain w1 where w1: "kq_client_event \<lparr>ke_ident = cl_fd c, ke_filter = EVFILT_WRITE, ke_eof = True, ke_udata = Some p\<rparr> p w = Inr (Some p, w1)"
    "world_inv w1" "w_clients w1 = (w_clients w)(p := None)" "w_open w1 = remove1 (cl_fd c) (w_open w)" "w_next w1 = w_next w"
    "w_accepts w1 = w_accepts w" "w_ctls w1 = w_ctls w" "w_server w1 = dropped (w_server w)" "w_safe w1"
    using kq_broken_write [OF assms(1,3-6), of "\<lparr>ke_ident = cl_fd c, ke_filter = EVFILT_WRITE, ke_eof = True, ke_udata = Some p\<rparr>"] assms(2)
    by auto
  have low: "lowest_fd (w_open w1) = cl_fd c" using fd assms(9) by (intro lowest_fd_eq) (auto simp: w1(4) in_set_remove1)
  have can: "fkvs_server_can_accept_client (w_server w1)"
  proof -
    have "unat (sv_num_clients (w_server w)) = length ns" "length ns > 0" "sv_num_clients (w_server w) \<le> sv_max_clients (w_server w)"
      using ns assms(3) by (auto simp: conns_def)
    moreover from this have "sv_num_clients (w_server w) \<noteq> 0" by auto
    ultimately have "unat (sv_num_clients (w_server w) - 1) < unat (sv_max_clients (w_server w))"
      by (cases ns) (simp_all add: unat_minus_one word_le_nat_alt)
    then show ?thesis using gr_zeroI [of "unat (sv_max_clients (w_server w))"] by (auto simp: fkvs_server_can_accept_client_def w1(8) word_less_nat_alt)
  qed
  from w1(2,9) can w1(7) assms(8) obtain w2 d where
    w2: "accept_one (w1\<lparr>w_accepts := []\<rparr>) = Inr w2" "world_inv w2" "w_clients w2 = (w_clients w1)(w_next w1 \<mapsto> d)"
      "w_next w2 = Suc (w_next w1)" "cl_fd d = cl_fd c" "w_next w1 \<notin> dom (w_clients w1)" "sv_fd (w_server w2) = sv_fd (w_server w1)"
    using accept_one_ok [of "w1\<lparr>w_accepts := []\<rparr>"] low by (auto simp: w_safe_def)
  let ?q = "w_next w1"
  have q: "w_clients w2 ?q = Some d" by (simp add: w2(3))
  obtain ns2 where ns2: "conns w2 ns2" using w2(2) by (auto simp: world_inv_def)
  have "kq_find_client (cl_fd c) w2 = Inr (Some ?q)"
    using kq_find_ok [OF w2(2), of "cl_fd c"] q w2(5) ns2 unfolding conns_def by (auto dest: spec [of _ ?q])
  moreover have "conns (w2\<lparr>w_watch := removeAll ?q (w_watch w2)\<rparr>) ns2" using ns2 by (simp add: conns_def)
  from server_drop_ok [OF this, of ?q d] q obtain l h where
    "server_drop_client ?q (w2\<lparr>w_watch := removeAll ?q (w_watch w2)\<rparr>) = Inr (drop_world ?q d l h (w2\<lparr>w_watch := removeAll ?q (w_watch w2)\<rparr>))"
    by auto
  moreover have "(w_clients w2)(?q := None) = (w_clients w)(p := None)" using w2(3,6) w1(3) by (auto simp: fun_eq_iff domIff)
  ultimately show ?thesis using w1(1,5,6,8) w2(1,4,7) fd(1) q assms(7)
    by (simp add: kq_handle_event_def kq_clear_pointer_def kq_accept_loop_same kq_client_event_def kq_close_and_drop_client_def
        client_at_def drop_world_def)
qed

theorem kqueue_stale_event_drops_new_client_witness:
  "\<exists>w'. kq_handle_events
      [\<lparr>ke_ident = 5, ke_filter = EVFILT_WRITE, ke_eof = True, ke_udata = Some 7\<rparr>,
       \<lparr>ke_ident = 3, ke_filter = EVFILT_READ, ke_eof = False, ke_udata = None\<rparr>,
       \<lparr>ke_ident = 5, ke_filter = EVFILT_READ, ke_eof = True, ke_udata = Some 7\<rparr>]
      (one_client\<lparr>w_clients := [7 \<mapsto> fresh_client\<lparr>cl_wbuf := [1]\<rparr>], w_accepts := [Accept_new],
         w_env := quiet_env\<lparr>env_sends := [Send_error]\<rparr>\<rparr>) = Inr w'
    \<and> w_next w' = 9 \<and> w_clients w' = Map.empty"
proof -
  let ?c = "fresh_client\<lparr>cl_wbuf := [1]\<rparr>"
  let ?w = "one_client\<lparr>w_clients := [7 \<mapsto> ?c], w_accepts := [Accept_new], w_env := quiet_env\<lparr>env_sends := [Send_error]\<rparr>\<rparr>"
  have c: "client_inv ?c" by (simp add: client_inv_def fresh_client_def)
  have "conns ?w [(0, 7)]" using c
    by (auto simp: conns_def one_client_def list_rep_def idle_server_def fresh_client_def split: if_splits)
  moreover have "db_ok ?w" using one_client_inv
    by (auto simp: world_inv_def db_ok_def one_client_def clock_ok_def)
  ultimately have "world_inv ?w" by (auto simp: world_inv_def)
  moreover have "\<forall>n. 0 \<le> n \<longrightarrow> n < cl_fd ?c \<longrightarrow> n \<in> set (w_open ?w)" by (auto simp: one_client_def fresh_client_def)
  ultimately show ?thesis
    using kqueue_stale_event_drops_new_client [of ?w 7 ?c "[]"]
    by (simp add: one_client_def fresh_client_def idle_server_def w_safe_def)
qed

end
