(* ===== verification/Io_Uring.thy ===== *)
theory Io_Uring
  imports Event_Loop
begin

text \<open>
  \<open>src/io/event_dispatcher_io_uring.c\<close>: the event loop on io_uring, which polls for
  readiness with one-shot operations.  Proved, for any behaviour of the allocator, the
  kernel and the clients: while the loop runs, every connected client has exactly one
  outstanding operation and no operation names a client that is gone.
\<close>

section \<open>Operations\<close>

datatype uring_op_kind = URING_ACCEPT_READY | URING_CLIENT_READ_READY | URING_CLIENT_WRITE_READY | URING_TIMER_READY

text \<open>\<open>op_id\<close> is the address of the operation, which the kernel hands back on completion.\<close>

record uring_op =
  op_id :: addr
  op_kind :: uring_op_kind
  op_client :: "addr option"

text \<open>The list of the tracked operations starts with the latest.\<close>

record uring_dispatcher =
  dp_ops :: "uring_op list"
  dp_outstanding_ops :: "32 word"
  dp_timer_fd :: int
  dp_next :: addr

definition queue_depth_for_server :: "server \<Rightarrow> 32 word" where
  "queue_depth_for_server srv =
     (let max_clients = (if sv_max_clients srv = 0 then 128 else sv_max_clients srv) in
      if max_clients > 32768 - 8 then 32768
      else let needed = max_clients + 8 in if needed < 256 then 256 else needed)"

definition track_op :: "uring_op \<Rightarrow> uring_dispatcher \<Rightarrow> uring_dispatcher" where
  "track_op op d = d\<lparr>dp_ops := op # dp_ops d, dp_outstanding_ops := dp_outstanding_ops d + 1\<rparr>"

fun unlink_op :: "addr \<Rightarrow> uring_op list \<Rightarrow> bool \<times> uring_op list" where
  "unlink_op i [] = (False, [])"
| "unlink_op i (op # ops) =
     (if op_id op = i then (True, ops) else let (found, rest) = unlink_op i ops in (found, op # rest))"

definition untrack_op :: "uring_op \<Rightarrow> uring_dispatcher \<Rightarrow> uring_dispatcher" where
  "untrack_op op d =
     (let (found, ops) = unlink_op (op_id op) (dp_ops d) in
      d\<lparr>dp_ops := ops,
        dp_outstanding_ops := (if found \<and> dp_outstanding_ops d > 0 then dp_outstanding_ops d - 1 else dp_outstanding_ops d)\<rparr>)"

definition free_tracked_ops :: "uring_dispatcher \<Rightarrow> uring_dispatcher" where
  "free_tracked_ops d = d\<lparr>dp_ops := [], dp_outstanding_ops := 0\<rparr>"

text \<open>A free entry of the submission queue, after a submission if the queue is full.\<close>

definition get_sqe :: "world \<Rightarrow> bool \<times> world" where
  "get_sqe w =
     (let (ok, w) = next_ctl w in
      if ok then (True, w)
      else let (submitted, w) = next_ctl w in
        if \<not> submitted then (False, w) else next_ctl w)"

definition submit_poll_op ::
  "uring_op_kind \<Rightarrow> addr option \<Rightarrow> int \<Rightarrow> uring_dispatcher \<Rightarrow> world \<Rightarrow> int \<times> uring_dispatcher \<times> world" where
  "submit_poll_op kind client fd d w =
     (if fd < 0 then (-1, d, w)
      else let (ok, e) = env_alloc (w_env w); w = w\<lparr>w_env := e\<rparr> in
        if \<not> ok then (-1, d, w)
        else let op = \<lparr>op_id = dp_next d, op_kind = kind, op_client = client\<rparr>;
                 d = d\<lparr>dp_next := Suc (dp_next d)\<rparr>;
                 (sqe, w) = get_sqe w
             in if \<not> sqe then (-1, d, w)
                else let d = track_op op d; (submitted, w) = next_ctl w
                     in (if submitted then 0 else -1, d, w))"

definition submit_accept_ready :: "uring_dispatcher \<Rightarrow> world \<Rightarrow> int \<times> uring_dispatcher \<times> world" where
  "submit_accept_ready d w = submit_poll_op URING_ACCEPT_READY None (sv_fd (w_server w)) d w"

definition submit_client_read_ready :: "addr \<Rightarrow> uring_dispatcher \<Rightarrow> world \<Rightarrow> (int \<times> uring_dispatcher \<times> world) outcome" where
  "submit_client_read_ready p d w =
     and_then (client_at p w) (\<lambda>c. Inr (submit_poll_op URING_CLIENT_READ_READY (Some p) (cl_fd c) d w))"

definition submit_client_write_ready :: "addr \<Rightarrow> uring_dispatcher \<Rightarrow> world \<Rightarrow> (int \<times> uring_dispatcher \<times> world) outcome" where
  "submit_client_write_ready p d w =
     and_then (client_at p w) (\<lambda>c.
       let (res, d, w) = submit_poll_op URING_CLIENT_WRITE_READY (Some p) (cl_fd c) d w
       in if res = 0 then Inr (res, d, put_client p (c\<lparr>cl_write_registered := True\<rparr>) w) else Inr (res, d, w))"

definition submit_timer_ready :: "uring_dispatcher \<Rightarrow> world \<Rightarrow> int \<times> uring_dispatcher \<times> world" where
  "submit_timer_ready d w =
     (if dp_timer_fd d < 0 then (0, d, w) else submit_poll_op URING_TIMER_READY None (dp_timer_fd d) d w)"

definition close_untracked_client :: "addr \<Rightarrow> world \<Rightarrow> world outcome" where
  "close_untracked_client p w =
     and_then (client_at p w) (\<lambda>c.
       let w = (if cl_fd c \<ge> 0 then put_client p (c\<lparr>cl_fd := -1\<rparr>) (close_fd (cl_fd c) w) else w)
       in free_client p w)"

text \<open>The timer: \<open>created\<close> and \<open>armed\<close> tell whether the two system calls succeed.\<close>

definition setup_timer :: "bool \<Rightarrow> bool \<Rightarrow> uring_dispatcher \<Rightarrow> world \<Rightarrow> uring_dispatcher \<times> world" where
  "setup_timer created armed d w =
     (if \<not> created then (d\<lparr>dp_timer_fd := -1\<rparr>, w)
      else let (fd, w) = open_fd w in
        if \<not> armed then (d\<lparr>dp_timer_fd := -1\<rparr>, close_fd fd w) else (d\<lparr>dp_timer_fd := fd\<rparr>, w))"

section \<open>Completions\<close>

text \<open>\<open>listAddNodeToTail\<close> of the new client; the first result tells whether it returned a list.\<close>

definition append_client :: "addr \<Rightarrow> world \<Rightarrow> (bool \<times> world) outcome" where
  "append_client p w =
     (case w_list w of
        None \<Rightarrow>
          let (ok, e) = env_alloc (w_env w)
          in if ok then Inl Invalid_pointer else Inr (False, w\<lparr>w_env := e\<rparr>)
      | Some l \<Rightarrow>
          and_then (need Invalid_pointer (listAddNodeToTail l p (w_nodes w) (w_env w))) (\<lambda>(added, l, h, e).
            Inr (added, w\<lparr>w_list := Some l, w_nodes := h, w_env := e\<rparr>)))"

definition uring_accept_one :: "uring_dispatcher \<Rightarrow> world \<Rightarrow> (int \<times> uring_dispatcher \<times> world) outcome" where
  "uring_accept_one d w =
     (let (cfd, w) = open_fd w;
          (rejected, w) = reject_if_server_at_capacity cfd w
      in if rejected then Inr (0, d, w)
         else case new_client cfd w of
             (None, w) \<Rightarrow> Inr (0, d, w)
           | (Some p, w) \<Rightarrow>
               and_then (append_client p w) (\<lambda>(added, w).
                 if \<not> added then and_then (close_untracked_client p w) (\<lambda>w. Inr (0, d, w))
                 else
                   let srv = w_server w; w = w\<lparr>w_server := srv\<lparr>sv_num_clients := sv_num_clients srv + 1\<rparr>\<rparr> in
                   and_then (submit_client_read_ready p d w) (\<lambda>(res, d, w).
                     if res = -1 then and_then (server_drop_client p w) (\<lambda>w. Inr (-1, d, w)) else Inr (0, d, w))))"

fun uring_accept_loop :: "accept_result list \<Rightarrow> uring_dispatcher \<Rightarrow> world \<Rightarrow> (int \<times> uring_dispatcher \<times> world) outcome" where
  "uring_accept_loop [] d w = Inr (0, d, w)"
| "uring_accept_loop (r # rs) d w =
     (case r of
        Accept_new \<Rightarrow> and_then (uring_accept_one d (w\<lparr>w_accepts := rs\<rparr>)) (\<lambda>(res, d, w).
          if res = -1 then Inr (-1, d, w) else uring_accept_loop rs d w)
      | Accept_intr \<Rightarrow> uring_accept_loop rs d (w\<lparr>w_accepts := rs\<rparr>)
      | _ \<Rightarrow> Inr (0, d, w\<lparr>w_accepts := rs\<rparr>))"

definition handle_accept_ready :: "int \<Rightarrow> uring_dispatcher \<Rightarrow> world \<Rightarrow> (int \<times> uring_dispatcher \<times> world) outcome" where
  "handle_accept_ready cqe_res d w =
     (if cqe_res < 0 \<and> \<not> server_shutdown_requested w then Inr (-1, d, w)
      else and_then (uring_accept_loop (w_accepts w) d w) (\<lambda>(res, d, w).
        if res = -1 then Inr (-1, d, w)
        else if \<not> server_shutdown_requested w
        then let (res, d, w) = submit_accept_ready d w in Inr (if res = -1 then -1 else 0, d, w)
        else Inr (0, d, w)))"

fun uring_timer_loop :: "timer_result list \<Rightarrow> world \<Rightarrow> world outcome" where
  "uring_timer_loop [] w = Inr w"
| "uring_timer_loop (r # rs) w =
     (case r of
        Timer_fired \<Rightarrow> and_then (sweep (w\<lparr>w_timers := rs\<rparr>)) (uring_timer_loop rs)
      | Timer_intr \<Rightarrow> uring_timer_loop rs (w\<lparr>w_timers := rs\<rparr>)
      | _ \<Rightarrow> Inr (w\<lparr>w_timers := rs\<rparr>))"

definition handle_timer_ready :: "int \<Rightarrow> uring_dispatcher \<Rightarrow> world \<Rightarrow> (int \<times> uring_dispatcher \<times> world) outcome" where
  "handle_timer_ready cqe_res d w =
     (if cqe_res < 0 \<and> \<not> server_shutdown_requested w then Inr (-1, d, w)
      else and_then (uring_timer_loop (w_timers w) w) (\<lambda>w.
        if \<not> server_shutdown_requested w
        then let (res, d, w) = submit_timer_ready d w in Inr (if res = -1 then -1 else 0, d, w)
        else Inr (0, d, w)))"

definition rearm_client_after_read :: "addr \<Rightarrow> uring_dispatcher \<Rightarrow> world \<Rightarrow> (int \<times> uring_dispatcher \<times> world) outcome" where
  "rearm_client_after_read p d w =
     and_then (client_at p w) (\<lambda>c.
       if length (cl_wbuf c) > 0 then submit_client_write_ready p d w else submit_client_read_ready p d w)"

text \<open>The client is dropped and the loop goes on.\<close>

definition drop_and_continue :: "addr \<Rightarrow> uring_dispatcher \<Rightarrow> world \<Rightarrow> (int \<times> uring_dispatcher \<times> world) outcome" where
  "drop_and_continue p d w = and_then (server_drop_client p w) (\<lambda>w. Inr (0, d, w))"

fun uring_read_loop :: "recv_result list \<Rightarrow> addr \<Rightarrow> uring_dispatcher \<Rightarrow> world \<Rightarrow> (int \<times> uring_dispatcher \<times> world) outcome" where
  "uring_read_loop [] p d w =
     and_then (client_at p w) (\<lambda>c.
       if FKVS_CLIENT_READ_BUFFER_SIZE - cl_buf_used c = 0 then drop_and_continue p d w
       else rearm_client_after_read p d w)"
| "uring_read_loop (r # rs) p d w =
     and_then (client_at p w) (\<lambda>c.
       let available = FKVS_CLIENT_READ_BUFFER_SIZE - cl_buf_used c in
       if available = 0 then drop_and_continue p d w
       else let w = w\<lparr>w_recvs := rs\<rparr> in
         case recv_into available r of
           Recv_data data \<Rightarrow>
             and_then (serve_input p (put_client p (receive data c) w)) (\<lambda>(status, w).
               if status < 0 then drop_and_continue p d w
               else and_then (client_at p w) (\<lambda>c.
                 if client_has_oversized_partial_frame c then drop_and_continue p d w
                 else uring_read_loop rs p d w))
         | Recv_eof \<Rightarrow> drop_and_continue p d w
         | Recv_intr \<Rightarrow> uring_read_loop rs p d w
         | Recv_again \<Rightarrow> rearm_client_after_read p d w
         | Recv_error \<Rightarrow> drop_and_continue p d w)"

definition handle_client_read_ready ::
  "addr option \<Rightarrow> int \<Rightarrow> uring_dispatcher \<Rightarrow> world \<Rightarrow> (int \<times> uring_dispatcher \<times> world) outcome" where
  "handle_client_read_ready client cqe_res d w =
     (case client of
        None \<Rightarrow> Inr (0, d, w)
      | Some p \<Rightarrow> if cqe_res < 0 then drop_and_continue p d w else uring_read_loop (w_recvs w) p d w)"

definition handle_client_write_ready ::
  "addr option \<Rightarrow> int \<Rightarrow> uring_dispatcher \<Rightarrow> world \<Rightarrow> (int \<times> uring_dispatcher \<times> world) outcome" where
  "handle_client_write_ready client cqe_res d w =
     (case client of
        None \<Rightarrow> Inr (0, d, w)
      | Some p \<Rightarrow>
          and_then (client_at p w) (\<lambda>c.
            let w = put_client p (c\<lparr>cl_write_registered := False\<rparr>) w in
            if cqe_res < 0 then drop_and_continue p d w
            else and_then (flush_client p w) (\<lambda>w.
              and_then (client_at p w) (\<lambda>c.
                if cl_write_failed c then drop_and_continue p d w
                else if length (cl_wbuf c) > 0 then submit_client_write_ready p d w
                else submit_client_read_ready p d w))))"

definition handle_cqe :: "uring_op \<Rightarrow> int \<Rightarrow> uring_dispatcher \<Rightarrow> world \<Rightarrow> (int \<times> uring_dispatcher \<times> world) outcome" where
  "handle_cqe op cqe_res d w =
     (let d = untrack_op op d in
      case op_kind op of
        URING_ACCEPT_READY \<Rightarrow> handle_accept_ready cqe_res d w
      | URING_CLIENT_READ_READY \<Rightarrow> handle_client_read_ready (op_client op) cqe_res d w
      | URING_CLIENT_WRITE_READY \<Rightarrow> handle_client_write_ready (op_client op) cqe_res d w
      | URING_TIMER_READY \<Rightarrow> handle_timer_ready cqe_res d w)"

definition cleanup_dispatcher :: "uring_dispatcher \<Rightarrow> world \<Rightarrow> uring_dispatcher \<times> world" where
  "cleanup_dispatcher d w =
     (let (d, w) = (if dp_timer_fd d \<ge> 0 then (d\<lparr>dp_timer_fd := -1\<rparr>, close_fd (dp_timer_fd d) w) else (d, w))
      in (free_tracked_ops d, w))"

text \<open>What \<open>io_uring_wait_cqe\<close> gives; a signal may arrive while it waits.\<close>

datatype cqe_result = Cqe uring_op int | Cqe_intr | Cqe_error

fun uring_rounds :: "(bool \<times> cqe_result) list \<Rightarrow> uring_dispatcher \<Rightarrow> world \<Rightarrow> (int \<times> uring_dispatcher \<times> world) outcome" where
  "uring_rounds [] d w = Inr (0, d, w)"
| "uring_rounds ((signal, r) # rs) d w =
     (if server_shutdown_requested w then Inr (0, d, w)
      else let w = (if signal then request_server_shutdown w else w) in
        case r of
          Cqe op res \<Rightarrow> and_then (handle_cqe op res d w) (\<lambda>(status, d, w).
            if status = -1 then Inr (-1, d, w) else uring_rounds rs d w)
        | Cqe_intr \<Rightarrow> if server_shutdown_requested w then Inr (0, d, w) else uring_rounds rs d w
        | Cqe_error \<Rightarrow> Inr (-1, d, w))"

definition uring_run_event_loop ::
  "bool \<Rightarrow> bool \<Rightarrow> bool \<Rightarrow> (bool \<times> cqe_result) list \<Rightarrow> world \<Rightarrow> (int \<times> world) outcome" where
  "uring_run_event_loop queue timer_created timer_set rounds w =
     (if \<not> queue then Inr (-1, w)
      else
        let d = \<lparr>dp_ops = [], dp_outstanding_ops = 0, dp_timer_fd = -1, dp_next = 0\<rparr>;
            (d, w) = setup_timer timer_created timer_set d w;
            (res, d, w) = submit_accept_ready d w
        in if res = -1 then Inr (-1, snd (cleanup_dispatcher d w))
           else let (res, d, w) = submit_timer_ready d w in
             if res = -1 then Inr (-1, snd (cleanup_dispatcher d w))
             else and_then (uring_rounds rounds d w) (\<lambda>(status, d, w). Inr (status, snd (cleanup_dispatcher d w))))"

section \<open>One operation for every client\<close>

fun clients_of :: "uring_op list \<Rightarrow> addr list" where
  "clients_of [] = []"
| "clients_of (op # ops) = (case op_client op of None \<Rightarrow> clients_of ops | Some p \<Rightarrow> p # clients_of ops)"

lemma clients_of_mem: "op \<in> set ops \<Longrightarrow> op_client op = Some p \<Longrightarrow> p \<in> set (clients_of ops)"
  by (induction ops) (auto split: option.splits)

definition op_ok :: "uring_op \<Rightarrow> bool" where
  "op_ok op \<longleftrightarrow> (op_client op \<noteq> None) = (op_kind op = URING_CLIENT_READ_READY \<or> op_kind op = URING_CLIENT_WRITE_READY)"

text \<open>Every client outside \<open>S\<close> has exactly one operation, and no operation names any other.\<close>

definition armed :: "addr set \<Rightarrow> uring_dispatcher \<Rightarrow> world \<Rightarrow> bool" where
  "armed S d w \<longleftrightarrow> world_inv w \<and> (\<forall>op \<in> set (dp_ops d). op_ok op \<and> op_id op < dp_next d)
     \<and> distinct (map op_id (dp_ops d)) \<and> distinct (clients_of (dp_ops d))
     \<and> set (clients_of (dp_ops d)) = dom (w_clients w) - S"

definition op_count :: "uring_op_kind \<Rightarrow> uring_dispatcher \<Rightarrow> nat" where
  "op_count kind d = length (filter (\<lambda>op. op_kind op = kind) (dp_ops d))"

text \<open>The operations of the listening socket and of the timer.\<close>

definition polls :: "uring_dispatcher \<Rightarrow> nat \<times> nat \<times> int" where
  "polls d = (op_count URING_ACCEPT_READY d, op_count URING_TIMER_READY d, dp_timer_fd d)"

text \<open>How a completion ends: all clients are armed, or the loop is to stop.\<close>

definition settled :: "nat \<times> nat \<times> int \<Rightarrow> int \<times> uring_dispatcher \<times> world \<Rightarrow> bool" where
  "settled ps r \<longleftrightarrow> (case r of (status, d, w) \<Rightarrow>
     (status = 0 \<and> armed {} d w \<and> polls d = ps) \<or> (status = -1 \<and> world_inv w))"

lemma unlink_op_eq:
  "op \<in> set ops \<Longrightarrow> distinct (map op_id ops) \<Longrightarrow> unlink_op (op_id op) ops = (True, remove1 op ops)"
proof (induction ops)
  case (Cons a ops)
  show ?case
  proof (cases "a = op")
    case False
    then have "op \<in> set ops" "op_id a \<noteq> op_id op" using Cons.prems by force+
    then show ?thesis using False Cons by simp
  qed simp
qed simp

lemma clients_of_remove:
  "op \<in> set ops \<Longrightarrow> distinct (clients_of ops) \<Longrightarrow>
     clients_of (remove1 op ops) = (case op_client op of None \<Rightarrow> clients_of ops | Some p \<Rightarrow> remove1 p (clients_of ops))"
proof (induction ops)
  case (Cons a ops)
  show ?case
  proof (cases "a = op")
    case True
    then show ?thesis by (auto split: option.splits)
  next
    case False
    then show ?thesis using Cons clients_of_mem [of op ops] by (auto split: option.splits)
  qed
qed simp

lemma untracked:
  assumes "armed {} d w" and "op \<in> set (dp_ops d)"
  shows "armed (case op_client op of None \<Rightarrow> {} | Some p \<Rightarrow> {p}) (untrack_op op d) w"
    and "op_client op = Some p \<Longrightarrow> p \<in> dom (w_clients w)"
    and "dp_ops (untrack_op op d) = remove1 op (dp_ops d)" and "dp_timer_fd (untrack_op op d) = dp_timer_fd d"
proof -
  have d: "distinct (map op_id (dp_ops d))" "distinct (clients_of (dp_ops d))" "set (clients_of (dp_ops d)) = dom (w_clients w)"
    using assms(1) by (auto simp: armed_def)
  show ops: "dp_ops (untrack_op op d) = remove1 op (dp_ops d)" "dp_timer_fd (untrack_op op d) = dp_timer_fd d"
    using unlink_op_eq [OF assms(2) d(1)] by (simp_all add: untrack_op_def)
  have nx: "dp_next (untrack_op op d) = dp_next d" by (simp add: untrack_op_def split: prod.split)
  have c: "clients_of (remove1 op (dp_ops d)) = (case op_client op of None \<Rightarrow> clients_of (dp_ops d) | Some p \<Rightarrow> remove1 p (clients_of (dp_ops d)))"
    by (rule clients_of_remove [OF assms(2) d(2)])
  have "distinct (map op_id (remove1 op (dp_ops d)))"
    using d(1) by (simp add: distinct_map inj_on_diff)
  then show "armed (case op_client op of None \<Rightarrow> {} | Some p \<Rightarrow> {p}) (untrack_op op d) w"
    using assms(1) d c ops nx unfolding armed_def by (auto dest: notin_set_remove1 split: option.splits)
  show "p \<in> dom (w_clients w)" if "op_client op = Some p"
    using clients_of_mem [OF assms(2) that] d(3) by simp
qed

lemma ctl_keeps:
  assumes "next_ctl w = (ok, w')"
  shows "world_inv w' = world_inv w" and "w_clients w' = w_clients w" and "w_shutdown w' = w_shutdown w"
  using assms by (auto simp: next_ctl_def split: list.splits)

lemma alloc_keeps_inv: "world_inv (w\<lparr>w_env := snd (env_alloc (w_env w))\<rparr>) = world_inv w"
proof -
  have "conns (w\<lparr>w_env := snd (env_alloc (w_env w))\<rparr>) ns = conns w ns" for ns by (rule conns_cong) simp_all
  moreover have "db_ok (w\<lparr>w_env := snd (env_alloc (w_env w))\<rparr>) = db_ok w"
    using env_alloc_keeps(1) [of "w_env w"] by (simp add: db_ok_def split: option.split)
  ultimately show ?thesis by (simp add: world_inv_def)
qed

lemma submit_keeps:
  assumes "submit_poll_op kind client fd d w = (res, d', w')"
  shows "world_inv w \<Longrightarrow> world_inv w'" and "w_clients w' = w_clients w" and "res = 0 \<or> res = -1"
    and "res = 0 \<Longrightarrow> dp_ops d' = \<lparr>op_id = dp_next d, op_kind = kind, op_client = client\<rparr> # dp_ops d
      \<and> dp_next d' = Suc (dp_next d) \<and> dp_timer_fd d' = dp_timer_fd d"
proof -
  obtain ok1 w1 where c1: "next_ctl (w\<lparr>w_env := snd (env_alloc (w_env w))\<rparr>) = (ok1, w1)" by (meson surj_pair)
  obtain ok2 w2 where c2: "next_ctl w1 = (ok2, w2)" by (meson surj_pair)
  obtain ok3 w3 where c3: "next_ctl w2 = (ok3, w3)" by (meson surj_pair)
  obtain ok4 w4 where c4: "next_ctl w3 = (ok4, w4)" by (meson surj_pair)
  note k = ctl_keeps [OF c1] ctl_keeps [OF c2] ctl_keeps [OF c3] ctl_keeps [OF c4] alloc_keeps_inv [of w]
  have "w' = w \<or> w' = w\<lparr>w_env := snd (env_alloc (w_env w))\<rparr> \<or> w' = w1 \<or> w' = w2 \<or> w' = w3 \<or> w' = w4"
    and r: "(res = 0 \<or> res = -1) \<and> (res = 0 \<longrightarrow> dp_ops d' = \<lparr>op_id = dp_next d, op_kind = kind, op_client = client\<rparr> # dp_ops d
      \<and> dp_next d' = Suc (dp_next d) \<and> dp_timer_fd d' = dp_timer_fd d)"
    using assms c1 c2 c3 c4
    by (auto simp: submit_poll_op_def get_sqe_def track_op_def Let_def split_beta split: if_splits)
  then show "world_inv w \<Longrightarrow> world_inv w'" "w_clients w' = w_clients w" using k by auto
  show "res = 0 \<or> res = -1" "res = 0 \<Longrightarrow> dp_ops d' = \<lparr>op_id = dp_next d, op_kind = kind, op_client = client\<rparr> # dp_ops d
      \<and> dp_next d' = Suc (dp_next d) \<and> dp_timer_fd d' = dp_timer_fd d" using r by auto
qed

lemma armed_step: "armed S d w \<Longrightarrow> client_step p w False w' \<Longrightarrow> armed S d w'"
  by (simp add: armed_def client_step_def)

text \<open>A client that has lost its operation gets a new one.\<close>

lemma submit_client_armed:
  assumes "armed {p} d w" and "p \<in> dom (w_clients w)" and "kind = URING_CLIENT_READ_READY \<or> kind = URING_CLIENT_WRITE_READY"
    and "submit_poll_op kind (Some p) fd d w = (res, d', w')"
  shows "settled (polls d) (res, d', w')"
proof -
  note k = submit_keeps [OF assms(4)]
  show ?thesis
  proof (cases "res = 0")
    case True
    have "armed {} d' w'" using assms(1,2,3) k(1,2) k(4) [OF True]
      by (auto simp: armed_def op_ok_def less_Suc_eq)
    moreover have "polls d' = polls d" using assms(3) k(4) [OF True] by (auto simp: polls_def op_count_def)
    ultimately show ?thesis using True by (simp add: settled_def)
  next
    case False
    then show ?thesis using k(1,3) assms(1) by (auto simp: settled_def armed_def)
  qed
qed

lemma submit_read_step:
  assumes "armed {p} d w" and "p \<in> dom (w_clients w)"
  shows "ensures (submit_client_read_ready p d w) (settled (polls d))"
proof -
  obtain c where c: "w_clients w p = Some c" using assms(2) by auto
  obtain res d' w' where s: "submit_poll_op URING_CLIENT_READ_READY (Some p) (cl_fd c) d w = (res, d', w')" using prod_cases3 by blast
  show ?thesis using submit_client_armed [OF assms _ s] c s by (simp add: submit_client_read_ready_def client_at_def)
qed

lemma submit_write_step:
  assumes "armed {p} d w" and "p \<in> dom (w_clients w)"
  shows "ensures (submit_client_write_ready p d w) (settled (polls d))"
proof -
  obtain c where c: "w_clients w p = Some c" using assms(2) by auto
  obtain res d' w' where s: "submit_poll_op URING_CLIENT_WRITE_READY (Some p) (cl_fd c) d w = (res, d', w')" using prod_cases3 by blast
  from submit_client_armed [OF assms _ s] have st: "settled (polls d) (res, d', w')" by simp
  have w': "world_inv w'" "w_clients w' p = Some c" using submit_keeps(1,2) [OF s] assms(1) c by (simp_all add: armed_def)
  have "client_inv (c\<lparr>cl_write_registered := True\<rparr>)" using world_inv_client [OF w'] by (simp add: client_inv_def)
  then have "client_step p w' False (put_client p (c\<lparr>cl_write_registered := True\<rparr>) w')" using put_client_step [OF w'] by simp
  then show ?thesis using st c s armed_step
    by (auto simp: submit_client_write_ready_def client_at_def settled_def client_step_def)
qed

lemma rearm_step:
  assumes "armed {p} d w" and "p \<in> dom (w_clients w)"
  shows "ensures (rearm_client_after_read p d w) (settled (polls d))"
proof -
  obtain c where "w_clients w p = Some c" using assms(2) by auto
  then show ?thesis using submit_read_step [OF assms] submit_write_step [OF assms]
    by (simp add: rearm_client_after_read_def client_at_def)
qed

lemma drop_and_continue_step:
  assumes "armed {p} d w" and "p \<in> dom (w_clients w)"
  shows "ensures (drop_and_continue p d w) (settled (polls d))"
  unfolding drop_and_continue_def
proof (rule ensures_then [OF drop_step])
  show "world_inv w" using assms(1) by (simp add: armed_def)
  fix w' assume "world_inv w' \<and> w_env w' = w_env w \<and> dom (w_clients w') = dom (w_clients w) - {p} \<and> w_watch w' = w_watch w
    \<and> strays w' = strays w \<and> sv_fd (w_server w') = sv_fd (w_server w)"
  then show "ensures (Inr (0, d, w')) (settled (polls d))" using assms(1) by (simp add: settled_def armed_def)
qed (fact assms(2))

lemma uring_read_step:
  assumes "armed {p} d w" and "p \<in> dom (w_clients w)"
  shows "ensures (uring_read_loop rs p d w) (settled (polls d))"
  using assms
proof (induction rs arbitrary: w)
  case Nil
  obtain c where "w_clients w p = Some c" using Nil(2) by auto
  then show ?case using rearm_step [OF Nil] drop_and_continue_step [OF Nil] by (simp add: client_at_def)
next
  case (Cons r rs)
  obtain c where c: "w_clients w p = Some c" using Cons.prems(2) by auto
  have inv: "world_inv w" using Cons.prems(1) by (simp add: armed_def)
  let ?w = "w\<lparr>w_recvs := rs\<rparr>"
  have a: "armed {p} d ?w" "p \<in> dom (w_clients ?w)" using Cons.prems by (simp_all add: armed_def)
  note ends = drop_and_continue_step [OF a] rearm_step [OF a] Cons.IH [OF a] drop_and_continue_step [OF Cons.prems]
  show ?case
  proof (cases "recv_into (FKVS_CLIENT_READ_BUFFER_SIZE - cl_buf_used c) r")
    case (Recv_data data)
    then have len: "length data \<le> FKVS_CLIENT_READ_BUFFER_SIZE - cl_buf_used c"
      by (auto simp: recv_into_def split: recv_result.splits if_splits)
    let ?w1 = "put_client p (receive data c) ?w"
    have "client_inv (receive data c)" "cl_fd (receive data c) = cl_fd c"
      using world_inv_client [OF inv c] len by (auto simp: receive_def client_inv_def)
    then have st: "client_step p ?w False ?w1" using put_client_step [of ?w p c] inv c by simp
    have "ensures (and_then (serve_input p ?w1) (\<lambda>(status, w).
               if status < 0 then drop_and_continue p d w
               else and_then (client_at p w) (\<lambda>c.
                 if client_has_oversized_partial_frame c then drop_and_continue p d w
                 else uring_read_loop rs p d w))) (settled (polls d))"
    proof (rule ensures_then [OF serve_input_step], goal_cases)
      case 1
      show ?case using st by (simp add: client_step_def)
    next
      case 2
      show ?case using st a(2) by (simp add: client_step_def)
    next
      case (3 x)
      then obtain status w2 where x: "x = (status, w2)" and s2: "client_step p ?w1 False w2" by (cases x) auto
      have a2: "armed {p} d w2" using armed_step [OF armed_step [OF a(1) st] s2] .
      have p2: "p \<in> dom (w_clients w2)" using st s2 a(2) by (simp add: client_step_def)
      then obtain c2 where "client_at p w2 = Inr c2" by (auto simp: client_at_def)
      then show ?case using x drop_and_continue_step [OF a2 p2] Cons.IH [OF a2 p2] by simp
    qed
    then show ?thesis using Recv_data c ends(4) by (simp add: client_at_def Let_def)
  qed (use c ends in \<open>simp_all add: client_at_def Let_def\<close>)
qed

lemma handle_read_step:
  assumes "armed {p} d w" and "p \<in> dom (w_clients w)"
  shows "ensures (handle_client_read_ready (Some p) res d w) (settled (polls d))"
  using uring_read_step [OF assms] drop_and_continue_step [OF assms] by (simp add: handle_client_read_ready_def)

lemma handle_write_step:
  assumes "armed {p} d w" and "p \<in> dom (w_clients w)"
  shows "ensures (handle_client_write_ready (Some p) res d w) (settled (polls d))"
proof -
  obtain c where c: "w_clients w p = Some c" using assms(2) by auto
  have inv: "world_inv w" using assms(1) by (simp add: armed_def)
  let ?w = "put_client p (c\<lparr>cl_write_registered := False\<rparr>) w"
  have "client_inv (c\<lparr>cl_write_registered := False\<rparr>)" using world_inv_client [OF inv c] by (simp add: client_inv_def)
  then have st: "client_step p w False ?w" using put_client_step [OF inv c] by simp
  have a: "armed {p} d ?w" "p \<in> dom (w_clients ?w)" "world_inv ?w"
    using armed_step [OF assms(1) st] st assms(2) by (simp_all add: client_step_def)
  have "ensures (and_then (flush_client p ?w) (\<lambda>w.
              and_then (client_at p w) (\<lambda>c.
                if cl_write_failed c then drop_and_continue p d w
                else if length (cl_wbuf c) > 0 then submit_client_write_ready p d w
                else submit_client_read_ready p d w))) (settled (polls d))"
  proof (rule ensures_then [OF flush_client_step [OF a(3,2)]])
    fix w1 assume s1: "client_step p ?w False w1"
    have a1: "armed {p} d w1" "p \<in> dom (w_clients w1)" using armed_step [OF a(1) s1] s1 a(2) by (simp_all add: client_step_def)
    then obtain c1 where "client_at p w1 = Inr c1" by (auto simp: client_at_def)
    then show "ensures (and_then (client_at p w1) (\<lambda>c.
                if cl_write_failed c then drop_and_continue p d w1
                else if length (cl_wbuf c) > 0 then submit_client_write_ready p d w1
                else submit_client_read_ready p d w1)) (settled (polls d))"
      using drop_and_continue_step [OF a1] submit_write_step [OF a1] submit_read_step [OF a1] by simp
  qed
  then show ?thesis using c drop_and_continue_step [OF a(1,2)]
    by (simp add: handle_client_write_ready_def client_at_def Let_def)
qed

lemma uring_timer_step:
  assumes "armed S d w"
  shows "ensures (uring_timer_loop rs w) (armed S d)"
  using assms
proof (induction rs arbitrary: w)
  case (Cons r rs)
  have a: "armed S d (w\<lparr>w_timers := rs\<rparr>)" using Cons.prems by (simp add: armed_def)
  have "ensures (and_then (sweep (w\<lparr>w_timers := rs\<rparr>)) (uring_timer_loop rs)) (armed S d)"
  proof (rule ensures_then [OF sweep_step [of _ 0]])
    show "world_inv (w\<lparr>w_timers := rs\<rparr>)" using a by (simp add: armed_def)
  qed (use Cons.IH armed_step [OF a] in blast)
  then show ?case using Cons.IH [OF a] a by (cases r) simp_all
qed simp

section \<open>Accepting\<close>

text \<open>No memory for the list node: the new client is closed again.\<close>

lemma close_untracked_step:
  assumes "world_inv w" and "open_fd w = (cfd, w1)" and "new_client cfd w1 = (Some p, w2)" and "\<not> fst (env_alloc (w_env w2))"
  shows "\<exists>w3 w'. append_client p w2 = Inr (False, w3) \<and> close_untracked_client p w3 = Inr w'
    \<and> world_inv w' \<and> w_clients w' = w_clients w"
proof -
  have w1: "w1 = w\<lparr>w_open := cfd # w_open w\<rparr>" and cfd: "cfd = lowest_fd (w_open w)" using assms(2) by (auto simp: open_fd_def Let_def)
  obtain c e where i: "init_client cfd (w_env w) = (Some c, e)" and p: "p = w_next w"
    and w2: "w2 = w1\<lparr>w_env := e, w_clients := (w_clients w)(w_next w \<mapsto> c), w_next := Suc (w_next w)\<rparr>"
    using assms(3) w1 by (auto simp: new_client_def split: prod.splits option.splits)
  note c = init_client_ok [OF i lowest_fd_free(2) [of "w_open w", folded cfd]] and ie = init_client_env [OF i]
  from assms(1) obtain ns where ns: "conns w ns" "db_ok w" by (auto simp: world_inv_def)
  obtain l where l: "w_list w = Some l" using ns(1) by (auto simp: conns_def)
  define w3 where "w3 = w2\<lparr>w_list := Some l, w_nodes := w_nodes w2, w_env := snd (env_alloc (w_env w2))\<rparr>"
  have ap: "append_client p w2 = Inr (False, w3)"
    using l add_fails(2) [OF assms(4)] by (simp add: append_client_def w3_def w1 w2)
  have "w_next w \<notin> dom (w_clients w)" using ns(1) by (auto simp: conns_def)
  then have new: "w_clients w (w_next w) = None" by (simp add: domIff)
  define w' where "w' = w\<lparr>w_env := snd (env_alloc e), w_next := Suc (w_next w)\<rparr>"
  have "close_untracked_client p w3 = Inr w'"
    using l c lowest_fd_free(2) [of "w_open w"] new
    by (simp add: close_untracked_client_def client_at_def free_client_def put_client_def close_fd_def w3_def w1 w2 p w'_def cfd fun_upd_idem)
  moreover have "conns w' ns" using ns(1) unfolding conns_def w'_def by (auto simp: less_Suc_eq)
  moreover have "db_ok w'" using ns(2) ie(1) env_alloc_keeps(1) [of e] by (auto simp: db_ok_def w'_def split: option.splits)
  ultimately show ?thesis using ap by (auto simp: world_inv_def w'_def)
qed

lemma uring_accept_one_step:
  assumes "armed {} d w"
  shows "ensures (uring_accept_one d w) (settled (polls d))"
proof -
  have inv: "world_inv w" using assms by (simp add: armed_def)
  have same: "settled (polls d) (0, d, w')" if "world_inv w'" "w_clients w' = w_clients w" for w'
    using that assms by (simp add: settled_def armed_def)
  obtain cfd w1 where o: "open_fd w = (cfd, w1)" by (meson surj_pair)
  have w1: "w1 = w\<lparr>w_open := cfd # w_open w\<rparr>" using o by (auto simp: open_fd_def Let_def)
  obtain rejected w2 where r: "reject_if_server_at_capacity cfd w1 = (rejected, w2)" by (meson surj_pair)
  show ?thesis
  proof (cases rejected)
    case True
    with r have "reject_if_server_at_capacity cfd w1 = (True, w2)" by simp
    note rj = reject_step [OF inv o this]
    show ?thesis using same [OF rj(1,3)] True o r by (simp add: uring_accept_one_def)
  next
    case False
    then have w2: "w2 = w1" and can: "fkvs_server_can_accept_client (w_server w)"
      using r by (auto simp: reject_if_server_at_capacity_def w1 split: if_splits)
    obtain po w3 where n: "new_client cfd w1 = (po, w3)" by (meson surj_pair)
    show ?thesis
    proof (cases po)
      case None
      note nc = no_client_step [OF inv o n [unfolded None]]
      show ?thesis using same [OF nc(1,2)] n None o r False w2 by (simp add: uring_accept_one_def)
    next
      case (Some p)
      from inv obtain l where "w_list w = Some l" by (auto simp: world_inv_def conns_def)
      then have l: "w_list w3 = Some l" using n Some by (auto simp: new_client_def w1 split: prod.splits option.splits)
      show ?thesis
      proof (cases "fst (env_alloc (w_env w3))")
        case no: False
        from close_untracked_step [OF inv o n [unfolded Some] no] obtain w4 w' where
          "append_client p w3 = Inr (False, w4)" "close_untracked_client p w4 = Inr w'" "world_inv w'" "w_clients w' = w_clients w" by blast
        then show ?thesis using n Some o r False w2 same [of w'] by (simp add: uring_accept_one_def)
      next
        case True
        from new_client_listed [OF inv o can n [unfolded Some] l True] obtain l' h where
          a: "listAddNodeToTail l p (w_nodes w3) (w_env w3) = Some (True, l', h, snd (env_alloc (w_env w3)))"
          and w4: "let w4 = w3\<lparr>w_list := Some l', w_nodes := h, w_env := snd (env_alloc (w_env w3)),
              w_server := (w_server w3)\<lparr>sv_num_clients := sv_num_clients (w_server w3) + 1\<rparr>\<rparr>
            in world_inv w4 \<and> (w_safe w \<longrightarrow> w_safe w4) \<and> dom (w_clients w4) = insert p (dom (w_clients w))
              \<and> p \<notin> dom (w_clients w) \<and> w_watch w4 = w_watch w \<and> strays w4 = strays w
              \<and> sv_fd (w_server w4) = sv_fd (w_server w)" by blast
        define w4 where "w4 = w3\<lparr>w_list := Some l', w_nodes := h, w_env := snd (env_alloc (w_env w3)),
              w_server := (w_server w3)\<lparr>sv_num_clients := sv_num_clients (w_server w3) + 1\<rparr>\<rparr>"
        have i4: "world_inv w4" "dom (w_clients w4) = insert p (dom (w_clients w))" "p \<notin> dom (w_clients w)"
          using w4 by (simp_all add: w4_def Let_def)
        have a4: "armed {p} d w4" "p \<in> dom (w_clients w4)" using assms i4 by (simp_all add: armed_def Diff_insert_absorb)
        have eq: "uring_accept_one d w = and_then (submit_client_read_ready p d w4) (\<lambda>(res, d, w).
            if res = -1 then and_then (server_drop_client p w) (\<lambda>w. Inr (-1, d, w)) else Inr (0, d, w))"
          using o r False w2 n Some l a by (simp add: uring_accept_one_def append_client_def w4_def Let_def)
        obtain c where c: "w_clients w4 p = Some c" using a4(2) by auto
        obtain res d' w5 where s: "submit_poll_op URING_CLIENT_READ_READY (Some p) (cl_fd c) d w4 = (res, d', w5)" using prod_cases3 by blast
        note k = submit_keeps [OF s]
        have st: "settled (polls d) (res, d', w5)" using submit_client_armed [OF a4 _ s] by simp
        have "ensures (and_then (server_drop_client p w5) (\<lambda>w. Inr (-1, d', w))) (settled (polls d))"
        proof (rule ensures_then [OF drop_step])
          show "world_inv w5" "p \<in> dom (w_clients w5)" using k(1,2) i4(1) a4(2) by simp_all
        qed (simp add: settled_def)
        then have "ensures (if res = -1 then and_then (server_drop_client p w5) (\<lambda>w. Inr (-1, d', w)) else Inr (0, d', w5)) (settled (polls d))"
          using st k(3) by auto
        then show ?thesis unfolding eq using c s by (simp add: submit_client_read_ready_def client_at_def)
      qed
    qed
  qed
qed

lemma uring_accept_step:
  assumes "armed {} d w"
  shows "ensures (uring_accept_loop rs d w) (settled (polls d))"
  using assms
proof (induction rs arbitrary: d w)
  case Nil
  then show ?case by (simp add: settled_def)
next
  case (Cons r rs)
  have a: "armed {} d (w\<lparr>w_accepts := rs\<rparr>)" using Cons.prems by (simp add: armed_def)
  have "ensures (and_then (uring_accept_one d (w\<lparr>w_accepts := rs\<rparr>)) (\<lambda>(res, d, w).
          if res = -1 then Inr (-1, d, w) else uring_accept_loop rs d w)) (settled (polls d))"
  proof (rule ensures_then [OF uring_accept_one_step [OF a]], clarify)
    fix res d1 w1 assume "settled (polls d) (res, d1, w1)"
    then consider "res = -1" "world_inv w1" | "res = 0" "armed {} d1 w1" "polls d1 = polls d" by (auto simp: settled_def)
    then show "ensures (if res = -1 then Inr (-1, d1, w1) else uring_accept_loop rs d1 w1) (settled (polls d))"
    proof cases
      case 1
      then show ?thesis by (simp add: settled_def)
    next
      case 2
      then show ?thesis using Cons.IH [OF 2(2)] by simp
    qed
  qed
  moreover have "settled (polls d) (0, d, w\<lparr>w_accepts := rs\<rparr>)" using a by (simp add: settled_def)
  ultimately show ?case using Cons.IH [OF a] by (cases r) simp_all
qed

section \<open>A completion\<close>

text \<open>The state in which the loop waits.\<close>

definition uring_ok :: "uring_dispatcher \<Rightarrow> world \<Rightarrow> bool" where
  "uring_ok d w \<longleftrightarrow> armed {} d w \<and> polls d = (1, if dp_timer_fd d < 0 then 0 else 1, dp_timer_fd d)"

definition completed :: "int \<times> uring_dispatcher \<times> world \<Rightarrow> bool" where
  "completed r \<longleftrightarrow> (case r of (status, d, w) \<Rightarrow>
     (status = 0 \<and> armed {} d w \<and> (w_shutdown w \<or> uring_ok d w)) \<or> (status = -1 \<and> world_inv w))"

lemma submit_poll_armed:
  assumes "armed {} d w" and "kind = URING_ACCEPT_READY \<or> kind = URING_TIMER_READY"
    and "submit_poll_op kind None fd d w = (res, d', w')"
  shows "(res = 0 \<and> armed {} d' w' \<and> op_count kind d' = Suc (op_count kind d)
      \<and> (\<forall>k. k \<noteq> kind \<longrightarrow> op_count k d' = op_count k d) \<and> dp_timer_fd d' = dp_timer_fd d) \<or> (res = -1 \<and> world_inv w')"
proof -
  note k = submit_keeps [OF assms(3)]
  show ?thesis
  proof (cases "res = 0")
    case True
    have "armed {} d' w'" using assms(1,2) k(1,2) k(4) [OF True] by (auto simp: armed_def op_ok_def less_Suc_eq)
    then show ?thesis using True k(4) [OF True] by (simp add: op_count_def)
  next
    case False
    then show ?thesis using k(1,3) assms(1) by (auto simp: armed_def)
  qed
qed

lemma op_count_untrack:
  assumes "armed {} d w" and "op \<in> set (dp_ops d)"
  shows "op_count k (untrack_op op d) = (if op_kind op = k then op_count k d - 1 else op_count k d)"
    and "op_kind op = k \<Longrightarrow> 0 < op_count k d"
proof -
  show "op_count k (untrack_op op d) = (if op_kind op = k then op_count k d - 1 else op_count k d)"
    using assms(2) untracked(3) [OF assms] by (auto simp: op_count_def filter_remove1 length_remove1 remove1_idem)
  show "op_kind op = k \<Longrightarrow> 0 < op_count k d" using assms(2) by (auto simp: op_count_def filter_empty_conv)
qed

lemma handle_accept_step:
  assumes "armed {} d w" and "polls d = (0, if dp_timer_fd d < 0 then 0 else 1, dp_timer_fd d)"
  shows "ensures (handle_accept_ready res d w) completed"
proof -
  have "ensures (and_then (uring_accept_loop (w_accepts w) d w) (\<lambda>(res, d, w).
        if res = -1 then Inr (-1, d, w)
        else if \<not> server_shutdown_requested w
        then let (res, d, w) = submit_accept_ready d w in Inr (if res = -1 then -1 else 0, d, w)
        else Inr (0, d, w))) completed"
  proof (rule ensures_then [OF uring_accept_step [OF assms(1)]], clarify)
    fix res d1 w1 assume "settled (polls d) (res, d1, w1)"
    then consider "res = -1" "world_inv w1" | "res = 0" "armed {} d1 w1" "polls d1 = polls d" by (auto simp: settled_def)
    then show "ensures (if res = -1 then Inr (-1, d1, w1)
        else if \<not> server_shutdown_requested w1
        then let (res, d, w) = submit_accept_ready d1 w1 in Inr (if res = -1 then -1 else 0, d, w)
        else Inr (0, d1, w1)) completed"
    proof cases
      case 1
      then show ?thesis by (simp add: completed_def)
    next
      case 2
      obtain res' d2 w2 where s: "submit_accept_ready d1 w1 = (res', d2, w2)" using prod_cases3 by blast
      from submit_poll_armed [OF 2(2) _ s [unfolded submit_accept_ready_def]] have
        "res' = 0 \<and> armed {} d2 w2 \<and> polls d2 = (1, if dp_timer_fd d2 < 0 then 0 else 1, dp_timer_fd d2) \<or> res' = -1 \<and> world_inv w2"
        using 2(3) assms(2) by (auto simp: polls_def)
      then show ?thesis using 2(1,2) s by (auto simp: completed_def uring_ok_def server_shutdown_requested_def)
    qed
  qed
  then show ?thesis using assms(1) by (auto simp: handle_accept_ready_def completed_def armed_def)
qed

lemma handle_timer_step:
  assumes "armed {} d w" and "polls d = (1, 0, dp_timer_fd d)" and "0 \<le> dp_timer_fd d"
  shows "ensures (handle_timer_ready res d w) completed"
proof -
  have "ensures (and_then (uring_timer_loop (w_timers w) w) (\<lambda>w.
        if \<not> server_shutdown_requested w
        then let (res, d, w) = submit_timer_ready d w in Inr (if res = -1 then -1 else 0, d, w)
        else Inr (0, d, w))) completed"
  proof (rule ensures_then [OF uring_timer_step [OF assms(1)]])
    fix w1 assume a: "armed {} d w1"
    obtain res' d2 w2 where s: "submit_poll_op URING_TIMER_READY None (dp_timer_fd d) d w1 = (res', d2, w2)" using prod_cases3 by blast
    from submit_poll_armed [OF a _ s] have
      "res' = 0 \<and> armed {} d2 w2 \<and> polls d2 = (1, if dp_timer_fd d2 < 0 then 0 else 1, dp_timer_fd d2) \<or> res' = -1 \<and> world_inv w2"
      using assms(2,3) by (auto simp: polls_def)
    then show "ensures (if \<not> server_shutdown_requested w1
        then let (res, d, w) = submit_timer_ready d w1 in Inr (if res = -1 then -1 else 0, d, w)
        else Inr (0, d, w1)) completed"
      using a s assms(3) by (auto simp: completed_def uring_ok_def server_shutdown_requested_def submit_timer_ready_def)
  qed
  then show ?thesis using assms(1) by (auto simp: handle_timer_ready_def completed_def armed_def)
qed

lemma handle_cqe_step:
  assumes "uring_ok d w" and "op \<in> set (dp_ops d)"
  shows "ensures (handle_cqe op res d w) completed"
proof -
  have a: "armed {} d w" and ps: "polls d = (1, if dp_timer_fd d < 0 then 0 else 1, dp_timer_fd d)" using assms(1) by (auto simp: uring_ok_def)
  note u = untracked [OF a assms(2)] and cnt = op_count_untrack [OF a assms(2)]
  let ?d = "untrack_op op d"
  have ok: "op_ok op" using a assms(2) by (simp add: armed_def)
  have sc: "ensures r (settled (polls d)) \<Longrightarrow> ensures r completed" for r
  proof (erule ensures_mono)
    fix x assume x: "settled (polls d) x"
    obtain st d' w' where "x = (st, d', w')" by (cases x)
    moreover have "polls d' = polls d \<Longrightarrow> dp_timer_fd d' = dp_timer_fd d" by (simp add: polls_def)
    ultimately show "completed x" using x ps by (auto simp: settled_def completed_def uring_ok_def)
  qed
  have client: "\<exists>p. op_client op = Some p \<and> armed {p} ?d w \<and> p \<in> dom (w_clients w) \<and> polls ?d = polls d"
    if k: "op_kind op = URING_CLIENT_READ_READY \<or> op_kind op = URING_CLIENT_WRITE_READY"
  proof -
    obtain p where p: "op_client op = Some p" using ok k by (auto simp: op_ok_def)
    then show ?thesis using u(1) u(2) [OF p] cnt(1) k u(4) by (auto simp: polls_def)
  qed
  show ?thesis
  proof (cases "op_kind op")
    case URING_ACCEPT_READY
    then have "op_client op = None" using ok by (simp add: op_ok_def)
    moreover have "polls ?d = (0, if dp_timer_fd ?d < 0 then 0 else 1, dp_timer_fd ?d)"
      using cnt(1) u(4) ps URING_ACCEPT_READY by (simp add: polls_def)
    ultimately show ?thesis using handle_accept_step [of ?d w res] u(1) URING_ACCEPT_READY by (simp add: handle_cqe_def)
  next
    case URING_TIMER_READY
    then have "op_client op = None" using ok by (simp add: op_ok_def)
    moreover have "polls ?d = (1, 0, dp_timer_fd ?d)" "0 \<le> dp_timer_fd ?d"
      using cnt(1) [of URING_ACCEPT_READY] cnt [of URING_TIMER_READY] u(4) ps URING_TIMER_READY
      by (auto simp: polls_def split: if_splits)
    ultimately show ?thesis using handle_timer_step [of ?d w res] u(1) URING_TIMER_READY by (simp add: handle_cqe_def)
  next
    case URING_CLIENT_READ_READY
    then obtain p where p: "op_client op = Some p" "armed {p} ?d w" "p \<in> dom (w_clients w)" "polls ?d = polls d" using client by blast
    from handle_read_step [OF p(2,3), of res] show ?thesis using sc p(1,4) URING_CLIENT_READ_READY by (simp add: handle_cqe_def)
  next
    case URING_CLIENT_WRITE_READY
    then obtain p where p: "op_client op = Some p" "armed {p} ?d w" "p \<in> dom (w_clients w)" "polls ?d = polls d" using client by blast
    from handle_write_step [OF p(2,3), of res] show ?thesis using sc p(1,4) URING_CLIENT_WRITE_READY by (simp add: handle_cqe_def)
  qed
qed

section \<open>Any number of completions\<close>

text \<open>What happens between two completions: new input, new connections, another behaviour of
  the allocator, of the sockets and of the submission queue, and perhaps a signal.\<close>

definition uring_input ::
  "allocs \<Rightarrow> recv_result list \<Rightarrow> accept_result list \<Rightarrow> timer_result list \<Rightarrow> bool list \<Rightarrow> int \<Rightarrow> send_result list \<Rightarrow> bool
    \<Rightarrow> world \<Rightarrow> world" where
  "uring_input allocs recvs accepts timers ctls now sends signal w =
     w\<lparr>w_recvs := recvs, w_accepts := accepts, w_timers := timers, w_ctls := ctls, w_shutdown := w_shutdown w \<or> signal,
       w_env := (w_env w)\<lparr>env_allocs := allocs, env_clock := [], env_now := now, env_sends := sends\<rparr>\<rparr>"

lemma uring_input_ok:
  assumes "uring_ok d w" and "reading_ok now"
  shows "uring_ok d (uring_input allocs recvs accepts timers ctls now sends signal w)"
proof -
  have "world_inv (uring_input allocs recvs accepts timers ctls now sends signal w)"
    using assms by (auto simp: uring_ok_def armed_def world_inv_def uring_input_def conns_def db_ok_def clock_ok_def split: option.splits)
  then show ?thesis using assms(1) by (simp add: uring_ok_def armed_def) (simp add: uring_input_def)
qed

inductive uring_reach :: "uring_dispatcher \<Rightarrow> world \<Rightarrow> uring_dispatcher \<Rightarrow> world \<Rightarrow> bool" for d0 w0 where
  uring_start: "uring_reach d0 w0 d0 w0"
| uring_cqe: "uring_reach d0 w0 d w \<Longrightarrow> \<not> w_shutdown w \<Longrightarrow> op \<in> set (dp_ops d) \<Longrightarrow> reading_ok now
    \<Longrightarrow> handle_cqe op res d (uring_input allocs recvs accepts timers ctls now sends signal w) = Inr (0, d', w')
    \<Longrightarrow> uring_reach d0 w0 d' w'"

lemma uring_reach_ok:
  "uring_reach d0 w0 d w \<Longrightarrow> uring_ok d0 w0 \<Longrightarrow> armed {} d w \<and> (w_shutdown w \<or> uring_ok d w)"
proof (induction rule: uring_reach.induct)
  case uring_start
  then show ?case by (simp add: uring_ok_def)
next
  case (uring_cqe d w op now res allocs recvs accepts timers ctls sends signal d' w')
  then have "uring_ok d w" by simp
  from handle_cqe_step [OF uring_input_ok [OF this uring_cqe.hyps(4)] uring_cqe.hyps(3), of res allocs recvs accepts timers ctls sends signal]
  show ?case using uring_cqe.hyps(5) by (simp add: completed_def)
qed

text \<open>C7: On io_uring every client is watched once and no freed client is ever touched.  After
  any number of completions, with any input, any connections, any failing allocations and
  any behaviour of the queues, every connected client has exactly one outstanding
  operation, no operation names a client that is gone, and until the shutdown exactly one
  operation watches the listening socket; the next completion of any of them leads to no
  access through an invalid pointer.\<close>

theorem uring_one_operation_per_client:
  assumes "uring_ok d0 w0" and "uring_reach d0 w0 d w"
  shows "world_inv w \<and> distinct (clients_of (dp_ops d)) \<and> set (clients_of (dp_ops d)) = dom (w_clients w)
    \<and> (w_shutdown w \<or> op_count URING_ACCEPT_READY d = 1
         \<and> (\<forall>op \<in> set (dp_ops d). reading_ok now \<longrightarrow>
              handle_cqe op res d (uring_input allocs recvs accepts timers ctls now sends signal w) \<noteq> Inl Invalid_pointer))"
proof -
  have r: "armed {} d w \<and> (w_shutdown w \<or> uring_ok d w)" by (rule uring_reach_ok [OF assms(2,1)])
  have "handle_cqe op res d (uring_input allocs recvs accepts timers ctls now sends signal w) \<noteq> Inl Invalid_pointer"
    if "uring_ok d w" "op \<in> set (dp_ops d)" "reading_ok now" for op
    using handle_cqe_step [OF uring_input_ok [OF that(1,3)] that(2), of res allocs recvs accepts timers ctls sends signal] by auto
  then show ?thesis using r by (auto simp: armed_def uring_ok_def polls_def)
qed

definition one_client_ops :: uring_dispatcher where
  "one_client_ops = \<lparr>dp_ops = [\<lparr>op_id = 2, op_kind = URING_CLIENT_READ_READY, op_client = Some 7\<rparr>,
       \<lparr>op_id = 1, op_kind = URING_TIMER_READY, op_client = None\<rparr>, \<lparr>op_id = 0, op_kind = URING_ACCEPT_READY, op_client = None\<rparr>],
     dp_outstanding_ops = 3, dp_timer_fd = 4, dp_next = 3\<rparr>"

lemma one_client_armed: "uring_ok one_client_ops one_client"
  using one_client_inv
  by (simp add: uring_ok_def armed_def one_client_ops_def polls_def op_count_def op_ok_def) (simp add: one_client_def)

theorem uring_one_operation_per_client_witness:
  "handle_cqe \<lparr>op_id = 2, op_kind = URING_CLIENT_READ_READY, op_client = Some 7\<rparr> 1 one_client_ops
     (uring_input [False] [Recv_data [0, 1, 8]] [] [] [] 1000 [] False one_client) \<noteq> Inl Invalid_pointer"
proof -
  have "\<not> w_shutdown one_client" "reading_ok 1000" by (simp_all add: one_client_def reading_ok_def)
  then show ?thesis
    using uring_one_operation_per_client [OF one_client_armed uring_start] by (fastforce simp: one_client_ops_def)
qed

section \<open>When memory runs out\<close>

text \<open>C36: One failed allocation stops the server: when a client has been served and there is no
  memory for its next operation, the completion fails, which ends the event loop for all
  clients.\<close>

theorem uring_out_of_memory_stops:
  assumes "uring_ok d w" and "op \<in> set (dp_ops d)" and "op_kind op = URING_CLIENT_READ_READY" and "0 \<le> res"
    and "w_recvs w = []" and "env_allocs (w_env w) = [False]"
    and "\<forall>c \<in> ran (w_clients w). cl_buf_used c < FKVS_CLIENT_READ_BUFFER_SIZE" and "\<not> w_shutdown w"
  shows "\<exists>d' w'. handle_cqe op res d w = Inr (-1, d', w') \<and> w_clients w' = w_clients w
    \<and> uring_rounds ((False, Cqe op res) # rounds) d w = Inr (-1, d', w')"
proof -
  have a: "armed {} d w" using assms(1) by (simp add: uring_ok_def)
  then have "op_ok op" using assms(2) by (simp add: armed_def)
  then obtain p where p: "op_client op = Some p" using assms(3) by (auto simp: op_ok_def)
  obtain c where c: "w_clients w p = Some c" using untracked(2) [OF a assms(2) p] by auto
  then have room: "cl_buf_used c < FKVS_CLIENT_READ_BUFFER_SIZE" using assms(7) by (auto simp: ran_def)
  have inv: "world_inv w" using a by (simp add: armed_def)
  have fd: "\<not> cl_fd c < 0" using world_inv_client [OF inv c] by (simp add: client_inv_def)
  let ?w = "w\<lparr>w_env := (w_env w)\<lparr>env_allocs := []\<rparr>\<rparr>"
  have s: "submit_poll_op kind (Some p) (cl_fd c) (untrack_op op d) w = (-1, untrack_op op d, ?w)" for kind
    using fd assms(6) by (simp add: submit_poll_op_def env_alloc_def)
  have "handle_cqe op res d w = Inr (-1, untrack_op op d, ?w)"
    using assms(3-5) p c room s
    by (simp add: handle_cqe_def handle_client_read_ready_def client_at_def rearm_client_after_read_def
        submit_client_read_ready_def submit_client_write_ready_def Let_def)
  then show ?thesis using assms(8) by (simp add: server_shutdown_requested_def)
qed

theorem uring_out_of_memory_stops_witness:
  "\<exists>d' w'. uring_rounds [(False, Cqe \<lparr>op_id = 2, op_kind = URING_CLIENT_READ_READY, op_client = Some 7\<rparr> 1)]
     one_client_ops (uring_input [False] [] [] [] [] 1000 [] False one_client) = Inr (-1, d', w')"
proof -
  let ?w = "uring_input [False] [] [] [] [] 1000 [] False one_client"
  have "uring_ok one_client_ops ?w" by (rule uring_input_ok [OF one_client_armed]) (simp add: reading_ok_def)
  then show ?thesis
    using uring_out_of_memory_stops [of one_client_ops ?w "\<lparr>op_id = 2, op_kind = URING_CLIENT_READ_READY, op_client = Some 7\<rparr>" 1 "[]"]
    by (fastforce simp: uring_input_def one_client_def one_client_ops_def fresh_client_def)
qed

text \<open>The depth of the queues is between 256 and 32768, and it has room for every client
  that may connect and the eight further entries, whenever that is within the maximum.\<close>

lemma queue_depth_suffices:
  "256 \<le> unat (queue_depth_for_server srv) \<and> unat (queue_depth_for_server srv) \<le> 32768
    \<and> (unat (sv_max_clients srv) + 8 \<le> unat (queue_depth_for_server srv) \<or> 32760 < unat (sv_max_clients srv))"
proof -
  have "unat (x + 8) = unat x + 8" if "\<not> 32760 < x" for x :: "32 word"
    using that by (simp add: unat_word_ariths(1) word_less_nat_alt)
  then show ?thesis by (auto simp: queue_depth_for_server_def Let_def word_less_nat_alt)
qed

end
