(* ===== verification/Tokenizer.thy ===== *)
theory Tokenizer
  imports Prelude
begin

text \<open>
  \<open>src/commands/common/command_tokenizer.c\<close>: how the command line client splits a line into
  arguments.  A C string is the list of its bytes, none of them NUL, and the cursor is what
  is left of it.  Proved: whatever way the arguments are quoted and spaced, the tokens are
  the arguments, cut to the size of a slot.
\<close>

section \<open>Tokens\<close>

text \<open>\<open>isspace\<close> in the C locale.\<close>

definition isspace :: "byte \<Rightarrow> bool" where
  "isspace b \<longleftrightarrow> b = 32 \<or> (9 \<le> b \<and> b \<le> 13)"

abbreviation (input) CMD_MAX_TOKENS :: nat where "CMD_MAX_TOKENS \<equiv> 8"
abbreviation (input) CMD_MAX_TOKEN_LEN :: nat where "CMD_MAX_TOKEN_LEN \<equiv> 512"

text \<open>The two copying loops: what is in \<open>out\<close> at the end and what is left of the line.\<close>

fun quoted_loop :: "byte \<Rightarrow> nat \<Rightarrow> bytes \<Rightarrow> bytes \<Rightarrow> bytes \<times> bytes" where
  "quoted_loop quote out_size out [] = (out, [])"
| "quoted_loop quote out_size out (b # s) =
     (if b = quote then (out, b # s)
      else quoted_loop quote out_size (if length out + 1 < out_size then out @ [b] else out) s)"

fun plain_loop :: "nat \<Rightarrow> bytes \<Rightarrow> bytes \<Rightarrow> bytes \<times> bytes" where
  "plain_loop out_size out [] = (out, [])"
| "plain_loop out_size out (b # s) =
     (if isspace b then (out, b # s)
      else plain_loop out_size (if length out + 1 < out_size then out @ [b] else out) s)"

definition command_next_token :: "bytes \<Rightarrow> nat \<Rightarrow> bytes option \<times> bytes" where
  "command_next_token cursor out_size =
     (case dropWhile isspace cursor of
        [] \<Rightarrow> (None, [])
      | b # s \<Rightarrow>
          if b = 39 \<or> b = 34
          then let (out, s) = quoted_loop b out_size [] s
               in (Some out, case s of [] \<Rightarrow> [] | c # t \<Rightarrow> if c = b then t else s)
          else let (out, s) = plain_loop out_size [] (b # s) in (Some out, s))"

lemma quoted_loop_rest: "length (snd (quoted_loop q n out s)) \<le> length s"
  by (induction q n out s rule: quoted_loop.induct) auto

lemma plain_loop_rest: "length (snd (plain_loop n out s)) \<le> length s"
  by (induction n out s rule: plain_loop.induct) auto

lemma next_token_shorter:
  assumes "command_next_token cursor n = (Some out, rest)"
  shows "length rest < length cursor"
proof -
  obtain b s where d: "dropWhile isspace cursor = b # s"
    using assms by (cases "dropWhile isspace cursor") (auto simp: command_next_token_def)
  have b: "\<not> isspace b" using d by (metis hd_dropWhile list.distinct(1) list.sel(1))
  have le: "length s < length cursor" using length_dropWhile_le [of isspace cursor] d by simp
  show ?thesis
  proof (cases "b = 39 \<or> b = 34")
    case True
    then have "length rest \<le> length s"
      using assms d quoted_loop_rest [of b n "[]" s] by (auto simp: command_next_token_def split: prod.splits list.splits if_splits)
    then show ?thesis using le by simp
  next
    case False
    then have "length rest \<le> length s"
      using assms d b plain_loop_rest [of n _ s] by (auto simp: command_next_token_def split: prod.splits if_splits) (metis snd_conv)+
    then show ?thesis using le by simp
  qed
qed

text \<open>The return value and the tokens; \<open>tokens->argc\<close> is their number.\<close>

function tokenize_loop :: "bytes \<Rightarrow> bytes list \<Rightarrow> int \<times> bytes list" where
  "tokenize_loop cursor argv =
     (case command_next_token cursor CMD_MAX_TOKEN_LEN of
        (None, rest) \<Rightarrow> (int (length argv), argv)
      | (Some token, rest) \<Rightarrow>
          if length argv \<ge> CMD_MAX_TOKENS then (-1, argv) else tokenize_loop rest (argv @ [token]))"
  by pat_completeness auto

termination
  by (relation "measure (\<lambda>(cursor, argv). length cursor)") (auto dest: next_token_shorter [OF sym])

declare tokenize_loop.simps [simp del]

definition command_tokenize :: "bytes \<Rightarrow> int \<times> bytes list" where
  "command_tokenize input = tokenize_loop input []"

section \<open>Writing and reading a line\<close>

text \<open>An argument is written as it is or between quotes, after some white space.\<close>

datatype style = Plain | Quoted byte

fun arg_text :: "style \<Rightarrow> bytes \<Rightarrow> bytes" where
  "arg_text Plain w = w"
| "arg_text (Quoted q) w = q # w @ [q]"

fun arg_ok :: "style \<Rightarrow> bytes \<Rightarrow> bool" where
  "arg_ok Plain w \<longleftrightarrow> w \<noteq> [] \<and> (\<forall>b \<in> set w. \<not> isspace b) \<and> hd w \<noteq> 39 \<and> hd w \<noteq> 34"
| "arg_ok (Quoted q) w \<longleftrightarrow> (q = 39 \<or> q = 34) \<and> q \<notin> set w"

definition line_text :: "(bytes \<times> style \<times> bytes) list \<Rightarrow> bytes" where
  "line_text args = concat (map (\<lambda>(gap, st, w). gap @ arg_text st w) args)"

text \<open>A gap is white space; it is not empty, except before the first argument.\<close>

definition line_ok :: "(bytes \<times> style \<times> bytes) list \<Rightarrow> bool" where
  "line_ok args \<longleftrightarrow> (\<forall>(gap, st, w) \<in> set args. (\<forall>b \<in> set gap. isspace b) \<and> arg_ok st w)
     \<and> (\<forall>(gap, st, w) \<in> set (tl args). gap \<noteq> [])"

lemma quoted_loop_copies:
  "q \<notin> set w \<Longrightarrow> length out < n \<Longrightarrow>
    quoted_loop q n out (w @ q # rest) = (out @ take (n - 1 - length out) w, q # rest)"
proof (induction w arbitrary: out)
  case (Cons b w)
  show ?case
  proof (cases "length out + 1 < n")
    case True
    then have "n - 1 - length out = Suc (n - 1 - length (out @ [b]))" by simp
    then show ?thesis using Cons True by auto
  next
    case False
    then have "n - 1 - length out = 0" by simp
    then show ?thesis using Cons False by auto
  qed
qed simp

lemma plain_loop_copies:
  "\<forall>b \<in> set w. \<not> isspace b \<Longrightarrow> rest = [] \<or> isspace (hd rest) \<Longrightarrow> length out < n \<Longrightarrow>
    plain_loop n out (w @ rest) = (out @ take (n - 1 - length out) w, rest)"
proof (induction w arbitrary: out)
  case Nil
  then show ?case by (cases rest) auto
next
  case (Cons b w)
  show ?case
  proof (cases "length out + 1 < n")
    case True
    then have "n - 1 - length out = Suc (n - 1 - length (out @ [b]))" by simp
    then show ?thesis using Cons True by auto
  next
    case False
    then have "n - 1 - length out = 0" by simp
    then show ?thesis using Cons False by auto
  qed
qed

lemma quotes_not_space: "\<not> isspace 39" "\<not> isspace 34"
  by (simp_all add: isspace_def)

lemma skip_gap: "\<forall>b \<in> set gap. isspace b \<Longrightarrow> dropWhile isspace (gap @ s) = dropWhile isspace s"
  by (induction gap) auto

lemma next_token_arg:
  assumes "\<forall>b \<in> set gap. isspace b" and "arg_ok st w" and "rest = [] \<or> isspace (hd rest)"
  shows "command_next_token (gap @ arg_text st w @ rest) 512 = (Some (take 511 w), rest)"
proof (cases st)
  case Plain
  then obtain b v where w: "w = b # v" "\<not> isspace b" "b \<noteq> 39" "b \<noteq> 34" using assms(2) by (cases w) auto
  then have d: "dropWhile isspace (gap @ arg_text st w @ rest) = b # v @ rest" using skip_gap [OF assms(1)] Plain by simp
  have "plain_loop 512 [] (b # v @ rest) = (take 511 w, rest)"
    using plain_loop_copies [of w rest "[]" 512] assms(2,3) Plain w(1) by simp
  then show ?thesis using d w by (simp add: command_next_token_def)
next
  case (Quoted q)
  then have q: "q = 39 \<or> q = 34" "q \<notin> set w" using assms(2) by auto
  then have d: "dropWhile isspace (gap @ arg_text st w @ rest) = q # w @ q # rest"
    using skip_gap [OF assms(1)] Quoted quotes_not_space by auto
  show ?thesis using d q(1) quoted_loop_copies [OF q(2), of "[]" 512 rest] by (simp add: command_next_token_def)
qed

lemma tokenize_line:
  assumes "\<forall>(gap, st, w) \<in> set args. (\<forall>b \<in> set gap. isspace b) \<and> arg_ok st w" and "\<forall>(gap, st, w) \<in> set (tl args). gap \<noteq> []"
    and "\<forall>b \<in> set trail. isspace b" and "length argv \<le> 8"
  shows "tokenize_loop (line_text args @ trail) argv =
    (if length argv + length args \<le> 8 then int (length argv + length args) else -1,
     argv @ map (\<lambda>(gap, st, w). take 511 w) (take (8 - length argv) args))"
  using assms
proof (induction args arbitrary: argv)
  case Nil
  have "command_next_token trail 512 = (None, [])" using Nil(3) by (simp add: command_next_token_def dropWhile_eq_Nil_conv [THEN iffD2])
  then show ?case using Nil(4) by (simp add: tokenize_loop.simps [of trail] line_text_def)
next
  case (Cons a args)
  obtain gap st w where a: "a = (gap, st, w)" by (cases a) auto
  let ?rest = "line_text args @ trail"
  have r: "?rest = [] \<or> isspace (hd ?rest)"
  proof (cases args)
    case Nil
    then show ?thesis using Cons.prems(3) by (cases trail) (auto simp: line_text_def)
  next
    case (Cons c cs)
    then obtain gap' st' w' where c: "c = (gap', st', w')" "gap' \<noteq> []" using Cons.prems(2) by (cases c) auto
    then have "\<forall>b \<in> set gap'. isspace b" using Cons.prems(1) Cons by auto
    then show ?thesis using c Cons by (cases gap') (auto simp: line_text_def)
  qed
  have t: "command_next_token (line_text (a # args) @ trail) 512 = (Some (take 511 w), ?rest)"
    using next_token_arg [of gap st w ?rest] r Cons.prems(1) a by (simp add: line_text_def)
  show ?case
  proof (cases "length argv = 8")
    case True
    then show ?thesis using t by (simp add: tokenize_loop.simps [of "line_text (a # args) @ trail"])
  next
    case False
    then have lt: "length argv < 8" using Cons.prems(4) by simp
    have nx: "\<forall>(gap, st, w) \<in> set (tl args). gap \<noteq> []" using Cons.prems(2) by (cases args) auto
    have "tokenize_loop (line_text (a # args) @ trail) argv = tokenize_loop ?rest (argv @ [take 511 w])"
      using t lt by (simp add: tokenize_loop.simps [of "line_text (a # args) @ trail"])
    moreover have "8 - length argv = Suc (8 - length (argv @ [take 511 w]))" using lt by simp
    ultimately show ?thesis
      using Cons.IH [OF _ nx Cons.prems(3), of "argv @ [take 511 w]"] Cons.prems(1) lt a by simp
  qed
qed

text \<open>C38: Splitting a line inverts writing it.  However the arguments are quoted, with single or
  double quotes or not at all, and however they are spaced, the tokens are the arguments in
  order, each cut to the 511 bytes that fit a slot.  A line of more than eight arguments is
  reported and its first eight are kept.\<close>

theorem tokenize_inverts_quoting:
  assumes "line_ok args" and "\<forall>b \<in> set trail. isspace b"
  shows "command_tokenize (line_text args @ trail) =
    (if length args \<le> CMD_MAX_TOKENS then int (length args) else -1,
     map (\<lambda>(gap, st, w). take (CMD_MAX_TOKEN_LEN - 1) w) (take CMD_MAX_TOKENS args))"
  using tokenize_line [of args trail "[]"] assms by (simp add: line_ok_def command_tokenize_def)

theorem tokenize_inverts_quoting_witness:
  "command_tokenize (bytes_of_string ''SET user '' @ [39] @ bytes_of_string ''{a: 1}'' @ [39] @ bytes_of_string '' '')
    = (3, [bytes_of_string ''SET'', bytes_of_string ''user'', bytes_of_string ''{a: 1}''])"
proof -
  let ?args = "[([], Plain, bytes_of_string ''SET''), ([32], Plain, bytes_of_string ''user''),
    ([32], Quoted 39, bytes_of_string ''{a: 1}'')]"
  have "line_ok ?args" by (simp add: line_ok_def bytes_of_string_def isspace_def)
  moreover have "\<forall>b \<in> set (bytes_of_string '' ''). isspace b" by (simp add: bytes_of_string_def isspace_def)
  ultimately show ?thesis
    using tokenize_inverts_quoting [of ?args "bytes_of_string '' ''"] by (simp add: line_text_def bytes_of_string_def)
qed

end
