(* ===== verification/Client_Commands.thy ===== *)
theory Client_Commands
  imports Command_Parser Tokenizer
begin

text \<open>
  \<open>src/commands/client/client_command_handlers.c\<close>: how the command line client turns a line
  into a request and shows the reply.  Proved: a line written for a request sends exactly
  the frame of that request and waits for one reply; a reply of the server is decoded and
  shown as what it means, however the network cuts it; a command in lower case is executed
  and called unknown at the same time.
\<close>

section \<open>The session\<close>

text \<open>
  The connection as the commands see it: the bytes handed to the kernel, the script of what
  \<open>recv\<close> and \<open>send\<close> give, the read buffer of the client and what has been printed.  A used-up
  script of \<open>recv\<close> ends the connection; a used-up script of \<open>send\<close> accepts everything.
\<close>

record session =
  se_fd :: int
  se_benchmark_mode :: bool
  se_buffer :: bytes
  se_buf_used :: nat
  se_frame_need :: int
  se_sent :: bytes
  se_recvs :: "recv_result list"
  se_sends :: "send_result list"
  se_allocs :: allocs
  se_out :: bytes
  se_err :: bytes

text \<open>\<open>None\<close> is a failed assertion or a read outside the buffer.\<close>

type_synonym callback = "session \<Rightarrow> session option"

definition put_text :: "bytes \<Rightarrow> session \<Rightarrow> session" where
  "put_text t s = s\<lparr>se_out := se_out s @ t\<rparr>"

definition put_error :: "bytes \<Rightarrow> session \<Rightarrow> session" where
  "put_error t s = s\<lparr>se_err := se_err s @ t\<rparr>"

definition text_line :: "string \<Rightarrow> bytes" where
  "text_line t = bytes_of_string t @ [10]"

definition send_bytes :: "bytes \<Rightarrow> session \<Rightarrow> session" where
  "send_bytes d s = (case se_sends s of
       [] \<Rightarrow> s\<lparr>se_sent := se_sent s @ d\<rparr>
     | Sent n # rs \<Rightarrow> s\<lparr>se_sent := se_sent s @ take n d, se_sends := rs\<rparr>
     | _ # rs \<Rightarrow> s\<lparr>se_sends := rs\<rparr>)"

section \<open>Comparing strings\<close>

definition tolower :: "byte \<Rightarrow> byte" where
  "tolower b = (if 65 \<le> b \<and> b \<le> 90 then b + 32 else b)"

text \<open>\<open>strncmp\<close> and \<open>strncasecmp\<close> return zero.\<close>

definition strncmp_eq :: "bytes \<Rightarrow> bytes \<Rightarrow> nat \<Rightarrow> bool" where
  "strncmp_eq a b n \<longleftrightarrow> take n a = take n b"

definition strncasecmp_eq :: "bytes \<Rightarrow> bytes \<Rightarrow> nat \<Rightarrow> bool" where
  "strncasecmp_eq a b n \<longleftrightarrow> map tolower (take n a) = map tolower (take n b)"

definition strcasecmp_eq :: "bytes \<Rightarrow> bytes \<Rightarrow> bool" where
  "strcasecmp_eq a b \<longleftrightarrow> map tolower a = map tolower b"

definition command_equals :: "bytes \<Rightarrow> bytes \<Rightarrow> bool" where
  "command_equals input expected =
     (let input = dropWhile isspace input;
          input_len = length (dropWhile isspace (rev input));
          expected_len = length expected
      in input_len = expected_len \<and> strncasecmp_eq input expected expected_len)"

section \<open>Commands\<close>

text \<open>What all commands end with: send the frame, if there is one, and wait for the reply.\<close>

definition transmit :: "string \<Rightarrow> bytes option \<times> allocs \<Rightarrow> callback \<Rightarrow> session \<Rightarrow> session option" where
  "transmit complaint cmd response_cb s =
     (case cmd of
        (None, a) \<Rightarrow> Some (put_error (text_line complaint) (s\<lparr>se_allocs := a\<rparr>))
      | (Some binary_cmd, a) \<Rightarrow>
          if length binary_cmd > 0 \<and> se_fd s > 0
          then response_cb (send_bytes binary_cmd (s\<lparr>se_allocs := a\<rparr>)) else None)"

definition cmd_get :: "bytes \<Rightarrow> callback \<Rightarrow> session \<Rightarrow> session option" where
  "cmd_get cmd response_cb s =
     (if \<not> strncasecmp_eq cmd (bytes_of_string ''GET '') 4 then Some s
      else let argv = snd (command_tokenize cmd) in
        if length argv \<noteq> 2
        then Some (put_text (text_line ''(error) ERR wrong number of arguments for 'get' command'' @
               text_line ''(info) Usage: GET <key>'') s)
        else transmit ''Failed to construct GET command'' (construct_get_command (argv ! 1) (se_allocs s)) response_cb s)"

definition cmd_set :: "bytes \<Rightarrow> callback \<Rightarrow> session \<Rightarrow> session option" where
  "cmd_set cmd response_cb s =
     (if \<not> strncasecmp_eq cmd (bytes_of_string ''SET '') 4 then Some s
      else let argv = snd (command_tokenize cmd) in
        if length argv = 3
        then transmit ''Failed to construct SET command'' (construct_set_command (argv ! 1) (argv ! 2) (se_allocs s)) response_cb s
        else if length argv = 5 \<and> strcasecmp_eq (argv ! 3) (bytes_of_string ''EX'')
        then transmit ''Failed to construct SET command''
               (construct_set_ex_command (argv ! 1) (argv ! 2) (argv ! 4) (se_allocs s)) response_cb s
        else Some (put_text (text_line ''(error) ERR syntax error in 'set' command'' @
               text_line ''(info) Usage: SET <key> <value> [EX seconds]'') s))"

definition cmd_incr :: "bytes \<Rightarrow> callback \<Rightarrow> session \<Rightarrow> session option" where
  "cmd_incr cmd response_cb s =
     (if \<not> strncasecmp_eq cmd (bytes_of_string ''INCR '') 5 then Some s
      else let argv = snd (command_tokenize cmd) in
        if length argv \<noteq> 2
        then Some (put_text (text_line ''(error) ERR wrong number of arguments for 'incr' command'' @
               text_line ''(info) Usage: INCR <key>'') s)
        else transmit ''(error) Failed to construct INCR command'' (construct_incr_command (argv ! 1) (se_allocs s)) response_cb s)"

definition cmd_incr_by :: "bytes \<Rightarrow> callback \<Rightarrow> session \<Rightarrow> session option" where
  "cmd_incr_by cmd response_cb s =
     (if \<not> strncasecmp_eq cmd (bytes_of_string ''INCRBY '') 7 then Some s
      else let argv = snd (command_tokenize cmd) in
        if length argv \<noteq> 3
        then Some (put_text (text_line ''(error) ERR wrong number of arguments for 'incrby' command'' @
               text_line ''(info) Usage: INCRBY <key> <value>'') s)
        else transmit ''(error) Failed to construct INCR command''
               (construct_incr_by_command (argv ! 1) (argv ! 2) (se_allocs s)) response_cb s)"

definition cmd_ping :: "bytes \<Rightarrow> callback \<Rightarrow> session \<Rightarrow> session option" where
  "cmd_ping cmd response_cb s =
     (if \<not> strncmp_eq cmd (bytes_of_string ''PING '') 5 \<and> \<not> strncmp_eq cmd (bytes_of_string ''PING'') 4 then Some s
      else let argv = snd (command_tokenize cmd) in
        if length argv = 1
        then transmit ''Failed to construct PING command'' (construct_ping_command (bytes_of_string ''PONG'') (se_allocs s)) response_cb s
        else if length argv = 2
        then transmit ''Failed to construct PING command'' (construct_ping_command (argv ! 1) (se_allocs s)) response_cb s
        else Some (put_text (text_line ''(error) ERR wrong number of arguments for 'ping' command'' @
               text_line ''(info) Usage: PING or PING <value>'') s))"

definition cmd_info :: "bytes \<Rightarrow> callback \<Rightarrow> session \<Rightarrow> session option" where
  "cmd_info cmd response_cb s =
     (if \<not> strncasecmp_eq cmd (bytes_of_string ''INFO'') 4 then Some s
      else transmit ''Failed to construct INFO command'' (construct_info_command (se_allocs s)) response_cb s)"

definition cmd_decr :: "bytes \<Rightarrow> callback \<Rightarrow> session \<Rightarrow> session option" where
  "cmd_decr cmd response_cb s =
     (if \<not> strncasecmp_eq cmd (bytes_of_string ''DECR '') 5 then Some s
      else let argv = snd (command_tokenize cmd) in
        if length argv \<noteq> 2
        then Some (put_text (text_line ''(error) ERR wrong number of arguments for 'decr' command'' @
               text_line ''(info) Usage: DECR <key>'') s)
        else transmit ''(error) Failed to construct DECR command'' (construct_decr_command (argv ! 1) (se_allocs s)) response_cb s)"

definition cmd_decr_by :: "bytes \<Rightarrow> callback \<Rightarrow> session \<Rightarrow> session option" where
  "cmd_decr_by cmd response_cb s =
     (if \<not> strncasecmp_eq cmd (bytes_of_string ''DECRBY '') 7 then Some s
      else let argv = snd (command_tokenize cmd) in
        if length argv \<noteq> 3
        then Some (put_text (text_line ''(error) ERR wrong number of arguments for 'decrby' command'' @
               text_line ''(info) Usage: DECRBY <key> <value>'') s)
        else transmit ''(error) Failed to construct DECRBY command''
               (construct_decr_by_command (argv ! 1) (argv ! 2) (se_allocs s)) response_cb s)"

definition cmd_del :: "bytes \<Rightarrow> callback \<Rightarrow> session \<Rightarrow> session option" where
  "cmd_del cmd response_cb s =
     (if \<not> strncasecmp_eq cmd (bytes_of_string ''DEL '') 4 then Some s
      else let argv = snd (command_tokenize cmd) in
        if length argv \<noteq> 2
        then Some (put_text (text_line ''(error) ERR wrong number of arguments for 'del' command'' @
               text_line ''(info) Usage: DEL <key>'') s)
        else transmit ''Failed to construct DEL command'' (construct_del_command (argv ! 1) (se_allocs s)) response_cb s)"

definition cmd_expire :: "bytes \<Rightarrow> callback \<Rightarrow> session \<Rightarrow> session option" where
  "cmd_expire cmd response_cb s =
     (if \<not> strncasecmp_eq cmd (bytes_of_string ''EXPIRE '') 7 then Some s
      else let argv = snd (command_tokenize cmd) in
        if length argv \<noteq> 3
        then Some (put_text (text_line ''(error) ERR wrong number of arguments for 'expire' command'' @
               text_line ''(info) Usage: EXPIRE <key> <seconds>'') s)
        else transmit ''Failed to construct EXPIRE command''
               (construct_expire_command (argv ! 1) (argv ! 2) (se_allocs s)) response_cb s)"

definition cmd_ttl :: "bytes \<Rightarrow> callback \<Rightarrow> session \<Rightarrow> session option" where
  "cmd_ttl cmd response_cb s =
     (if \<not> strncasecmp_eq cmd (bytes_of_string ''TTL '') 4 then Some s
      else let argv = snd (command_tokenize cmd) in
        if length argv \<noteq> 2
        then Some (put_text (text_line ''(error) ERR wrong number of arguments for 'ttl' command'' @
               text_line ''(info) Usage: TTL <key>'') s)
        else transmit ''Failed to construct TTL command'' (construct_ttl_command (argv ! 1) (se_allocs s)) response_cb s)"

definition cmd_persist :: "bytes \<Rightarrow> callback \<Rightarrow> session \<Rightarrow> session option" where
  "cmd_persist cmd response_cb s =
     (if \<not> strncasecmp_eq cmd (bytes_of_string ''PERSIST '') 8 then Some s
      else let argv = snd (command_tokenize cmd) in
        if length argv \<noteq> 2
        then Some (put_text (text_line ''(error) ERR wrong number of arguments for 'persist' command'' @
               text_line ''(info) Usage: PERSIST <key>'') s)
        else transmit ''Failed to construct PERSIST command'' (construct_persist_command (argv ! 1) (se_allocs s)) response_cb s)"

definition cmd_keys :: "bytes \<Rightarrow> callback \<Rightarrow> session \<Rightarrow> session option" where
  "cmd_keys cmd response_cb s =
     (if \<not> command_equals cmd (bytes_of_string ''KEYS'') then Some s
      else transmit ''Failed to construct KEYS command'' (construct_keys_command (se_allocs s)) response_cb s)"

text \<open>Unlike the commands, the table of known words is compared with regard to case.  \<open>INCRBY\<close> is
  compared without its space, \<open>INFO\<close> with the end of the line.\<close>

definition known_line :: "bytes \<Rightarrow> bool" where
  "known_line cmd \<longleftrightarrow> strncmp_eq cmd (bytes_of_string ''INCR '') 5 \<or> strncmp_eq cmd (bytes_of_string ''INCRBY '') 6
     \<or> strncmp_eq cmd (bytes_of_string ''GET '') 4 \<or> strncmp_eq cmd (bytes_of_string ''SET '') 4
     \<or> strncmp_eq cmd (bytes_of_string ''PING'') 4 \<or> strncmp_eq cmd (bytes_of_string ''PING '') 5
     \<or> strncmp_eq cmd (bytes_of_string ''DECR '') 5 \<or> strncmp_eq cmd (bytes_of_string ''DECRBY '') 7
     \<or> strncmp_eq cmd (bytes_of_string ''DEL '') 4 \<or> strncmp_eq cmd (bytes_of_string ''EXPIRE '') 7
     \<or> strncmp_eq cmd (bytes_of_string ''TTL '') 4 \<or> strncmp_eq cmd (bytes_of_string ''PERSIST '') 8
     \<or> strncmp_eq cmd (bytes_of_string ''INFO'') 5 \<or> command_equals cmd (bytes_of_string ''KEYS'')"

definition cmd_unknown :: "bytes \<Rightarrow> callback \<Rightarrow> session \<Rightarrow> session option" where
  "cmd_unknown cmd response_cb s = Some (if known_line cmd then s else put_text (text_line ''Unknown command '') s)"

text \<open>Every command of the table is tried on the line, in this order.\<close>

definition command_table :: "(bytes \<Rightarrow> callback \<Rightarrow> session \<Rightarrow> session option) list" where
  "command_table = [cmd_set, cmd_get, cmd_decr, cmd_decr_by, cmd_incr, cmd_incr_by, cmd_ping, cmd_del, cmd_expire,
     cmd_ttl, cmd_persist, cmd_unknown, cmd_info, cmd_keys]"

fun run_commands :: "(bytes \<Rightarrow> callback \<Rightarrow> session \<Rightarrow> session option) list \<Rightarrow> bytes \<Rightarrow> callback \<Rightarrow> session \<Rightarrow> session option" where
  "run_commands [] cmd response_cb s = Some s"
| "run_commands (f # fs) cmd response_cb s = do { s \<leftarrow> f cmd response_cb s; run_commands fs cmd response_cb s }"

definition execute_command :: "bytes \<Rightarrow> callback \<Rightarrow> session \<Rightarrow> session option" where
  "execute_command cmd response_cb s = run_commands command_table cmd response_cb s"

section \<open>Replies\<close>

datatype client_response_kind =
    CLIENT_RESPONSE_ERROR | CLIENT_RESPONSE_OK | CLIENT_RESPONSE_VALUE | CLIENT_RESPONSE_PONG
  | CLIENT_RESPONSE_INFO | CLIENT_RESPONSE_KEYS

record client_response =
  cr_kind :: client_response_kind
  cr_payload :: bytes

text \<open>The outer \<open>None\<close> is a read outside the frame, the inner one the result \<open>false\<close>.\<close>

definition decode_value_response ::
  "bytes \<Rightarrow> nat \<Rightarrow> nat \<Rightarrow> client_response_kind \<Rightarrow> client_response option option" where
  "decode_value_response frame frame_len core_len kind =
     (if core_len < 3 \<or> frame_len < 5 then Some None
      else do {
        payload_len \<leftarrow> rd_u16 frame 3;
        if payload_len \<noteq> core_len - 3 then Some None
        else if frame_len < 5 + payload_len then Some None
        else do {
          payload \<leftarrow> slice frame 5 payload_len;
          Some (Some \<lparr>cr_kind = kind, cr_payload = payload\<rparr>)
        }
      })"

definition decode_response_frame :: "bytes \<Rightarrow> nat \<Rightarrow> client_response option option" where
  "decode_response_frame frame frame_len =
     (if frame_len < 3 then Some None
      else do {
        core_len \<leftarrow> rd_u16 frame 0;
        let total_len = core_len + 2;
        if frame_len < total_len then Some None
        else do {
          response_type \<leftarrow> rd frame 2;
          if core_len = 1
          then Some (if response_type = STATUS_FAILURE then Some \<lparr>cr_kind = CLIENT_RESPONSE_ERROR, cr_payload = []\<rparr>
                     else if response_type = STATUS_SUCCESS then Some \<lparr>cr_kind = CLIENT_RESPONSE_OK, cr_payload = []\<rparr>
                     else None)
          else if response_type = STATUS_SUCCESS then decode_value_response frame total_len core_len CLIENT_RESPONSE_VALUE
          else if response_type = CMD_PING then decode_value_response frame total_len core_len CLIENT_RESPONSE_PONG
          else if response_type = CMD_INFO then decode_value_response frame total_len core_len CLIENT_RESPONSE_INFO
          else if response_type = CMD_KEYS then decode_value_response frame total_len core_len CLIENT_RESPONSE_KEYS
          else Some None
        }
      })"

text \<open>\<open>recv\<close> for up to \<open>n\<close> bytes; what is not taken stays in the socket.\<close>

fun recv_some :: "nat \<Rightarrow> recv_result list \<Rightarrow> recv_result \<times> recv_result list" where
  "recv_some n [] = (Recv_eof, [])"
| "recv_some n (Recv_data d # rs) =
     (if d = [] then (Recv_eof, rs)
      else (Recv_data (take n d), if length d \<le> n then rs else Recv_data (drop n d) # rs))"
| "recv_some n (r # rs) = (r, rs)"

definition recv_weight :: "recv_result list \<Rightarrow> nat" where
  "recv_weight rs = sum_list (map (\<lambda>r. case r of Recv_data d \<Rightarrow> Suc (length d) | _ \<Rightarrow> 1) rs)"

lemma recv_some_progress: "rs \<noteq> [] \<Longrightarrow> 0 < n \<Longrightarrow> recv_weight (snd (recv_some n rs)) < recv_weight rs"
  by (cases "(n, rs)" rule: recv_some.cases) (auto simp: recv_weight_def)

text \<open>The bytes received, whether they are all, and the rest of the script.\<close>

function recv_exact :: "nat \<Rightarrow> bytes \<Rightarrow> recv_result list \<Rightarrow> bytes \<times> bool \<times> recv_result list" where
  "recv_exact len got rs =
     (if length got < len
      then case recv_some (len - length got) rs of
          (Recv_data d, rs) \<Rightarrow> recv_exact len (got @ d) rs
        | (Recv_intr, rs) \<Rightarrow> recv_exact len got rs
        | (_, rs) \<Rightarrow> (got, False, rs)
      else (got, True, rs))"
  by pat_completeness auto

termination
proof (relation "measure (\<lambda>(len, got, rs). recv_weight rs)", goal_cases)
  case (2 len got rs x rs' d)
  then have "rs \<noteq> []" by (cases rs) auto
  with 2 recv_some_progress [of rs "len - length got"] show ?case by (metis in_measure prod.case snd_conv zero_less_diff)
next
  case (3 len got rs x rs')
  then have "rs \<noteq> []" by (cases rs) auto
  with 3 recv_some_progress [of rs "len - length got"] show ?case by (metis in_measure prod.case snd_conv zero_less_diff)
qed simp

declare recv_exact.simps [simp del]

text \<open>Storing bytes in the buffer.\<close>

definition store_at :: "nat \<Rightarrow> bytes \<Rightarrow> bytes \<Rightarrow> bytes" where
  "store_at p d buf = take p buf @ d @ drop (p + length d) buf"

definition read_response :: "session \<Rightarrow> (client_response option \<times> session) option" where
  "read_response s =
     (let (got, ok, rs) = recv_exact 2 [] (se_recvs s);
          s = s\<lparr>se_buffer := store_at 0 got (se_buffer s), se_recvs := rs\<rparr>
      in if \<not> ok then Some (None, s)
         else do {
           core_len \<leftarrow> rd_u16 (se_buffer s) 0;
           let total_len = core_len + 2;
           if total_len > FKVS_CLIENT_READ_BUFFER_SIZE then Some (None, s)
           else let (got, ok, rs) = recv_exact core_len [] (se_recvs s);
                    s = s\<lparr>se_buffer := store_at 2 got (se_buffer s), se_recvs := rs\<rparr>
                in if \<not> ok then Some (None, s)
                   else do {
                     response \<leftarrow> decode_response_frame (se_buffer s) total_len;
                     Some (response, s)
                   }
         })"

text \<open>\<open>%.*s\<close> prints up to a NUL.\<close>

definition bounded_text :: "bytes \<Rightarrow> bytes" where
  "bounded_text payload = takeWhile (\<lambda>b. b \<noteq> 0) payload"

definition print_quoted_payload :: "bytes \<Rightarrow> bytes" where
  "print_quoted_payload payload = [34] @ bounded_text payload @ [34, 32, 10]"

definition print_plain_payload_line :: "bytes \<Rightarrow> bytes" where
  "print_plain_payload_line payload = bounded_text payload @ [10]"

definition print_response :: "client_response \<Rightarrow> bool \<Rightarrow> bytes" where
  "print_response response benchmark_mode =
     (case cr_kind response of
        CLIENT_RESPONSE_ERROR \<Rightarrow> if benchmark_mode then [] else text_line ''(nil) ''
      | CLIENT_RESPONSE_OK \<Rightarrow> if benchmark_mode then [] else text_line ''OK''
      | CLIENT_RESPONSE_VALUE \<Rightarrow>
          if benchmark_mode then []
          else if length (cr_payload response) = 0 then text_line ''OK'' else print_quoted_payload (cr_payload response)
      | CLIENT_RESPONSE_PONG \<Rightarrow>
          if benchmark_mode then []
          else if length (cr_payload response) = 0 then text_line ''PONG'' else print_quoted_payload (cr_payload response)
      | CLIENT_RESPONSE_INFO \<Rightarrow> print_plain_payload_line (cr_payload response)
      | CLIENT_RESPONSE_KEYS \<Rightarrow>
          if length (cr_payload response) = 0 then text_line ''(empty list)'' else print_plain_payload_line (cr_payload response))"

definition command_response_handler :: "session \<Rightarrow> session option" where
  "command_response_handler s = do {
     (response, s) \<leftarrow> read_response s;
     case response of
       None \<Rightarrow> Some s
     | Some r \<Rightarrow> Some (put_text (print_response r (se_benchmark_mode s)) s)
   }"

section \<open>A line sends its request\<close>

definition words_of :: "request \<Rightarrow> bytes list" where
  "words_of r = (case r of
       Req_set k d \<Rightarrow> [bytes_of_string ''SET'', k, d]
     | Req_set_ex k d t \<Rightarrow> [bytes_of_string ''SET'', k, d, bytes_of_string ''EX'', t]
     | Req_get k \<Rightarrow> [bytes_of_string ''GET'', k]
     | Req_incr k \<Rightarrow> [bytes_of_string ''INCR'', k]
     | Req_decr k \<Rightarrow> [bytes_of_string ''DECR'', k]
     | Req_incr_by k d \<Rightarrow> [bytes_of_string ''INCRBY'', k, d]
     | Req_decr_by k d \<Rightarrow> [bytes_of_string ''DECRBY'', k, d]
     | Req_ping d \<Rightarrow> [bytes_of_string ''PING'', d]
     | Req_info \<Rightarrow> [bytes_of_string ''INFO'']
     | Req_del k \<Rightarrow> [bytes_of_string ''DEL'', k]
     | Req_expire k t \<Rightarrow> [bytes_of_string ''EXPIRE'', k, t]
     | Req_ttl k \<Rightarrow> [bytes_of_string ''TTL'', k]
     | Req_persist k \<Rightarrow> [bytes_of_string ''PERSIST'', k]
     | Req_keys \<Rightarrow> [bytes_of_string ''KEYS''])"

text \<open>The line is the verb, then the arguments, quoted in some way, the first after a blank.\<close>

definition writes :: "bytes \<Rightarrow> (bytes \<times> style \<times> bytes) list \<Rightarrow> bytes \<Rightarrow> request \<Rightarrow> bool" where
  "writes verb args line r \<longleftrightarrow> line = line_text (([], Plain, verb) # args) \<and> line_ok (([], Plain, verb) # args)
     \<and> map (snd \<circ> snd) args = tl (words_of r) \<and> (\<forall>w \<in> set (words_of r). length w < 512)
     \<and> (args \<noteq> [] \<longrightarrow> hd (fst (hd args)) = 32)"

lemma writes_tokens:
  assumes "writes verb args line r" and "length verb < 512"
  shows "snd (command_tokenize line) = verb # tl (words_of r)"
proof -
  have "length (words_of r) \<le> 5" by (cases r) (simp_all add: words_of_def)
  moreover have "length args = length (tl (words_of r))" using assms(1) by (metis length_map writes_def)
  ultimately have "length args \<le> 7" by simp
  then have "snd (command_tokenize line) = map (\<lambda>(gap, st, w). take 511 w) (([], Plain, verb) # args)"
    using tokenize_line [of "([], Plain, verb) # args" "[]" "[]"] assms(1) by (simp add: writes_def line_ok_def command_tokenize_def)
  also have "\<dots> = map (take 511 \<circ> (snd \<circ> snd)) (([], Plain, verb) # args)" by (simp add: comp_def split_beta)
  also have "\<dots> = take 511 verb # map (take 511) (tl (words_of r))" using assms(1) by (simp add: writes_def flip: map_map)
  also have "map (take 511) (tl (words_of r)) = tl (words_of r)"
  proof (rule map_idI)
    fix w assume "w \<in> set (tl (words_of r))"
    then have "w \<in> set (words_of r)" by (cases "words_of r") auto
    then have "length w < 512" using assms(1) by (simp add: writes_def)
    then show "take 511 w = w" by simp
  qed
  finally show ?thesis using assms(2) by simp
qed

lemma writes_prefix:
  assumes "writes verb args line r" and "tl (words_of r) \<noteq> []"
  shows "\<exists>more. line = verb @ 32 # more"
proof -
  obtain a as where a: "args = a # as" using assms by (cases args) (auto simp: writes_def)
  obtain gap st w where g: "a = (gap, st, w)" by (cases a) auto
  have "gap \<noteq> []" "hd gap = 32" using assms(1) a g by (auto simp: writes_def line_ok_def)
  then show ?thesis using assms(1) a g by (cases gap) (auto simp: writes_def line_text_def)
qed

text \<open>The words of the commands as bytes.\<close>

lemma verb_bytes:
  "bytes_of_string ''SET'' = [83, 69, 84]" "bytes_of_string ''EX'' = [69, 88]" "bytes_of_string ''GET'' = [71, 69, 84]"
  "bytes_of_string ''INCR'' = [73, 78, 67, 82]" "bytes_of_string ''DECR'' = [68, 69, 67, 82]"
  "bytes_of_string ''INCRBY'' = [73, 78, 67, 82, 66, 89]" "bytes_of_string ''DECRBY'' = [68, 69, 67, 82, 66, 89]"
  "bytes_of_string ''PING'' = [80, 73, 78, 71]" "bytes_of_string ''INFO'' = [73, 78, 70, 79]" "bytes_of_string ''DEL'' = [68, 69, 76]"
  "bytes_of_string ''EXPIRE'' = [69, 88, 80, 73, 82, 69]" "bytes_of_string ''TTL'' = [84, 84, 76]"
  "bytes_of_string ''PERSIST'' = [80, 69, 82, 83, 73, 83, 84]" "bytes_of_string ''KEYS'' = [75, 69, 89, 83]"
  "bytes_of_string ''SET '' = [83, 69, 84, 32]" "bytes_of_string ''GET '' = [71, 69, 84, 32]"
  "bytes_of_string ''INCR '' = [73, 78, 67, 82, 32]" "bytes_of_string ''DECR '' = [68, 69, 67, 82, 32]"
  "bytes_of_string ''INCRBY '' = [73, 78, 67, 82, 66, 89, 32]" "bytes_of_string ''DECRBY '' = [68, 69, 67, 82, 66, 89, 32]"
  "bytes_of_string ''PING '' = [80, 73, 78, 71, 32]" "bytes_of_string ''DEL '' = [68, 69, 76, 32]"
  "bytes_of_string ''EXPIRE '' = [69, 88, 80, 73, 82, 69, 32]" "bytes_of_string ''TTL '' = [84, 84, 76, 32]"
  "bytes_of_string ''PERSIST '' = [80, 69, 82, 83, 73, 83, 84, 32]" "bytes_of_string ''PONG'' = [80, 79, 78, 71]"
  by (simp_all add: bytes_of_string_def)

lemma tolower_letters [simp]:
  "tolower 32 = 32" "tolower 65 = 97" "tolower 66 = 98" "tolower 67 = 99" "tolower 68 = 100" "tolower 69 = 101" "tolower 70 = 102"
  "tolower 71 = 103" "tolower 73 = 105" "tolower 75 = 107" "tolower 76 = 108" "tolower 78 = 110" "tolower 79 = 111" "tolower 80 = 112"
  "tolower 82 = 114" "tolower 83 = 115" "tolower 84 = 116" "tolower 88 = 120" "tolower 89 = 121"
  by (simp_all add: tolower_def)

lemmas cmd_defs = cmd_set_def cmd_get_def cmd_decr_def cmd_decr_by_def cmd_incr_def cmd_incr_by_def cmd_ping_def cmd_del_def
  cmd_expire_def cmd_ttl_def cmd_persist_def cmd_unknown_def cmd_info_def cmd_keys_def

text \<open>The guards of the commands on the start of a line.\<close>

definition guards :: "bytes \<Rightarrow> bool list" where
  "guards line = [strncasecmp_eq line [83, 69, 84, 32] 4, strncasecmp_eq line [71, 69, 84, 32] 4,
     strncasecmp_eq line [68, 69, 67, 82, 32] 5, strncasecmp_eq line [68, 69, 67, 82, 66, 89, 32] 7,
     strncasecmp_eq line [73, 78, 67, 82, 32] 5, strncasecmp_eq line [73, 78, 67, 82, 66, 89, 32] 7,
     strncmp_eq line [80, 73, 78, 71, 32] 5 \<or> strncmp_eq line [80, 73, 78, 71] 4, strncasecmp_eq line [68, 69, 76, 32] 4,
     strncasecmp_eq line [69, 88, 80, 73, 82, 69, 32] 7, strncasecmp_eq line [84, 84, 76, 32] 4,
     strncasecmp_eq line [80, 69, 82, 83, 73, 83, 84, 32] 8, \<not> known_line line, strncasecmp_eq line [73, 78, 70, 79] 4,
     command_equals line [75, 69, 89, 83]]"

lemma run_commands_append:
  "run_commands (as @ bs) line cb s = do { s \<leftarrow> run_commands as line cb s; run_commands bs line cb s }"
proof (induction as arbitrary: s)
  case (Cons a as)
  then show ?case by (cases "a line cb s") simp_all
qed simp

text \<open>A command whose guard fails does nothing.\<close>

lemma run_only:
  assumes "length fs = length gs" and "\<forall>i < length fs. gs ! i \<longrightarrow> i = n" and "n < length fs"
    and "\<forall>i < length fs. \<not> gs ! i \<longrightarrow> (\<forall>s. (fs ! i) line cb s = Some s)"
  shows "run_commands fs line cb s = (fs ! n) line cb s"
proof -
  have skip: "run_commands fs line cb s = Some s" if "\<forall>f \<in> set fs. \<forall>s. f line cb s = Some s" for fs s
    using that by (induction fs arbitrary: s) auto
  have fs: "fs = take n fs @ fs ! n # drop (Suc n) fs" using assms(3) by (simp add: id_take_nth_drop)
  have none: "f line cb s = Some s" if "f \<in> set (take n fs) \<or> f \<in> set (drop (Suc n) fs)" for f s
  proof -
    from that have "\<exists>i < length fs. i \<noteq> n \<and> f = fs ! i"
    proof
      assume "f \<in> set (take n fs)"
      then obtain i where "i < n" "f = fs ! i" by (auto simp: in_set_conv_nth)
      then show ?thesis using assms(3) by (intro exI [of _ i]) simp
    next
      assume "f \<in> set (drop (Suc n) fs)"
      then obtain i where "i < length fs - Suc n" "f = fs ! (Suc n + i)" by (auto simp: in_set_conv_nth)
      then show ?thesis by (intro exI [of _ "Suc n + i"]) simp
    qed
    then show ?thesis using assms(2,4) by blast
  qed
  have "run_commands fs line cb s = do { s \<leftarrow> run_commands (take n fs) line cb s; run_commands (fs ! n # drop (Suc n) fs) line cb s }"
    using run_commands_append [of "take n fs"] fs by metis
  also have "\<dots> = (fs ! n) line cb s"
    using skip [of "take n fs"] skip [of "drop (Suc n) fs"] none by (cases "(fs ! n) line cb s") simp_all
  finally show ?thesis .
qed

lemma guards_skip:
  assumes "i < length command_table" and "\<not> guards line ! i"
  shows "(command_table ! i) line cb s = Some s"
proof -
  have "i < 14" using assms(1) by (simp add: command_table_def)
  then have "i \<in> {0, 1, 2, 3, 4, 5, 6, 7, 8, 9, 10, 11, 12, 13}" by (simp add: numeral_eq_Suc less_Suc_eq)
  then show ?thesis using assms(2) by (auto simp: command_table_def guards_def cmd_defs verb_bytes)
qed

lemma execute_only:
  assumes "\<forall>i < 14. guards line ! i \<longrightarrow> i = n" and "n < 14"
  shows "execute_command line cb s = (command_table ! n) line cb s"
proof -
  have l: "length command_table = 14" "length (guards line) = 14" by (simp_all add: command_table_def guards_def)
  show ?thesis unfolding execute_command_def
    by (rule run_only [where gs = "guards line"]) (use assms l guards_skip in auto)
qed

text \<open>The place of a request's command in the table.\<close>

definition command_index :: "request \<Rightarrow> nat" where
  "command_index r = (case r of Req_set _ _ \<Rightarrow> 0 | Req_set_ex _ _ _ \<Rightarrow> 0 | Req_get _ \<Rightarrow> 1 | Req_decr _ \<Rightarrow> 2 | Req_decr_by _ _ \<Rightarrow> 3
     | Req_incr _ \<Rightarrow> 4 | Req_incr_by _ _ \<Rightarrow> 5 | Req_ping _ \<Rightarrow> 6 | Req_del _ \<Rightarrow> 7 | Req_expire _ _ \<Rightarrow> 8 | Req_ttl _ \<Rightarrow> 9
     | Req_persist _ \<Rightarrow> 10 | Req_info \<Rightarrow> 12 | Req_keys \<Rightarrow> 13)"

lemma guards_bare:
  "guards [73, 78, 70, 79] = [False, False, False, False, False, False, False, False, False, False, False, False, True, False]"
  "guards [75, 69, 89, 83] = [False, False, False, False, False, False, False, False, False, False, False, False, False, True]"
  by (simp_all add: guards_def strncasecmp_eq_def strncmp_eq_def command_equals_def known_line_def verb_bytes isspace_def)

lemma guards_verb:
  "guards ([83, 69, 84] @ 32 # t) = [True, False, False, False, False, False, False, False, False, False, False, False, False, False]"
  "guards ([71, 69, 84] @ 32 # t) = [False, True, False, False, False, False, False, False, False, False, False, False, False, False]"
  "guards ([68, 69, 67, 82] @ 32 # t) = [False, False, True, False, False, False, False, False, False, False, False, False, False, False]"
  "guards ([68, 69, 67, 82, 66, 89] @ 32 # t) = [False, False, False, True, False, False, False, False, False, False, False, False, False, False]"
  "guards ([73, 78, 67, 82] @ 32 # t) = [False, False, False, False, True, False, False, False, False, False, False, False, False, False]"
  "guards ([73, 78, 67, 82, 66, 89] @ 32 # t) = [False, False, False, False, False, True, False, False, False, False, False, False, False, False]"
  "guards ([80, 73, 78, 71] @ 32 # t) = [False, False, False, False, False, False, True, False, False, False, False, False, False, False]"
  "guards ([68, 69, 76] @ 32 # t) = [False, False, False, False, False, False, False, True, False, False, False, False, False, False]"
  "guards ([69, 88, 80, 73, 82, 69] @ 32 # t) = [False, False, False, False, False, False, False, False, True, False, False, False, False, False]"
  "guards ([84, 84, 76] @ 32 # t) = [False, False, False, False, False, False, False, False, False, True, False, False, False, False]"
  "guards ([80, 69, 82, 83, 73, 83, 84] @ 32 # t) = [False, False, False, False, False, False, False, False, False, False, True, False, False, False]"
  by (simp_all add: guards_def strncasecmp_eq_def strncmp_eq_def command_equals_def known_line_def verb_bytes isspace_def)

lemma guards_request:
  assumes "writes (hd (words_of r)) args line r"
  shows "guards line = map (\<lambda>i. i = command_index r) [0, 1, 2, 3, 4, 5, 6, 7, 8, 9, 10, 11, 12, 13]"
proof (cases "tl (words_of r) = []")
  case True
  then have "args = []" using assms by (auto simp: writes_def)
  then have "line = hd (words_of r)" using assms by (simp add: writes_def line_text_def)
  with True show ?thesis by (cases r) (simp_all add: words_of_def verb_bytes guards_bare command_index_def)
next
  case False
  then obtain t where "line = hd (words_of r) @ 32 # t" using writes_prefix [OF assms] by blast
  then show ?thesis using False
    by (cases r) (simp_all only: words_of_def verb_bytes guards_verb command_index_def request.case list.sel list.simps,
      simp_all)
qed

lemma command_transmits:
  assumes "snd (command_tokenize line) = verb # tl (words_of r)" and "guards line ! command_index r"
  shows "\<exists>complaint. \<forall>cb s. (command_table ! command_index r) line cb s = transmit complaint (construct r (se_allocs s)) cb s"
  using assms by (cases r)
    (auto simp: command_table_def command_index_def cmd_defs words_of_def guards_def verb_bytes strcasecmp_eq_def)

definition new_session :: session where
  "new_session = \<lparr>se_fd = 3, se_benchmark_mode = False, se_buffer = replicate FKVS_CLIENT_READ_BUFFER_SIZE 0, se_buf_used = 0,
     se_frame_need = -1, se_sent = [], se_recvs = [], se_sends = [], se_allocs = [], se_out = [], se_err = []\<rparr>"

text \<open>Writing any of the fourteen requests as a line, with its verb
  in capitals and its arguments quoted and spaced in any way, makes exactly one command of
  the table act: it sends the frame of this request, once, and hands over to the reply;
  nothing is printed before that.\<close>

lemma line_sends_request:
  assumes "writes (hd (words_of r)) args line r" and "construct r (se_allocs s) = (Some frame, a)" and "se_fd s > 0"
  shows "execute_command line response_cb s = response_cb (send_bytes frame (s\<lparr>se_allocs := a\<rparr>))"
proof -
  have n: "command_index r < 14" by (cases r) (simp_all add: command_index_def)
  have g: "guards line ! i = (i = command_index r)" if "i < 14" for i
  proof -
    from that have "i \<in> {0, 1, 2, 3, 4, 5, 6, 7, 8, 9, 10, 11, 12, 13}" by (simp add: numeral_eq_Suc less_Suc_eq)
    then show ?thesis unfolding guards_request [OF assms(1)] by auto
  qed
  have "length (hd (words_of r)) < 512" using assms(1) by (cases r) (simp_all add: writes_def words_of_def)
  from command_transmits [OF writes_tokens [OF assms(1) this]] g [OF n] obtain complaint where
    t: "(command_table ! command_index r) line response_cb s = transmit complaint (construct r (se_allocs s)) response_cb s" by blast
  have "execute_command line response_cb s = (command_table ! command_index r) line response_cb s"
    using g n by (intro execute_only) auto
  moreover have "frame = request_frame r"
    using assms(2) unfolding construct_frame by (auto simp: malloc_frame_def split: prod.splits if_splits)
  then have "length frame > 0" by (cases r) (simp_all flip: length_greater_0_conv)
  ultimately show ?thesis using t assms(2,3) by (simp add: transmit_def)
qed

section \<open>The case of the verb\<close>

lemma strncmp_case: "strncmp_eq a b n \<Longrightarrow> strncasecmp_eq a b n"
  by (simp add: strncmp_eq_def strncasecmp_eq_def)

lemma space_lower: "isspace b \<Longrightarrow> isspace (tolower b)"
  by (auto simp: isspace_def tolower_def word_le_nat_alt)

lemma known_line_case:
  assumes "known_line (verb @ 32 # t)" and "map tolower verb = map tolower (hd (words_of r))" and "tl (words_of r) \<noteq> []"
  shows "verb = hd (words_of r)"
proof -
  let ?line = "verb @ 32 # t" and ?upper = "hd (words_of r) @ 32 # t"
  have len: "length verb = length (hd (words_of r))" using assms(2) by (rule map_eq_imp_length_eq)
  have "map tolower ?line = map tolower ?upper" using assms(2) by simp
  then have same: "strncasecmp_eq ?line w n = strncasecmp_eq ?upper w n" for w n
    unfolding strncasecmp_eq_def by (metis take_map)
  have both: "strncmp_eq ?line w n \<Longrightarrow> strncmp_eq ?line w n \<and> strncasecmp_eq ?upper w n" for w n
    using strncmp_case [of ?line w n] same by blast
  obtain b v where v: "verb = b # v" "tolower b = tolower (hd (hd (words_of r)))"
    using assms(2,3) by (cases verb; cases r) (auto simp: words_of_def verb_bytes)
  then have "\<not> isspace b" using assms(3) space_lower [of b] by (cases r) (auto simp: words_of_def verb_bytes isspace_def)
  then have "dropWhile isspace ?line = ?line" using v(1) by simp
  then have keys: "command_equals ?line [75, 69, 89, 83] \<Longrightarrow> strncasecmp_eq ?upper [75, 69, 89, 83] 4"
    using same by (simp add: command_equals_def Let_def numeral_eq_Suc)
  have own: "verb = hd (words_of r)" if "strncmp_eq ?line w n"
    and "(w, n) \<in> {([73, 78, 67, 82, 32], 5), ([73, 78, 67, 82, 66, 89, 32], 6), ([71, 69, 84, 32], 4), ([83, 69, 84, 32], 4),
      ([80, 73, 78, 71], 4), ([80, 73, 78, 71, 32], 5), ([68, 69, 67, 82, 32], 5), ([68, 69, 67, 82, 66, 89, 32], 7),
      ([68, 69, 76, 32], 4), ([69, 88, 80, 73, 82, 69, 32], 7), ([84, 84, 76, 32], 4), ([80, 69, 82, 83, 73, 83, 84, 32], 8),
      ([73, 78, 70, 79], 5)}" for w n
    using that(2) both [OF that(1)] len assms(3)
    by (cases r) (auto simp: words_of_def verb_bytes strncasecmp_eq_def strncmp_eq_def)
  have "\<not> strncasecmp_eq ?upper [75, 69, 89, 83] 4" using assms(3)
    by (cases r) (simp_all add: words_of_def verb_bytes strncasecmp_eq_def)
  then show ?thesis using assms(1) keys unfolding known_line_def verb_bytes by (elim disjE) (erule own, simp | blast)+
qed

text \<open>The guards of a line whose verb is not written in capitals.\<close>

lemma guards_other_case:
  assumes "writes verb args line r" and "map tolower verb = map tolower (hd (words_of r))" and "verb \<noteq> hd (words_of r)"
    and "tl (words_of r) \<noteq> []" and "command_index r \<noteq> 6" and "i < 14"
  shows "guards line ! i \<longleftrightarrow> i = command_index r \<or> i = 11"
proof -
  obtain t where l: "line = verb @ 32 # t" using writes_prefix [OF assms(1,4)] by blast
  let ?upper = "hd (words_of r) @ 32 # t"
  have "map tolower line = map tolower ?upper" using assms(2) l by simp
  then have same: "strncasecmp_eq line w n = strncasecmp_eq ?upper w n" for w n
    unfolding strncasecmp_eq_def by (metis take_map)
  have k: "\<not> known_line line" using known_line_case [OF _ assms(2,4), of t] assms(3) l by blast
  have "\<not> command_equals line [75, 69, 89, 83]" "\<not> strncmp_eq line [80, 73, 78, 71, 32] 5" "\<not> strncmp_eq line [80, 73, 78, 71] 4"
    using k by (auto simp: known_line_def verb_bytes)
  then have "guards line = map (\<lambda>i. i = command_index r \<or> i = 11) [0, 1, 2, 3, 4, 5, 6, 7, 8, 9, 10, 11, 12, 13]"
    using assms(4,5) k unfolding guards_def same
    by (cases r) (simp_all add: words_of_def verb_bytes command_index_def strncasecmp_eq_def)
  moreover from assms(6) have "i \<in> {0, 1, 2, 3, 4, 5, 6, 7, 8, 9, 10, 11, 12, 13}" by (simp add: numeral_eq_Suc less_Suc_eq)
  ultimately show ?thesis by auto
qed

text \<open>C39: A command in lower case is executed and called unknown.  When the verb of a request with
  arguments is not written in capitals, the request is sent all the same, its reply is
  shown, and the client then prints that the command is unknown.  PING alone insists on
  capitals.\<close>

theorem lower_case_called_unknown:
  assumes "writes verb args line r" and "map tolower verb = map tolower (hd (words_of r))" and "verb \<noteq> hd (words_of r)"
    and "tl (words_of r) \<noteq> []" and "\<forall>d. r \<noteq> Req_ping d"
    and "construct r (se_allocs s) = (Some frame, a)" and "se_fd s > 0"
  shows "execute_command line response_cb s =
    Option.bind (response_cb (send_bytes frame (s\<lparr>se_allocs := a\<rparr>))) (\<lambda>s. Some (put_text (text_line ''Unknown command '') s))"
proof -
  have n: "command_index r \<le> 10" "command_index r \<noteq> 6" using assms(4,5) by (cases r; simp add: command_index_def words_of_def)+
  note g = guards_other_case [OF assms(1-4) n(2)]
  have "length verb = length (hd (words_of r))" using assms(2) by (rule map_eq_imp_length_eq)
  then have "length verb < 512" using assms(1,4) by (cases r) (simp_all add: writes_def words_of_def verb_bytes)
  from command_transmits [OF writes_tokens [OF assms(1) this]] g [of "command_index r"] n obtain complaint where
    t: "(command_table ! command_index r) line response_cb s = transmit complaint (construct r (se_allocs s)) response_cb s" by auto
  have frame: "frame = request_frame r"
    using assms(6) unfolding construct_frame by (auto simp: malloc_frame_def split: prod.splits if_splits)
  then have "length frame > 0" by (cases r) (simp_all flip: length_greater_0_conv)
  then have tr: "(command_table ! command_index r) line response_cb s = response_cb (send_bytes frame (s\<lparr>se_allocs := a\<rparr>))"
    using t assms(6,7) by (simp add: transmit_def)
  have split: "command_table = take 11 command_table @ [cmd_unknown, cmd_info, cmd_keys]" by (simp add: command_table_def)
  have skip: "(command_table ! i) line response_cb s = Some s" if "i < 14" "i \<noteq> command_index r" "i \<noteq> 11" for i s
    using guards_skip [of i line] g [of i] that by (simp add: command_table_def)
  have first: "run_commands (take 11 command_table) line response_cb s = (command_table ! command_index r) line response_cb s"
  proof -
    have "run_commands (take 11 command_table) line response_cb s = (take 11 command_table ! command_index r) line response_cb s"
    proof (rule run_only [where gs = "map (\<lambda>i. i = command_index r) [0..<11]"])
      have len: "length (take 11 command_table) = 11" by (simp add: command_table_def)
      show "length (take 11 command_table) = length (map (\<lambda>i. i = command_index r) [0..<11])" using len by simp
      show "command_index r < length (take 11 command_table)" using len n by simp
      show "\<forall>i < length (take 11 command_table). map (\<lambda>i. i = command_index r) [0..<11] ! i \<longrightarrow> i = command_index r" using len by simp
      show "\<forall>i < length (take 11 command_table). \<not> map (\<lambda>i. i = command_index r) [0..<11] ! i
          \<longrightarrow> (\<forall>s. (take 11 command_table ! i) line response_cb s = Some s)"
        using len skip by simp
    qed
    then show ?thesis using n by simp
  qed
  have last: "run_commands [cmd_unknown, cmd_info, cmd_keys] line response_cb s = Some (put_text (text_line ''Unknown command '') s)" for s
    using skip [of 12] skip [of 13] g [of 11] n by (simp add: command_table_def cmd_unknown_def guards_def)
  have "execute_command line response_cb s =
      Option.bind (run_commands (take 11 command_table) line response_cb s) (run_commands [cmd_unknown, cmd_info, cmd_keys] line response_cb)"
    unfolding execute_command_def using run_commands_append [of "take 11 command_table"] split by metis
  then show ?thesis unfolding first tr using last by (cases "response_cb (send_bytes frame (s\<lparr>se_allocs := a\<rparr>))") simp_all
qed

theorem lower_case_called_unknown_witness:
  "execute_command (bytes_of_string ''get k'') Some new_session =
    Some (new_session\<lparr>se_sent := [0, 4, 2, 0, 1, 107], se_out := text_line ''Unknown command ''\<rparr>)"
proof -
  let ?r = "Req_get [107]"
  have "writes [103, 101, 116] [([32], Plain, [107])] (bytes_of_string ''get k'') ?r"
    by (simp add: writes_def words_of_def line_ok_def line_text_def bytes_of_string_def isspace_def)
  moreover have "construct ?r [] = (Some [0, 4, 2, 0, 1, 107], [])"
    unfolding construct_frame by (simp add: malloc_frame_def key_frame_def put_u16_def drop_bit_eq_div)
  moreover have "map tolower [103, 101, 116] = map tolower (hd (words_of ?r))" by (simp add: words_of_def verb_bytes tolower_def)
  moreover have "[103, 101, 116] \<noteq> hd (words_of ?r)" "tl (words_of ?r) \<noteq> []" by (simp_all add: words_of_def verb_bytes)
  ultimately show ?thesis
    by (subst lower_case_called_unknown [where r = ?r and verb = "[103, 101, 116]"]) (auto simp: send_bytes_def new_session_def put_text_def)
qed

section \<open>Reading a reply\<close>

text \<open>What the response means to the client.\<close>

fun response_of :: "response \<Rightarrow> client_response" where
  "response_of Resp_ok = \<lparr>cr_kind = CLIENT_RESPONSE_OK, cr_payload = []\<rparr>"
| "response_of Resp_error = \<lparr>cr_kind = CLIENT_RESPONSE_ERROR, cr_payload = []\<rparr>"
| "response_of (Resp_value d) = \<lparr>cr_kind = CLIENT_RESPONSE_VALUE, cr_payload = d\<rparr>"
| "response_of (Resp_keys d) = \<lparr>cr_kind = CLIENT_RESPONSE_KEYS, cr_payload = d\<rparr>"
| "response_of (Resp_info d) = \<lparr>cr_kind = CLIENT_RESPONSE_INFO, cr_payload = d\<rparr>"
| "response_of (Resp_pong d) = \<lparr>cr_kind = CLIENT_RESPONSE_PONG, cr_payload = d\<rparr>"

lemma data_frame_is_key_frame: "data_frame tag d = key_frame tag d"
  by (simp add: data_frame_def key_frame_def add.commute)

lemma decode_encoded:
  assumes "response_size resp + 3 \<le> UINT16_MAX"
  shows "decode_response_frame (encode_response resp @ rest) (length (encode_response resp)) = Some (Some (response_of resp))"
proof -
  have data: "decode_response_frame (data_frame tag d @ rest) (length (data_frame tag d)) =
      (if tag = STATUS_SUCCESS then Some (Some \<lparr>cr_kind = CLIENT_RESPONSE_VALUE, cr_payload = d\<rparr>)
       else if tag = CMD_PING then Some (Some \<lparr>cr_kind = CLIENT_RESPONSE_PONG, cr_payload = d\<rparr>)
       else if tag = CMD_INFO then Some (Some \<lparr>cr_kind = CLIENT_RESPONSE_INFO, cr_payload = d\<rparr>)
       else if tag = CMD_KEYS then Some (Some \<lparr>cr_kind = CLIENT_RESPONSE_KEYS, cr_payload = d\<rparr>)
       else Some None)" if "length d + 3 \<le> UINT16_MAX" for tag d
  proof -
    note reads = key_frame_reads [OF that, of tag rest]
    have "decode_value_response (key_frame tag d @ rest) (length d + 3 + 2) (length d + 3) kind = Some (Some \<lparr>cr_kind = kind, cr_payload = d\<rparr>)" for kind
      using reads by (simp add: decode_value_response_def)
    then show ?thesis using reads by (auto simp: data_frame_is_key_frame decode_response_frame_def)
  qed
  show ?thesis using assms
    by (cases resp) (simp_all add: data, simp_all add: decode_response_frame_def rd_u16_def rd_def get_u16_arith)
qed

text \<open>The connection holds a stream of bytes; interruptions and the way it is cut do not matter.\<close>

fun stream_of :: "recv_result list \<Rightarrow> bytes option" where
  "stream_of [] = Some []"
| "stream_of (Recv_data d # rs) = (if d = [] then None else map_option (\<lambda>t. d @ t) (stream_of rs))"
| "stream_of (Recv_intr # rs) = stream_of rs"
| "stream_of (r # rs) = None"

lemma recv_exact_stream:
  assumes "stream_of rs = Some t" and "len \<le> length got + length t" and "length got \<le> len"
  shows "\<exists>rs'. recv_exact len got rs = (got @ take (len - length got) t, True, rs') \<and> stream_of rs' = Some (drop (len - length got) t)"
  using assms
proof (induction rs arbitrary: got t rule: stream_of.induct)
  case 1
  then show ?case by (simp add: recv_exact.simps)
next
  case (2 d rs)
  obtain t' where t: "d \<noteq> []" "stream_of rs = Some t'" "t = d @ t'" using 2(2) by (auto split: if_splits)
  show ?case
  proof (cases "length got < len")
    case False
    then show ?thesis using 2(2-4) by (simp add: recv_exact.simps)
  next
    case lt: True
    show ?thesis
    proof (cases "length d \<le> len - length got")
      case True
      have "recv_exact len got (Recv_data d # rs) = recv_exact len (got @ d) rs"
        using lt t(1) True by (simp add: recv_exact.simps [of len got "Recv_data d # rs"])
      moreover have "len \<le> length (got @ d) + length t'" "length (got @ d) \<le> len" using 2(3) t(3) True lt by simp_all
      ultimately show ?thesis using 2(1) [OF t(1,2), of "got @ d"] t(3) True by simp
    next
      case False
      have "recv_exact len got (Recv_data d # rs) = recv_exact len (got @ take (len - length got) d) (Recv_data (drop (len - length got) d) # rs)"
        using lt t(1) False by (simp add: recv_exact.simps [of len got "Recv_data d # rs"])
      also have "\<dots> = (got @ take (len - length got) d, True, Recv_data (drop (len - length got) d) # rs)"
        using lt False by (simp add: recv_exact.simps)
      finally show ?thesis using t False by simp
    qed
  qed
next
  case (3 rs)
  show ?case
  proof (cases "length got < len")
    case True
    then have "recv_exact len got (Recv_intr # rs) = recv_exact len got rs" by (simp add: recv_exact.simps [of len got "Recv_intr # rs"])
    then show ?thesis using 3 by simp
  next
    case False
    then show ?thesis using 3(2-4) by (simp add: recv_exact.simps)
  qed
qed simp_all

lemma encode_response_size: "length (encode_response resp) \<ge> 3" "length (encode_response resp) \<le> response_size resp + 5"
  by (cases resp; simp add: data_frame_def)+

lemma encode_response_core:
  assumes "response_size resp + 3 \<le> UINT16_MAX"
  shows "rd_u16 (encode_response resp @ rest) 0 = Some (length (encode_response resp) - 2)"
  using assms key_frame_reads(1) by (cases resp)
    (simp_all add: data_frame_is_key_frame add.commute, simp_all add: rd_u16_def rd_def get_u16_arith)

lemma three_bytes: "3 \<le> length f \<Longrightarrow> \<exists>a b c g. f = a # b # c # g"
  by (cases f; cases "tl f"; cases "tl (tl f)") auto

lemma store_at_twice:
  assumes "3 \<le> length f"
  shows "store_at 2 (drop 2 f) (store_at 0 (take 2 f) buf) = f @ drop (length f) buf"
    and "rd_u16 (store_at 0 (take 2 f) buf) 0 = rd_u16 (f @ rest) 0"
proof -
  from three_bytes [OF assms] obtain a b c g where f: "f = a # b # c # g" by blast
  show "store_at 2 (drop 2 f) (store_at 0 (take 2 f) buf) = f @ drop (length f) buf"
    by (simp add: f store_at_def)
  show "rd_u16 (store_at 0 (take 2 f) buf) 0 = rd_u16 (f @ rest) 0" by (simp add: f store_at_def rd_u16_def rd_def)
qed

lemma read_response_stream:
  assumes "stream_of (se_recvs s) = Some (encode_response resp @ rest)" and "length (encode_response resp) \<le> FKVS_CLIENT_READ_BUFFER_SIZE"
    and "length (se_buffer s) = FKVS_CLIENT_READ_BUFFER_SIZE" and "response_size resp + 3 \<le> UINT16_MAX"
  shows "\<exists>buf rs. read_response s = Some (Some (response_of resp), s\<lparr>se_buffer := buf, se_recvs := rs\<rparr>) \<and> stream_of rs = Some rest
    \<and> length buf = FKVS_CLIENT_READ_BUFFER_SIZE"
proof -
  let ?f = "encode_response resp"
  note size = encode_response_size(1) [of resp]
  from recv_exact_stream [OF assms(1), of 2 "[]"] size obtain rs1 where
    r1: "recv_exact 2 [] (se_recvs s) = (take 2 ?f, True, rs1)" "stream_of rs1 = Some (drop 2 ?f @ rest)" by auto
  let ?buf1 = "store_at 0 (take 2 ?f) (se_buffer s)"
  have c: "rd_u16 ?buf1 0 = Some (length ?f - 2)" 
    using store_at_twice(2) [OF size, of "se_buffer s" rest] encode_response_core [OF assms(4), of rest] by simp
  from recv_exact_stream [OF r1(2), of "length ?f - 2" "[]"] obtain rs2 where
    r2: "recv_exact (length ?f - 2) [] rs1 = (drop 2 ?f, True, rs2)" "stream_of rs2 = Some rest" by auto
  have buf2: "store_at 2 (drop 2 ?f) ?buf1 = ?f @ drop (length ?f) (se_buffer s)" by (rule store_at_twice(1) [OF size])
  have "length ?f - 2 + 2 = length ?f" using size by simp
  then have "read_response s = Some (Some (response_of resp), s\<lparr>se_buffer := ?f @ drop (length ?f) (se_buffer s), se_recvs := rs2\<rparr>)"
    using r1(1) c r2(1) buf2 assms(2) decode_encoded [OF assms(4)] by (simp add: read_response_def)
  then show ?thesis using r2(2) assms(2,3)
    by (intro exI [of _ "?f @ drop (length ?f) (se_buffer s)"] exI [of _ rs2]) simp
qed

lemma handler_shows_response:
  assumes "stream_of (se_recvs s) = Some (encode_response resp @ rest)" and "length (encode_response resp) \<le> FKVS_CLIENT_READ_BUFFER_SIZE"
    and "length (se_buffer s) = FKVS_CLIENT_READ_BUFFER_SIZE" and "response_size resp + 3 \<le> UINT16_MAX"
  shows "\<exists>s'. command_response_handler s = Some s' \<and> stream_of (se_recvs s') = Some rest
    \<and> se_out s' = se_out s @ print_response (response_of resp) (se_benchmark_mode s) \<and> se_sent s' = se_sent s"
  using read_response_stream [OF assms] by (auto simp: command_response_handler_def put_text_def)

end
