(* ===== verification/Config.thy ===== *)
theory Config
  imports Server_State Tokenizer
begin

text \<open>
  \<open>src/config.c\<close>: how the configuration files of the server and of the command line client
  are read.  A file is the list of its bytes.  Proved: whatever is in the file, a server
  configuration that is accepted has every field in its range.
\<close>

section \<open>Reading lines\<close>

text \<open>\<open>fgets\<close> with a buffer of \<open>n\<close> bytes: the line, with its newline if it fits, and the rest of
  the file.  A longer line is read in pieces.\<close>

definition fgets :: "nat \<Rightarrow> bytes \<Rightarrow> bytes \<times> bytes" where
  "fgets n file =
     (let body = takeWhile (\<lambda>b. b \<noteq> 10) file;
          line = take (n - 1) (if length body < length file then body @ [10] else body)
      in (line, drop (length line) file))"

text \<open>What a C function sees of a buffer that holds a NUL.\<close>

definition c_string :: "bytes \<Rightarrow> bytes" where
  "c_string s = takeWhile (\<lambda>b. b \<noteq> 0) s"

text \<open>\<open>%ns\<close> and \<open>sscanf(line, "%ns %511s", key, value) == 2\<close>.\<close>

definition scan_word :: "nat \<Rightarrow> bytes \<Rightarrow> (bytes \<times> bytes) option" where
  "scan_word n s =
     (let s = dropWhile isspace s; w = take n (takeWhile (\<lambda>b. \<not> isspace b) s)
      in if w = [] then None else Some (w, drop (length w) s))"

definition scan_pair :: "nat \<Rightarrow> bytes \<Rightarrow> (bytes \<times> bytes) option" where
  "scan_pair n line = do {
     (k, s) \<leftarrow> scan_word n line;
     (v, s) \<leftarrow> scan_word 511 s;
     Some (k, v)
   }"

text \<open>A comment or an empty line.\<close>

definition skipped :: "bytes \<Rightarrow> bool" where
  "skipped line \<longleftrightarrow> c_string line = [] \<or> hd line = 35"

section \<open>The server\<close>

text \<open>The reasons to give up; the process then ends.\<close>

datatype config_error = Cannot_open | Bad_number bytes | Bad_truth bytes | Out_of_memory

definition parse_config_i64 :: "bytes \<Rightarrow> bytes \<Rightarrow> int \<Rightarrow> int \<Rightarrow> config_error + int" where
  "parse_config_i64 key text min_value max_value =
     (case fkvs_parse_i64_decimal text min_value max_value of None \<Rightarrow> Inl (Bad_number key) | Some v \<Rightarrow> Inr v)"

definition set_server_bind_address :: "bytes \<Rightarrow> server \<times> allocs \<Rightarrow> config_error + server \<times> allocs" where
  "set_server_bind_address text st =
     (let (srv, a) = st; (ok, a) = alloc a
      in if \<not> ok then Inl Out_of_memory
         else Inr (srv\<lparr>sv_bind_address := Some text, sv_owns_bind_address := True\<rparr>, a))"

definition parse_truth :: "bytes \<Rightarrow> bytes \<Rightarrow> config_error + bool" where
  "parse_truth key text =
     (if text = bytes_of_string ''true'' then Inr True
      else if text = bytes_of_string ''false'' then Inr False else Inl (Bad_truth key))"

definition on_ok :: "'e + 'a \<Rightarrow> ('a \<Rightarrow> 'e + 'b) \<Rightarrow> 'e + 'b" where
  "on_ok r f = (case r of Inl e \<Rightarrow> Inl e | Inr x \<Rightarrow> f x)"

text \<open>One setting.  The source compares the key with each name in turn.\<close>

definition apply_setting :: "bytes \<Rightarrow> bytes \<Rightarrow> server \<times> allocs \<Rightarrow> config_error + server \<times> allocs" where
  "apply_setting key text st =
     (let (srv, a) = st in
      if key = bytes_of_string ''port''
      then on_ok (parse_config_i64 key text 1 65535) (\<lambda>v. Inr (srv\<lparr>sv_port := v\<rparr>, a))
      else if key = bytes_of_string ''bind'' then set_server_bind_address text st
      else if key = bytes_of_string ''event-loop-max-events''
      then on_ok (parse_config_i64 key text 1 INT_MAX) (\<lambda>v. Inr (srv\<lparr>sv_event_loop_max_events := v\<rparr>, a))
      else if key = bytes_of_string ''max-clients''
      then on_ok (parse_config_i64 key text 1 4294967295) (\<lambda>v. Inr (srv\<lparr>sv_max_clients := of_int v\<rparr>, a))
      else if key = bytes_of_string ''unixsocket''
      then let (ok, a) = alloc a in
        if \<not> ok then Inl Out_of_memory
        else Inr (srv\<lparr>sv_uds_socket_path := Some text, sv_owns_uds_socket_path := True, sv_socket_domain := UNIX\<rparr>, a)
      else if key = bytes_of_string ''show-logo''
      then on_ok (parse_truth key text) (\<lambda>b. Inr (srv\<lparr>sv_show_logo := b\<rparr>, a))
      else if key = bytes_of_string ''verbose''
      then on_ok (parse_truth key text) (\<lambda>b. Inr (srv\<lparr>sv_verbose := b\<rparr>, a))
      else if key = bytes_of_string ''daemonize''
      then on_ok (parse_truth key text) (\<lambda>b. Inr (srv\<lparr>sv_daemonize := b\<rparr>, a))
      else if key = bytes_of_string ''log-enabled''
      then on_ok (parse_truth key text) (\<lambda>b. Inr (srv\<lparr>sv_is_logging_enabled := b\<rparr>, a))
      else if key = bytes_of_string ''use-io-uring''
      then on_ok (parse_truth key text) (\<lambda>b. Inr (srv\<lparr>sv_use_io_uring := b\<rparr>, a))
      else Inr st)"

definition config_line :: "bytes \<Rightarrow> server \<times> allocs \<Rightarrow> config_error + server \<times> allocs" where
  "config_line line st =
     (if skipped line then Inr st
      else case scan_pair 511 (c_string line) of None \<Rightarrow> Inr st | Some (key, text) \<Rightarrow> apply_setting key text st)"

lemma fgets_shorter:
  assumes "content \<noteq> []" and "1 < n" and "(line, rest) = fgets n content"
  shows "length rest < length content"
proof -
  let ?body = "takeWhile (\<lambda>b. b \<noteq> 10) content"
  have "length (if length ?body < length content then ?body @ [10] else ?body) > 0"
    using assms(1) by (auto simp: length_takeWhile_le intro: le_neq_implies_less)
  then have "length line > 0" using assms(2,3) by (auto simp: fgets_def Let_def split: if_splits)
  then show ?thesis using assms(1,3) by (auto simp: fgets_def Let_def)
qed

function config_loop :: "bytes \<Rightarrow> server \<times> allocs \<Rightarrow> config_error + server \<times> allocs" where
  "config_loop file st =
     (if file = [] then Inr st
      else let (line, rest) = fgets 1024 file in on_ok (config_line line st) (config_loop rest))"
  by pat_completeness auto

termination
  by (relation "measure (\<lambda>(file, st). length file)") (auto intro: fgets_shorter [where n = 1024])

declare config_loop.simps [simp del]

definition DEFAULT_SERVER_CONFIG_FILE_PATH :: bytes where
  "DEFAULT_SERVER_CONFIG_FILE_PATH = bytes_of_string ''server.conf''"

definition FKVS_DEFAULT_BIND_ADDRESS :: bytes where
  "FKVS_DEFAULT_BIND_ADDRESS = bytes_of_string ''127.0.0.1''"

text \<open>\<open>open_file\<close> gives the contents of a file that can be opened.\<close>

definition load_server_config ::
  "(bytes \<Rightarrow> bytes option) \<Rightarrow> bytes option \<Rightarrow> server \<times> allocs \<Rightarrow> config_error + server \<times> allocs" where
  "load_server_config open_file path st =
     (let name = (case path of None \<Rightarrow> DEFAULT_SERVER_CONFIG_FILE_PATH | Some p \<Rightarrow> p) in
      case open_file name of
        None \<Rightarrow> Inl Cannot_open
      | Some config \<Rightarrow>
          let (srv, a) = st;
              srv = srv\<lparr>sv_num_clients := 0, sv_fd := -1, sv_bind_address := Some FKVS_DEFAULT_BIND_ADDRESS,
                sv_owns_bind_address := False, sv_max_clients := 128, sv_uds_socket_path := None,
                sv_owns_uds_socket_path := False, sv_socket_domain := TCP_IP, sv_event_loop_max_events := 100000,
                sv_config_file_path := name\<rparr>
          in config_loop config (srv, a))"

section \<open>The command line client\<close>

text \<open>\<open>strtol\<close> in base ten: white space, a sign, digits; out of range it gives the limit of a
  \<open>long\<close>.  \<open>atoi\<close> is its value as an \<open>int\<close>.\<close>

definition strtol :: "bytes \<Rightarrow> int" where
  "strtol s =
     (let s = dropWhile isspace s;
          negative = (s \<noteq> [] \<and> hd s = 45);
          s = (if s \<noteq> [] \<and> (hd s = 45 \<or> hd s = 43) then tl s else s);
          v = int (digits_value 0 (takeWhile (\<lambda>b. 48 \<le> b \<and> b \<le> 57) s))
      in if negative then max INT64_MIN (- v) else min INT64_MAX v)"

definition atoi :: "bytes \<Rightarrow> int" where
  "atoi s = to_int (strtol s)"

record client_config =
  cc_ip_address :: "bytes option"
  cc_port :: int
  cc_uds_socket_path :: "bytes option"
  cc_socket_domain :: socket_domain
  cc_config_file_path :: bytes
  cc_command_type :: "bytes option"
  cc_verbose :: bool
  cc_benchmark_mode :: bool
  cc_interactive_mode :: bool

definition strdup :: "bytes \<Rightarrow> allocs \<Rightarrow> bytes option \<times> allocs" where
  "strdup s a = (let (ok, a) = alloc a in (if ok then Some s else None, a))"

definition apply_client_setting :: "bytes \<Rightarrow> bytes \<Rightarrow> client_config \<times> allocs \<Rightarrow> client_config \<times> allocs" where
  "apply_client_setting key text st =
     (let (c, a) = st in
      if key = bytes_of_string ''bind''
      then let (copy, a) = strdup text a in (c\<lparr>cc_ip_address := copy\<rparr>, a)
      else if key = bytes_of_string ''port'' then (c\<lparr>cc_port := atoi text\<rparr>, a)
      else if key = bytes_of_string ''verbose'' then (c\<lparr>cc_verbose := True\<rparr>, a)
      else if key = bytes_of_string ''unixsocket''
      then let (copy, a) = strdup text a in (c\<lparr>cc_uds_socket_path := copy, cc_socket_domain := UNIX\<rparr>, a)
      else st)"

definition client_config_line :: "bytes \<Rightarrow> client_config \<times> allocs \<Rightarrow> client_config \<times> allocs" where
  "client_config_line line st =
     (if skipped line then st
      else case scan_pair 255 (c_string line) of None \<Rightarrow> st | Some (key, text) \<Rightarrow> apply_client_setting key text st)"

function client_config_loop :: "bytes \<Rightarrow> client_config \<times> allocs \<Rightarrow> client_config \<times> allocs" where
  "client_config_loop file st =
     (if file = [] then st
      else let (line, rest) = fgets 1024 file in client_config_loop rest (client_config_line line st))"
  by pat_completeness auto

termination
  by (relation "measure (\<lambda>(file, st). length file)") (auto intro: fgets_shorter [where n = 1024])

declare client_config_loop.simps [simp del]

definition DEFAULT_CLIENT_CONFIG_FILE_PATH :: bytes where
  "DEFAULT_CLIENT_CONFIG_FILE_PATH = bytes_of_string ''client.conf''"

text \<open>The port keeps the value the stack happened to hold unless the file sets it: an argument.\<close>

definition load_client_config ::
  "(bytes \<Rightarrow> bytes option) \<Rightarrow> bytes option \<Rightarrow> int \<Rightarrow> allocs \<Rightarrow> config_error + client_config \<times> allocs" where
  "load_client_config open_file path garbage a =
     (let name = (case path of None \<Rightarrow> DEFAULT_CLIENT_CONFIG_FILE_PATH | Some p \<Rightarrow> p) in
      case open_file name of
        None \<Rightarrow> Inl Cannot_open
      | Some config \<Rightarrow>
          let (ip, a) = strdup (bytes_of_string ''127.0.0.1'') a
          in Inr (client_config_loop config
               (\<lparr>cc_ip_address = ip, cc_port = garbage, cc_uds_socket_path = None, cc_socket_domain = TCP_IP,
                 cc_config_file_path = name, cc_command_type = None, cc_verbose = False, cc_benchmark_mode = False,
                 cc_interactive_mode = True\<rparr>, a)))"

section \<open>An accepted configuration is well typed\<close>

text \<open>A word as \<open>%511s\<close> reads it.\<close>

definition word_ok :: "bytes \<Rightarrow> bool" where
  "word_ok w \<longleftrightarrow> w \<noteq> [] \<and> length w \<le> 511 \<and> (\<forall>b \<in> set w. \<not> isspace b \<and> b \<noteq> 0)"

definition server_config_ok :: "server \<Rightarrow> bool" where
  "server_config_ok srv \<longleftrightarrow>
     0 \<le> sv_port srv \<and> sv_port srv \<le> 65535 \<and> 1 \<le> sv_event_loop_max_events srv \<and> sv_event_loop_max_events srv \<le> INT_MAX
     \<and> sv_max_clients srv > 0 \<and> sv_num_clients srv = 0 \<and> sv_fd srv = -1
     \<and> (\<exists>w. sv_bind_address srv = Some w \<and> word_ok w)
     \<and> (sv_owns_bind_address srv \<or> sv_bind_address srv = Some FKVS_DEFAULT_BIND_ADDRESS)
     \<and> (sv_socket_domain srv = UNIX \<longleftrightarrow> sv_uds_socket_path srv \<noteq> None)
     \<and> (sv_owns_uds_socket_path srv \<longleftrightarrow> sv_uds_socket_path srv \<noteq> None) \<and> (\<forall>w. sv_uds_socket_path srv = Some w \<longrightarrow> word_ok w)"

lemma scan_word_ok:
  assumes "scan_word n s = Some (w, rest)" and "n \<le> 511" and "\<forall>b \<in> set s. b \<noteq> 0"
  shows "word_ok w" and "\<forall>b \<in> set rest. b \<noteq> 0"
proof -
  let ?s = "dropWhile isspace s"
  have w: "w = take n (takeWhile (\<lambda>b. \<not> isspace b) ?s)" "w \<noteq> []" "rest = drop (length w) ?s"
    using assms(1) by (auto simp: scan_word_def Let_def split: if_splits)
  have sub: "set ?s \<subseteq> set s" by (auto dest: set_dropWhileD)
  have "\<not> isspace b \<and> b \<in> set s" if "b \<in> set w" for b
  proof -
    have "b \<in> set (takeWhile (\<lambda>b. \<not> isspace b) ?s)" using that unfolding w(1) by (rule in_set_takeD)
    then show ?thesis using set_takeWhileD [of b "\<lambda>b. \<not> isspace b" ?s] sub by blast
  qed
  then have "\<forall>b \<in> set w. \<not> isspace b \<and> b \<noteq> 0" using assms(3) by blast
  moreover have "length w \<le> 511" unfolding w(1) using assms(2) by simp
  ultimately show "word_ok w" using w(2) by (simp add: word_ok_def)
  have "set rest \<subseteq> set ?s" unfolding w(3) by (rule set_drop_subset)
  then show "\<forall>b \<in> set rest. b \<noteq> 0" using sub assms(3) by blast
qed

lemma scan_pair_ok:
  assumes "scan_pair 511 (c_string line) = Some (k, v)"
  shows "word_ok v"
proof -
  have "\<forall>b \<in> set (c_string line). b \<noteq> 0" by (auto simp: c_string_def dest: set_takeWhileD)
  moreover obtain s s' where s: "scan_word 511 (c_string line) = Some (k, s)" "scan_word 511 s = Some (v, s')"
    using assms by (auto simp: scan_pair_def bind_eq_Some_conv)
  ultimately have "\<forall>b \<in> set s. b \<noteq> 0" using scan_word_ok(2) [OF s(1)] by simp
  then show ?thesis using scan_word_ok(1) [OF s(2)] by simp
qed

lemma on_ok_Inr [simp]: "on_ok r f = Inr y \<longleftrightarrow> (\<exists>x. r = Inr x \<and> f x = Inr y)"
  by (auto simp: on_ok_def split: sum.splits)

lemma parse_config_range: "parse_config_i64 k t lo hi = Inr v \<Longrightarrow> lo \<le> v \<and> v \<le> hi"
  by (simp add: parse_config_i64_def parse_i64_range split: option.splits)

lemma positive_count:
  assumes "1 \<le> v" and "v \<le> 4294967295"
  shows "(of_int v :: 32 word) > 0"
proof -
  have "uint (of_int v :: 32 word) = v" using assms by (simp add: uint_word_of_int)
  then show ?thesis using assms(1) by (auto simp: word_gt_0)
qed

text \<open>Each setting keeps the ranges.\<close>

lemma config_updates:
  assumes "server_config_ok srv"
  shows "1 \<le> v \<Longrightarrow> v \<le> 65535 \<Longrightarrow> server_config_ok (srv\<lparr>sv_port := v\<rparr>)"
    and "1 \<le> v \<Longrightarrow> v \<le> INT_MAX \<Longrightarrow> server_config_ok (srv\<lparr>sv_event_loop_max_events := v\<rparr>)"
    and "1 \<le> v \<Longrightarrow> v \<le> 4294967295 \<Longrightarrow> server_config_ok (srv\<lparr>sv_max_clients := of_int v\<rparr>)"
    and "word_ok w \<Longrightarrow> server_config_ok (srv\<lparr>sv_bind_address := Some w, sv_owns_bind_address := True\<rparr>)"
    and "word_ok w \<Longrightarrow> server_config_ok (srv\<lparr>sv_uds_socket_path := Some w, sv_owns_uds_socket_path := True, sv_socket_domain := UNIX\<rparr>)"
    and "server_config_ok (srv\<lparr>sv_show_logo := b\<rparr>)" "server_config_ok (srv\<lparr>sv_verbose := b\<rparr>)" "server_config_ok (srv\<lparr>sv_daemonize := b\<rparr>)"
      "server_config_ok (srv\<lparr>sv_is_logging_enabled := b\<rparr>)" "server_config_ok (srv\<lparr>sv_use_io_uring := b\<rparr>)"
  using assms positive_count by (simp_all add: server_config_ok_def)

lemma apply_setting_ok:
  assumes "server_config_ok srv" and "word_ok text" and "apply_setting key text (srv, a) = Inr st"
  shows "server_config_ok (fst st)"
  using assms(3) config_updates [OF assms(1)] assms(1,2)
  by (simp add: apply_setting_def set_server_bind_address_def split: if_splits prod.splits)
    (auto dest: parse_config_range)

lemma config_line_ok:
  assumes "server_config_ok (fst st)" and "config_line line st = Inr st'"
  shows "server_config_ok (fst st')"
  using assms apply_setting_ok [of "fst st" _ _ "snd st" st'] scan_pair_ok
  by (auto simp: config_line_def split: if_splits option.splits) blast

lemma config_loop_ok: "server_config_ok (fst st) \<Longrightarrow> config_loop content st = Inr st' \<Longrightarrow> server_config_ok (fst st')"
proof (induction content st rule: config_loop.induct)
  case (1 content st)
  show ?case
  proof (cases "content = []")
    case True
    then show ?thesis using 1(2,3) by (simp add: config_loop.simps)
  next
    case False
    obtain line rest where f: "fgets 1024 content = (line, rest)" by (meson surj_pair)
    from 1(3) False f obtain st1 where "config_line line st = Inr st1" "config_loop rest st1 = Inr st'"
      by (auto simp: config_loop.simps [of content])
    then show ?thesis using 1(1) [OF False f [symmetric]] config_line_ok [OF 1(2)] by blast
  qed
qed

text \<open>C40: A configuration that is accepted is well typed.  For any contents of the file and any
  allocator, if loading does not end the process then the port, the number of events and
  the number of clients are in their ranges, at least one client may connect, no descriptor
  is open and no client counted yet, the addresses are words, and the server listens on a
  Unix socket exactly when it owns a path for it.\<close>

theorem loaded_config_well_typed:
  assumes "0 \<le> sv_port srv" and "sv_port srv \<le> 65535" and "load_server_config open_file path (srv, a) = Inr (srv', a')"
  shows "server_config_ok srv'"
proof -
  have "word_ok FKVS_DEFAULT_BIND_ADDRESS" by (simp add: word_ok_def FKVS_DEFAULT_BIND_ADDRESS_def bytes_of_string_def isspace_def)
  then have "server_config_ok (srv\<lparr>sv_num_clients := 0, sv_fd := -1, sv_bind_address := Some FKVS_DEFAULT_BIND_ADDRESS,
                sv_owns_bind_address := False, sv_max_clients := 128, sv_uds_socket_path := None,
                sv_owns_uds_socket_path := False, sv_socket_domain := TCP_IP, sv_event_loop_max_events := 100000,
                sv_config_file_path := name\<rparr>)" for name
    using assms(1,2) by (simp add: server_config_ok_def)
  then show ?thesis using assms(3) config_loop_ok by (fastforce simp: load_server_config_def split: option.splits)
qed

text \<open>The server object before it is configured: static storage, all zero.\<close>

definition zero_server :: server where
  "zero_server = \<lparr>sv_config_file_path = [], sv_bind_address = None, sv_uds_socket_path = None,
     sv_metrics = \<lparr>ct_memory_usage = 0, ct_num_executed_commands = 0, ct_disconnected_clients = 0, ct_start_time = 0\<rparr>,
     sv_port = 0, sv_fd = 0, sv_event_loop_max_events = 0, sv_num_disconnected_clients = 0, sv_pid = 0,
     sv_num_clients = 0, sv_max_clients = 0, sv_socket_domain = TCP_IP, sv_event_dispatcher_kind = kqueue_kind,
     sv_use_io_uring = False, sv_is_logging_enabled = False, sv_verbose = False, sv_show_logo = False,
     sv_daemonize = False, sv_owns_bind_address = False, sv_owns_uds_socket_path = False\<rparr>"

theorem loaded_config_well_typed_witness:
  "\<exists>srv'. load_server_config (\<lambda>_. Some (bytes_of_string ''max-clients 7'')) None (zero_server, []) = Inr (srv', [])
    \<and> sv_max_clients srv' = 7 \<and> server_config_ok srv'"
proof -
  let ?srv = "zero_server\<lparr>sv_fd := -1, sv_bind_address := Some FKVS_DEFAULT_BIND_ADDRESS, sv_max_clients := 7,
    sv_event_loop_max_events := 100000, sv_config_file_path := DEFAULT_SERVER_CONFIG_FILE_PATH\<rparr>"
  have f: "fgets 1024 (bytes_of_string ''max-clients 7'') = (bytes_of_string ''max-clients 7'', [])"
    by (simp add: fgets_def bytes_of_string_def)
  have w: "scan_pair 511 (c_string (bytes_of_string ''max-clients 7'')) = Some (bytes_of_string ''max-clients'', [55])"
    by (simp add: scan_pair_def scan_word_def c_string_def bytes_of_string_def isspace_def)
  have n: "fkvs_parse_i64_decimal [55] 1 4294967295 = Some 7"
    by (simp add: fkvs_parse_i64_decimal_def)
  have k: "\<not> skipped (bytes_of_string ''max-clients 7'')" by (simp add: skipped_def c_string_def bytes_of_string_def)
  have a: "apply_setting (bytes_of_string ''max-clients'') [55] (srv, []) = Inr (srv\<lparr>sv_max_clients := 7\<rparr>, [])" for srv
    by (simp add: apply_setting_def bytes_of_string_def parse_config_i64_def on_ok_def n)
  have "bytes_of_string ''max-clients 7'' \<noteq> []" by (simp add: bytes_of_string_def)
  then have l: "config_loop (bytes_of_string ''max-clients 7'') (srv, []) = Inr (srv\<lparr>sv_max_clients := 7\<rparr>, [])" for srv
    using k w a by (simp add: config_loop.simps [of "bytes_of_string ''max-clients 7''"] config_loop.simps [of "[]"] f config_line_def on_ok_def)
  have "load_server_config (\<lambda>_. Some (bytes_of_string ''max-clients 7'')) None (zero_server, []) = Inr (?srv, [])"
    by (simp add: load_server_config_def l Let_def) (simp add: zero_server_def)
  then show ?thesis using loaded_config_well_typed [of zero_server] by (auto simp: zero_server_def)
qed

end
