(* ===== verification/Startup.thy ===== *)
theory Startup
  imports Epoll Config
begin

text \<open>
  \<open>main\<close> of \<open>src/server.c\<close> and the listening sockets of \<open>src/networking/networking.c\<close>: options,
  configuration, socket, database, event loop, shutdown.  Proved: whatever the command
  line, the configuration file and the operating system, the server runs from its start
  to its end without using an invalid pointer and gives everything back.
\<close>

section \<open>Listening\<close>

text \<open>
  What the operating system answers: whether \<open>fork\<close> returns 0, whether \<open>setsid\<close>, opening
  \<open>/dev/null\<close> and \<open>socket\<close> succeed, whether an address is accepted by \<open>inet_pton\<close>, whether
  the directory of the socket file can be made or exists, and whether \<open>bind\<close> on an address
  and a port or on a path, \<open>chmod\<close> on a path and \<open>listen\<close> with a backlog succeed.
\<close>

record kernel =
  kn_child :: bool
  kn_setsid :: bool
  kn_dev_null :: bool
  kn_socket :: bool
  kn_pton :: "bytes \<Rightarrow> bool"
  kn_bind_inet :: "bytes \<Rightarrow> int \<Rightarrow> bool"
  kn_mkdir :: bool
  kn_bind_unix :: "bytes \<Rightarrow> bool"
  kn_chmod :: "bytes \<Rightarrow> bool"
  kn_listen :: "int \<Rightarrow> bool"

definition set_server_fd :: "int \<Rightarrow> world \<Rightarrow> world" where
  "set_server_fd fd w = w\<lparr>w_server := (w_server w)\<lparr>sv_fd := fd\<rparr>\<rparr>"

definition fail_start :: "int \<Rightarrow> world \<Rightarrow> int \<times> world" where
  "fail_start fd w = (-1, set_server_fd (-1) (close_fd fd w))"

text \<open>\<open>htons(server.port)\<close> keeps the lower 16 bits.\<close>

definition start_server :: "kernel \<Rightarrow> world \<Rightarrow> int \<times> world" where
  "start_server kn w =
     (if \<not> kn_socket kn then (-1, w)
      else let (server_fd, w) = open_fd w;
               w = set_server_fd server_fd w;
               bind_address = (case sv_bind_address (w_server w) of Some b \<Rightarrow> b | None \<Rightarrow> FKVS_DEFAULT_BIND_ADDRESS);
               port = sv_port (w_server w) mod 65536
           in if port = 0 then fail_start server_fd w
              else if \<not> kn_pton kn bind_address then fail_start server_fd w
              else if \<not> kn_bind_inet kn bind_address port then fail_start server_fd w
              else if \<not> kn_listen kn (server_listen_backlog (w_server w)) then fail_start server_fd w
              else (server_fd, w))"

definition FKVS_SOCK_PATH :: bytes where
  "FKVS_SOCK_PATH = bytes_of_string ''/tmp/fkvs/fkvs.sock''"

text \<open>
  A failure to remove an old socket is only logged; here \<open>server.fd\<close> is not reset.  The path
  handed to \<open>bind\<close> is cut to the 107 bytes of \<open>sun_path\<close>.
\<close>

definition start_uds_server :: "kernel \<Rightarrow> world \<Rightarrow> int \<times> world" where
  "start_uds_server kn w =
     (if \<not> kn_socket kn then (-1, w)
      else let (server_fd, w) = open_fd w;
               w = set_server_fd server_fd w;
               srv = w_server w;
               path = (case sv_uds_socket_path srv of None \<Rightarrow> FKVS_SOCK_PATH | Some p \<Rightarrow> p);
               owns = (if sv_uds_socket_path srv = None then False else sv_owns_uds_socket_path srv);
               w = w\<lparr>w_server := srv\<lparr>sv_uds_socket_path := Some path, sv_owns_uds_socket_path := owns\<rparr>\<rparr>
           in if \<not> kn_mkdir kn then (-1, close_fd server_fd w)
              else if \<not> kn_bind_unix kn (take 107 path) then (-1, close_fd server_fd w)
              else if \<not> kn_chmod kn path then (-1, close_fd server_fd w)
              else if \<not> kn_listen kn (server_listen_backlog srv) then (-1, close_fd server_fd w)
              else (server_fd, w))"

section \<open>The main function\<close>

datatype exit_reason = Usage | Version | Config_failed config_error | No_metrics | Port_expected | Parent_done | No_session | Not_listening

text \<open>The last \<open>-c\<close> counts; behind the last argument \<open>argv\<close> holds NULL.\<close>

fun config_path_arg :: "bytes option \<Rightarrow> bytes list \<Rightarrow> bytes option" where
  "config_path_arg path [] = path"
| "config_path_arg path (arg # rest) =
     config_path_arg (if arg = bytes_of_string ''-c'' then (case rest of [] \<Rightarrow> None | p # _ \<Rightarrow> Some p) else path) rest"

fun apply_options :: "bytes list \<Rightarrow> server \<Rightarrow> exit_reason + server" where
  "apply_options [] srv = Inr srv"
| "apply_options (arg # rest) srv =
     (if arg = bytes_of_string ''-h'' \<or> arg = bytes_of_string ''--help'' then Inl Usage
      else if arg = bytes_of_string ''version'' \<or> arg = bytes_of_string ''--version'' then Inl Version
      else if arg = bytes_of_string ''--port''
      then case rest of
          [] \<Rightarrow> Inl Port_expected
        | p # _ \<Rightarrow> apply_options rest (srv\<lparr>sv_port := to_int (strtol p)\<rparr>)
      else apply_options rest srv)"

text \<open>\<open>dup2\<close> onto the three standard descriptors leaves them open.\<close>

definition redirect_standard :: "world \<Rightarrow> world" where
  "redirect_standard w = w\<lparr>w_open := filter (\<lambda>n. n \<notin> set (w_open w)) [0, 1, 2] @ w_open w\<rparr>"

text \<open>
  The parent ends at once.  The child redirects the standard descriptors to \<open>/dev/null\<close>.
\<close>

definition daemonize :: "kernel \<Rightarrow> world \<Rightarrow> exit_reason + world" where
  "daemonize kn w =
     (if \<not> kn_child kn then Inl Parent_done
      else if \<not> kn_setsid kn then Inl No_session
      else if kn_dev_null kn
      then let (fd, w) = open_fd w; w = redirect_standard w
           in Inr (if fd > 2 then close_fd fd w else w)
      else Inr w)"

definition setup_client_list :: "world \<Rightarrow> world" where
  "setup_client_list w = (let (l, e) = listCreate (w_env w) in w\<lparr>w_list := l, w_env := e\<rparr>)"

abbreviation (input) TABLE_SIZE :: u64 where "TABLE_SIZE \<equiv> 8192"

text \<open>The result of \<open>malloc\<close> is used at once.  A table that could not be created is noticed at
  its first use, like a missing database.\<close>

definition create_database :: "world \<Rightarrow> world outcome" where
  "create_database w =
     (let (ok, e) = env_alloc (w_env w) in
      if \<not> ok then Inl Invalid_pointer
      else let (store, a) = create_hash_table TABLE_SIZE (env_allocs e);
               (expires, a) = create_hash_table TABLE_SIZE a;
               db = (case (store, expires) of (Some s, Some x) \<Rightarrow> Some (s, x) | _ \<Rightarrow> None)
           in Inr (w\<lparr>w_database := db, w_env := e\<lparr>env_allocs := a\<rparr>\<rparr>))"

text \<open>The configured server: \<open>main\<close> up to its options.\<close>

definition configure ::
  "(bytes \<Rightarrow> bytes option) \<Rightarrow> int \<Rightarrow> int \<Rightarrow> bytes list \<Rightarrow> world \<Rightarrow> exit_reason + world" where
  "configure open_file pid garbage argv w =
     (if length argv < 2 then Inl Usage
      else case load_server_config open_file (config_path_arg (Some DEFAULT_SERVER_CONFIG_FILE_PATH) argv)
          (w_server w, env_allocs (w_env w)) of
        Inl e \<Rightarrow> Inl (Config_failed e)
      | Inr (srv, a) \<Rightarrow>
          let (metrics, e) = init_counter garbage ((w_env w)\<lparr>env_allocs := a\<rparr>) in
          case metrics of
            None \<Rightarrow> Inl No_metrics
          | Some ct \<Rightarrow>
              on_ok (apply_options argv (srv\<lparr>sv_pid := pid, sv_metrics := ct\<rparr>)) (\<lambda>srv. Inr (w\<lparr>w_server := srv, w_env := e\<rparr>)))"

definition listen_socket :: "kernel \<Rightarrow> world \<Rightarrow> int \<times> world" where
  "listen_socket kn w =
     (let (fd, w) = (if sv_socket_domain (w_server w) = UNIX then start_uds_server kn w else start_server kn w)
      in (fd, set_server_fd fd w))"

text \<open>The build for Linux: io_uring or epoll.\<close>

definition choose_dispatcher :: "world \<Rightarrow> world" where
  "choose_dispatcher w =
     (let srv = w_server w
      in w\<lparr>w_server := srv\<lparr>sv_event_dispatcher_kind := if sv_use_io_uring srv then io_uring_kind else epoll_kind\<rparr>\<rparr>)"

definition start_up ::
  "kernel \<Rightarrow> (bytes \<Rightarrow> bytes option) \<Rightarrow> int \<Rightarrow> int \<Rightarrow> bytes list \<Rightarrow> world \<Rightarrow> (exit_reason + world) outcome" where
  "start_up kn open_file pid garbage argv w =
     (case on_ok (configure open_file pid garbage argv w) (\<lambda>w. if sv_daemonize (w_server w) then daemonize kn w else Inr w) of
        Inl r \<Rightarrow> Inr (Inl r)
      | Inr w \<Rightarrow>
          let (fd, w) = listen_socket kn (setup_client_list w) in
          if fd = -1 then Inr (Inl Not_listening)
          else and_then (create_database w) (\<lambda>w. Inr (Inr (choose_dispatcher w))))"

text \<open>
  \<open>run_loop\<close> is \<open>run_event_loop\<close> of the build.  The first result is the exit status; the state
  at the end is given when the loop was entered.
\<close>

definition exit_status :: "exit_reason \<Rightarrow> int" where
  "exit_status r = (if r = Parent_done then 0 else 1)"

definition server_main ::
  "(world \<Rightarrow> (int \<times> world) outcome) \<Rightarrow> kernel \<Rightarrow> (bytes \<Rightarrow> bytes option) \<Rightarrow> int \<Rightarrow> int \<Rightarrow> bytes list \<Rightarrow> world
    \<Rightarrow> (int \<times> world option) outcome" where
  "server_main run_loop kn open_file pid garbage argv w =
     and_then (start_up kn open_file pid garbage argv w) (\<lambda>r.
       case r of
         Inl reason \<Rightarrow> Inr (exit_status reason, None)
       | Inr w \<Rightarrow>
           and_then (run_loop w) (\<lambda>(event_loop_result, w).
           and_then (shutdown_server w) (\<lambda>w. Inr (if event_loop_result = 0 then 0 else 1, Some w))))"

section \<open>Starting establishes the invariant\<close>

text \<open>The process before \<open>main\<close>.\<close>

definition fresh_process :: "world \<Rightarrow> bool" where
  "fresh_process w \<longleftrightarrow> w_clients w = Map.empty \<and> nh_cells (w_nodes w) = Map.empty \<and> w_watch w = []
     \<and> distinct (w_open w) \<and> (\<forall>fd \<in> set (w_open w). 0 \<le> fd) \<and> clock_ok (w_env w)"

text \<open>What a configuration keeps: allocation does not fail, and no client is counted.\<close>

definition unused :: "server \<times> allocs \<Rightarrow> bool" where
  "unused st \<longleftrightarrow> sv_num_clients (fst st) = 0 \<and> alloc_safe (snd st)"

lemma alloc_cases: "alloc_safe a \<Longrightarrow> \<exists>a'. alloc a = (True, a') \<and> alloc_safe a'"
  using alloc_safeD [of a] by (cases "alloc a") simp

lemma apply_setting_unused:
  assumes "apply_setting key text (srv, a) = Inr st'" and "unused (srv, a)"
  shows "unused st'"
proof -
  obtain a' where a: "alloc a = (True, a')" "alloc_safe a'" using alloc_cases assms(2) by (auto simp: unused_def)
  show ?thesis using assms a(2) unfolding apply_setting_def set_server_bind_address_def Let_def case_prod_conv a(1)
    by (simp add: unused_def split: if_splits) auto
qed

lemma config_line_unused: "config_line line st = Inr st' \<Longrightarrow> unused st \<Longrightarrow> unused st'"
  using apply_setting_unused [of _ _ "fst st" "snd st" st'] by (auto simp: config_line_def split: if_splits option.splits)

lemma config_loop_unused: "config_loop content st = Inr st' \<Longrightarrow> unused st \<Longrightarrow> unused st'"
proof (induction content st rule: config_loop.induct)
  case (1 content st)
  show ?case
  proof (cases "content = []")
    case True
    then show ?thesis using 1(2,3) by (simp add: config_loop.simps)
  next
    case False
    obtain line rest where f: "fgets 1024 content = (line, rest)" by (meson surj_pair)
    from 1(2) False f obtain st1 where "config_line line st = Inr st1" "config_loop rest st1 = Inr st'"
      by (auto simp: config_loop.simps [of content])
    then show ?thesis using 1(1) [OF False f [symmetric]] config_line_unused [OF _ 1(3)] by blast
  qed
qed

lemma load_config_unused:
  assumes "load_server_config open_file path (srv, a) = Inr st'" and "alloc_safe a"
  shows "unused st'"
proof (cases "open_file (case path of None \<Rightarrow> DEFAULT_SERVER_CONFIG_FILE_PATH | Some p \<Rightarrow> p)")
  case None
  then show ?thesis using assms(1) by (simp add: load_server_config_def)
next
  case (Some content)
  then obtain srv1 where "config_loop content (srv1, a) = Inr st'" "sv_num_clients srv1 = 0"
    using assms(1) by (simp add: load_server_config_def Let_def)
  then show ?thesis using config_loop_unused assms(2) by (auto simp: unused_def)
qed

lemma apply_options_keeps: "apply_options argv srv = Inr srv' \<Longrightarrow> sv_num_clients srv' = sv_num_clients srv"
proof (induction argv arbitrary: srv)
  case (Cons arg rest)
  then show ?case by (cases rest) (simp_all split: if_splits)
qed simp

text \<open>Between two steps of the start: nothing is connected, and \<open>ds\<close> is open.\<close>

definition starting :: "int set \<Rightarrow> world \<Rightarrow> bool" where
  "starting ds w \<longleftrightarrow> fresh_process w \<and> w_safe w \<and> sv_num_clients (w_server w) = 0 \<and> set (w_open w) = ds"

lemma configure_starting:
  assumes "fresh_process w" and "w_safe w" and "configure open_file pid garbage argv w = Inr w1"
  shows "starting (set (w_open w)) w1"
proof -
  obtain srv a where l: "load_server_config open_file (config_path_arg (Some DEFAULT_SERVER_CONFIG_FILE_PATH) argv)
      (w_server w, env_allocs (w_env w)) = Inr (srv, a)"
    using assms(3) by (auto simp: configure_def split: if_splits sum.splits)
  then have u: "sv_num_clients srv = 0" "alloc_safe a" using load_config_unused [OF l] assms(2) by (simp_all add: unused_def w_safe_def)
  let ?e = "(w_env w)\<lparr>env_allocs := a\<rparr>"
  obtain ct e where m: "init_counter garbage ?e = (Some ct, e)"
    using assms(3) l by (auto simp: configure_def split: if_splits prod.splits option.splits)
  have e: "clock_ok e" "alloc_safe (env_allocs e)"
    using m env_alloc_keeps(1,2) [of ?e] u(2) assms(1)
    by (auto simp: init_counter_def fresh_process_def clock_ok_def split: prod.splits if_splits)
  obtain srv' where o: "apply_options argv (srv\<lparr>sv_pid := pid, sv_metrics := ct\<rparr>) = Inr srv'" and w1: "w1 = w\<lparr>w_server := srv', w_env := e\<rparr>"
    using assms(3) l m by (auto simp: configure_def split: if_splits)
  show ?thesis using assms(1,2) e apply_options_keeps [OF o] u(1) by (simp add: starting_def fresh_process_def w_safe_def w1)
qed

lemma open_starting:
  assumes "starting ds w" and "open_fd w = (fd, w')"
  shows "starting (insert fd ds) w'" and "fd \<notin> ds" and "0 \<le> fd" and "w_server w' = w_server w"
  using assms lowest_fd_free [of "w_open w"]
  by (auto simp: open_fd_def Let_def starting_def fresh_process_def w_safe_def)

lemma daemonize_starting:
  assumes "starting ds w" and "daemonize kn w = Inr w'"
  shows "starting ds w' \<or> starting (ds \<union> {0, 1, 2}) w'"
proof (cases "kn_dev_null kn")
  case True
  obtain fd w1 where o: "open_fd w = (fd, w1)" by (meson surj_pair)
  note s = open_starting [OF assms(1) o]
  define w2 where "w2 = redirect_standard w1"
  have w': "w' = (if fd > 2 then close_fd fd w2 else w2)" using assms(2) True o by (simp add: daemonize_def w2_def Let_def split: if_splits)
  have ws: "set (w_open w2) = insert fd ds \<union> {0, 1, 2}" "distinct (w_open w2)" "\<forall>d \<in> set (w_open w2). 0 \<le> d"
    using s(1) by (auto simp: w2_def redirect_standard_def starting_def fresh_process_def)
  have "set (w_open w') = ds \<union> {0, 1, 2}" using ws(1,2) s(2,3) by (auto simp: w' close_fd_def)
  moreover have "distinct (w_open w')" "\<forall>d \<in> set (w_open w'). 0 \<le> d" using ws(2,3) by (auto simp: w' close_fd_def dest: notin_set_remove1 in_set_remove1)
  ultimately show ?thesis using s(1) by (simp add: starting_def fresh_process_def w_safe_def w' w2_def redirect_standard_def close_fd_def)
next
  case False
  then show ?thesis using assms by (simp add: daemonize_def split: if_splits)
qed

lemma setup_list_starting:
  assumes "starting ds w"
  shows "starting ds (setup_client_list w)"
    and "w_list (setup_client_list w) = Some \<lparr>lt_head = None, lt_tail = None, lt_len = 0, lt_free = False\<rparr>"
  using assms env_alloc_keeps [of "w_env w"]
  by (cases "env_alloc (w_env w)"; simp add: setup_client_list_def listCreate_def starting_def fresh_process_def w_safe_def)+

lemma server_fd_starting [simp]:
  "starting ds (set_server_fd fd w) = starting ds w" "w_list (set_server_fd fd w) = w_list w" "sv_fd (w_server (set_server_fd fd w)) = fd"
  by (simp_all add: set_server_fd_def starting_def fresh_process_def w_safe_def)

lemma listen_starting:
  assumes "starting ds w" and "listen_socket kn w = (fd, w')" and "fd \<noteq> -1"
  shows "starting (insert fd ds) w' \<and> fd \<notin> ds \<and> 0 \<le> fd \<and> sv_fd (w_server w') = fd \<and> w_list w' = w_list w"
proof -
  obtain d w1 where o: "open_fd w = (d, w1)" by (meson surj_pair)
  note s = open_starting [OF assms(1) o]
  have l: "w_list w1 = w_list w" using o by (auto simp: open_fd_def Let_def)
  obtain w2 where w2: "w' = set_server_fd fd w2"
    "(if sv_socket_domain (w_server w) = UNIX then start_uds_server kn w else start_server kn w) = (fd, w2)"
    using assms(2) by (auto simp: listen_socket_def split: prod.splits)
  have "fd = d \<and> starting (insert d ds) w2 \<and> w_list w2 = w_list w"
  proof (cases "sv_socket_domain (w_server w) = UNIX")
    case True
    with w2(2) have u: "start_uds_server kn w = (fd, w2)" by simp
    have "starting (insert d ds) (w1\<lparr>w_server := srv\<rparr>)" if "sv_num_clients srv = 0" for srv
      using s(1) that by (simp add: starting_def fresh_process_def w_safe_def)
    moreover have "sv_num_clients (w_server w1) = 0" using s(1) by (simp add: starting_def)
    ultimately show ?thesis using u assms(3) l
      by (simp add: start_uds_server_def o Let_def set_server_fd_def split: if_splits) auto
  next
    case False
    with w2(2) have u: "start_server kn w = (fd, w2)" by simp
    then show ?thesis using assms(3) s(1) l by (auto simp: start_server_def fail_start_def o Let_def split: if_splits)
  qed
  then show ?thesis using s(2,3) w2(1) by simp
qed

lemma create_database_ok:
  assumes "starting ds w"
  shows "\<exists>w'. create_database w = Inr w' \<and> starting ds w' \<and> db_ok w' \<and> w_list w' = w_list w \<and> w_server w' = w_server w"
proof -
  obtain e where e: "env_alloc (w_env w) = (True, e)" "clock_ok e" "alloc_safe (env_allocs e)"
    using env_alloc_keeps [of "w_env w"] assms by (cases "env_alloc (w_env w)") (simp add: starting_def fresh_process_def w_safe_def)
  obtain store a where st: "create_hash_table 8192 (env_allocs e) = (Some store, a)" "alloc_safe a"
    using create_hash_table_succeeds [OF _ _ e(3), of 8192] by auto
  obtain expires a' where ex: "create_hash_table 8192 a = (Some expires, a')" "alloc_safe a'"
    using create_hash_table_succeeds [OF _ _ st(2), of 8192] by auto
  note t = create_hash_table_ok [OF st(1)] create_hash_table_ok [OF ex(1)]
  have "deadlines expires = Map.empty" using t by (simp add: deadlines_def fun_eq_iff)
  then have "db_ok (w\<lparr>w_database := Some (store, expires), w_env := e\<lparr>env_allocs := a'\<rparr>\<rparr>)"
    using t e(2) by (simp add: db_ok_def store_inv_def expires_inv_def clock_ok_def)
  then show ?thesis using e st ex assms by (simp add: create_database_def starting_def fresh_process_def w_safe_def clock_ok_def)
qed

lemma started_sound:
  assumes "starting ds w" and "db_ok w" and "w_list w = Some \<lparr>lt_head = None, lt_tail = None, lt_len = 0, lt_free = False\<rparr>"
    and "sv_fd (w_server w) \<in> ds"
  shows "sound ds w"
proof -
  have "conns w []" using assms by (simp add: conns_def starting_def fresh_process_def list_rep_def)
  then show ?thesis using assms(1,2) by (auto simp: sound_def world_inv_def starting_def fresh_process_def strays_def fds_of_def)
qed

lemma dispatcher_sound [simp]:
  "starting ds (choose_dispatcher w) = starting ds w" "db_ok (choose_dispatcher w) = db_ok w" "w_list (choose_dispatcher w) = w_list w"
  "sv_fd (w_server (choose_dispatcher w)) = sv_fd (w_server w)"
  by (simp_all add: choose_dispatcher_def Let_def starting_def fresh_process_def w_safe_def db_ok_def split: option.split)

lemma start_up_sound:
  assumes "fresh_process w" and "w_safe w"
  shows "\<exists>r. start_up kn open_file pid garbage argv w = Inr r \<and> (\<forall>w0. r = Inr w0 \<longrightarrow>
    (\<exists>ds. (ds = set (w_open w) \<or> ds = set (w_open w) \<union> {0, 1, 2}) \<and> sv_fd (w_server w0) \<notin> ds
      \<and> 0 \<le> sv_fd (w_server w0) \<and> sound (insert (sv_fd (w_server w0)) ds) w0))"
proof (cases "on_ok (configure open_file pid garbage argv w) (\<lambda>w. if sv_daemonize (w_server w) then daemonize kn w else Inr w)")
  case (Inl e)
  then show ?thesis by (simp add: start_up_def)
next
  case (Inr w2)
  then obtain w1 where "configure open_file pid garbage argv w = Inr w1" and w2: "(if sv_daemonize (w_server w1) then daemonize kn w1 else Inr w1) = Inr w2"
    by auto
  then have "starting (set (w_open w)) w1" using configure_starting assms by blast
  then have "starting (set (w_open w)) w2 \<or> starting (set (w_open w) \<union> {0, 1, 2}) w2"
    using w2 daemonize_starting by (auto split: if_splits)
  then obtain ds where ds: "ds = set (w_open w) \<or> ds = set (w_open w) \<union> {0, 1, 2}" "starting ds w2" by blast
  obtain fd w3 where l: "listen_socket kn (setup_client_list w2) = (fd, w3)" by (meson surj_pair)
  have eq: "start_up kn open_file pid garbage argv w =
      (if fd = -1 then Inr (Inl Not_listening) else and_then (create_database w3) (\<lambda>w. Inr (Inr (choose_dispatcher w))))"
    unfolding start_up_def Inr by (simp add: l)
  show ?thesis
  proof (cases "fd = -1")
    case True
    then show ?thesis by (simp add: eq)
  next
    case False
    note s = setup_list_starting [OF ds(2)] and l3 = listen_starting [OF setup_list_starting(1) [OF ds(2)] l False]
    from create_database_ok [of "insert fd ds" w3] l3 obtain w4 where
      w4: "create_database w3 = Inr w4" "starting (insert fd ds) w4" "db_ok w4" "w_list w4 = w_list w3" "w_server w4 = w_server w3" by blast
    have "sound (insert fd ds) (choose_dispatcher w4)" using w4 l3 s(2) by (intro started_sound) simp_all
    then show ?thesis using False w4 l3 ds(1) by (auto simp: eq)
  qed
qed

section \<open>The whole run on epoll\<close>

text \<open>
  The kernel reports, in each round, clients that are watched then, each once.  The state is
  the one in which the loop asks for events.
\<close>

fun kernel_rounds :: "(bool \<times> wait_result) list \<Rightarrow> world \<Rightarrow> bool" where
  "kernel_rounds [] w \<longleftrightarrow> True"
| "kernel_rounds ((signal, r) # rs) w \<longleftrightarrow> server_shutdown_requested w \<or>
     (let w = (if signal then request_server_shutdown w else w) in
      case r of
        Wait_events evs \<Rightarrow> reported evs (set (w_watch w))
          \<and> (case handle_events evs w of Inl _ \<Rightarrow> True | Inr w' \<Rightarrow> kernel_rounds rs w')
      | Wait_intr \<Rightarrow> kernel_rounds rs w
      | Wait_error \<Rightarrow> True)"

definition enter_loop :: "bool \<Rightarrow> world \<Rightarrow> world" where
  "enter_loop timer w = (let w = snd (open_fd w) in if timer then snd (open_fd w) else w)"

lemma request_sound [simp]:
  "sound F (request_server_shutdown w) = sound F w" "w_server (request_server_shutdown w) = w_server w" "w_watch (request_server_shutdown w) = w_watch w"
  by (auto simp: request_server_shutdown_def sound_def world_inv_def conns_def db_ok_def w_safe_def strays_def fds_of_def split: option.splits)

lemma event_rounds_step:
  assumes "sound F w" and "kernel_rounds rounds w"
  shows "ensures (event_rounds rounds w) (\<lambda>w'. sound F w' \<and> sv_fd (w_server w') = sv_fd (w_server w))"
  using assms
proof (induction rounds arbitrary: w)
  case (Cons round rounds)
  obtain signal r where round: "round = (signal, r)" by (meson surj_pair)
  define w1 where "w1 = (if signal then request_server_shutdown w else w)"
  have w1: "sound F w1" "sv_fd (w_server w1) = sv_fd (w_server w)" using Cons.prems(1) by (simp_all add: w1_def)
  show ?case
  proof (cases "server_shutdown_requested w")
    case True
    then show ?thesis using Cons.prems(1) by (simp add: round)
  next
    case False
    note k = Cons.prems(2) [unfolded round kernel_rounds.simps Let_def, folded w1_def]
    show ?thesis
    proof (cases r)
      case (Wait_events evs)
      have "reported evs (dom (w_clients w1))" using k False Wait_events w1(1) by (simp add: sound_def)
      note step = handle_events_step [OF w1(1) this]
      have "ensures (and_then (handle_events evs w1) (event_rounds rounds)) (\<lambda>w'. sound F w' \<and> sv_fd (w_server w') = sv_fd (w_server w))"
      proof (cases "handle_events evs w1")
        case (Inr w2)
        then have "sound F w2" "sv_fd (w_server w2) = sv_fd (w_server w)" using step w1(2) by simp_all
        moreover have "kernel_rounds rounds w2" using k False Wait_events Inr by simp
        ultimately show ?thesis using Cons.IH [of w2] Inr by simp
      qed (use step in simp)
      then show ?thesis using False Wait_events by (simp add: round w1_def Let_def)
    next
      case Wait_intr
      then show ?thesis using k False Cons.IH [OF w1(1)] w1 Cons.prems(1) by (simp add: round Let_def flip: w1_def)
    next
      case Wait_error
      then show ?thesis using False w1 by (simp add: round Let_def flip: w1_def)
    qed
  qed
qed simp

lemma open_sound:
  assumes "sound F w" and "open_fd w = (fd, w')"
  shows "sound (insert fd F) w'" and "fd \<notin> set (w_open w)" and "0 \<le> fd" and "w_server w' = w_server w"
proof -
  have w': "w' = w\<lparr>w_open := fd # w_open w\<rparr>" and fd: "fd = lowest_fd (w_open w)" using assms(2) by (auto simp: open_fd_def Let_def)
  show free: "fd \<notin> set (w_open w)" "0 \<le> fd" using lowest_fd_free [of "w_open w"] by (simp_all add: fd)
  obtain ns where ns: "conns w ns" "db_ok w" using assms(1) by (auto simp: sound_def world_inv_def)
  then have "conns w' ns" using free unfolding conns_def w' by auto
  moreover have "db_ok w'" using db_ok_cong [of w' w] ns(2) by (simp add: w')
  moreover have "strays w' = insert fd (strays w)" using ns(1) free by (auto simp: strays_def fds_of_def conns_def w')
  ultimately show "sound (insert fd F) w'" using assms(1) by (auto simp: sound_def world_inv_def w_safe_def w')
  show "w_server w' = w_server w" by (simp add: w')
qed

lemma close_sound:
  assumes "sound F w" and "fd \<in> F" and "fd \<noteq> sv_fd (w_server w)"
  shows "sound (F - {fd}) (close_fd fd w)" and "w_server (close_fd fd w) = w_server w"
proof -
  obtain ns where ns: "conns w ns" "db_ok w" using assms(1) by (auto simp: sound_def world_inv_def)
  have st: "fd \<in> strays w" using assms(1,2) by (simp add: sound_def)
  then have "cl_fd c \<noteq> fd" if "w_clients w p = Some c" for p c using that by (auto simp: strays_iff dest: spec [of _ p])
  then have "conns (close_fd fd w) ns" using ns(1) assms(3) unfolding conns_def close_fd_def by auto
  moreover have "db_ok (close_fd fd w)" using db_ok_cong [of "close_fd fd w" w] ns(2) by (simp add: close_fd_def)
  moreover have "strays (close_fd fd w) = strays w - {fd}" using ns(1) by (auto simp: strays_def fds_of_def conns_def close_fd_def)
  ultimately show "sound (F - {fd}) (close_fd fd w)" using assms(1) by (auto simp: sound_def world_inv_def w_safe_def close_fd_def)
  show "w_server (close_fd fd w) = w_server w" by (simp add: close_fd_def)
qed

lemma run_event_loop_sound:
  assumes "sound F w" and "sv_fd (w_server w) \<in> F" and "kernel_rounds rounds (enter_loop timer w)"
  shows "ensures (run_event_loop create add timer rounds w) (\<lambda>(_, w'). sound F w' \<and> sv_fd (w_server w') = sv_fd (w_server w))"
proof -
  obtain epfd w1 where o: "open_fd w = (epfd, w1)" by (meson surj_pair)
  note s1 = open_sound [OF assms(1) o]
  have "F \<subseteq> set (w_open w)" using assms(1) by (auto simp: sound_def strays_def)
  then have e: "epfd \<notin> F" "epfd \<noteq> sv_fd (w_server w)" using s1(2) assms(2) by auto
  have finish: "sound F (close_fd epfd w')" if "sound (insert epfd F) w'" "sv_fd (w_server w') = sv_fd (w_server w)" for w'
    using close_sound(1) [OF that(1), of epfd] that(2) e by simp
  obtain tfd w2 where t: "(if timer then open_fd w1 else (-1, w1)) = (tfd, w2)" by (meson surj_pair)
  define F2 where "F2 = (if timer then insert tfd (insert epfd F) else insert epfd F)"
  have w2: "sound F2 w2" "w_server w2 = w_server w" "timer \<Longrightarrow> tfd \<notin> set (w_open w1)" "0 \<le> tfd \<longleftrightarrow> timer"
    using t s1(1,4) open_sound [of "insert epfd F" w1 tfd w2] by (auto simp: F2_def split: if_splits)
  have "insert epfd F \<subseteq> set (w_open w1)" using s1(1) by (auto simp: sound_def strays_def)
  then have tf: "timer \<Longrightarrow> tfd \<notin> insert epfd F" using w2(3) by auto
  then have ts: "timer \<Longrightarrow> tfd \<noteq> sv_fd (w_server w)" using assms(2) by auto
  have "enter_loop timer w = w2" using o t by (auto simp: enter_loop_def split: if_splits)
  then have r: "ensures (event_rounds rounds w2) (\<lambda>w'. sound F2 w' \<and> sv_fd (w_server w') = sv_fd (w_server w))"
    using event_rounds_step [OF w2(1)] assms(3) w2(2) by simp
  have "sound (insert epfd F) (if tfd \<ge> 0 then close_fd tfd w' else w') \<and> sv_fd (w_server (if tfd \<ge> 0 then close_fd tfd w' else w')) = sv_fd (w_server w)"
    if "sound F2 w'" "sv_fd (w_server w') = sv_fd (w_server w)" for w'
    using close_sound [OF that(1), of tfd] that tf ts w2(4) by (auto simp: F2_def)
  then have "ensures (and_then (event_rounds rounds w2) (\<lambda>w. let w = (if tfd \<ge> 0 then close_fd tfd w else w) in Inr (0 :: int, close_fd epfd w)))
      (\<lambda>(_, w'). sound F w' \<and> sv_fd (w_server w') = sv_fd (w_server w))"
    using finish by (intro ensures_then [OF r]) (simp add: Let_def close_fd_def)
  then show ?thesis using o t assms(1) finish [OF s1(1)] s1(4) by (simp add: run_event_loop_def close_fd_def)
qed


text \<open>A run that listens on port 7 and ends by a signal.\<close>

definition idle_process :: world where
  "idle_process = \<lparr>w_clients = Map.empty, w_next = 0, w_list = None, w_nodes = \<lparr>nh_cells = Map.empty, nh_next = 0\<rparr>,
     w_open = [0, 1, 2], w_database = None, w_server = zero_server, w_env = quiet_env, w_cursor = 0, w_shutdown = False,
     w_recvs = [], w_accepts = [], w_timers = [], w_ctls = [], w_watch = []\<rparr>"

definition willing_kernel :: kernel where
  "willing_kernel = \<lparr>kn_child = True, kn_setsid = True, kn_dev_null = True, kn_socket = True, kn_pton = (\<lambda>_. True),
     kn_bind_inet = (\<lambda>_ _. True), kn_mkdir = True, kn_bind_unix = (\<lambda>_. True), kn_chmod = (\<lambda>_. True), kn_listen = (\<lambda>_. True)\<rparr>"

definition port_7 :: "bytes list" where
  "port_7 = [bytes_of_string ''fkvs-server'', bytes_of_string ''--port'', [55]]"

lemma idle_process_fresh: "fresh_process idle_process" "w_safe idle_process"
  by (simp_all add: fresh_process_def idle_process_def w_safe_def clock_ok_def reading_ok_def)

lemma configure_idle:
  "\<exists>w1. configure (\<lambda>_. Some []) 42 0 port_7 idle_process = Inr w1 \<and> sv_port (w_server w1) = 7 \<and> \<not> sv_daemonize (w_server w1)
    \<and> sv_socket_domain (w_server w1) = TCP_IP"
proof -
  have "strtol [55] = 7" by (simp add: strtol_def isspace_def digits_value_def digit_value_def)
  then have "apply_options port_7 srv = Inr (srv\<lparr>sv_port := 7\<rparr>)" for srv
    by (simp add: port_7_def bytes_of_string_def to_int_def)
  moreover have "length port_7 = 3" by (simp add: port_7_def)
  ultimately show ?thesis
    by (simp add: configure_def load_server_config_def config_loop.simps [of "[]"] Let_def init_counter_def env_alloc_def
      idle_process_def zero_server_def on_ok_def)
qed

lemma start_up_idle: "\<exists>w0. start_up willing_kernel (\<lambda>_. Some []) 42 0 port_7 idle_process = Inr (Inr w0)"
proof -
  obtain w1 where c: "configure (\<lambda>_. Some []) 42 0 port_7 idle_process = Inr w1" "sv_port (w_server w1) = 7"
    "\<not> sv_daemonize (w_server w1)" "sv_socket_domain (w_server w1) = TCP_IP" using configure_idle by blast
  let ?w = "setup_client_list w1"
  have srv: "w_server ?w = w_server w1" by (simp add: setup_client_list_def split: prod.splits)
  have st: "starting {0, 1, 2} ?w"
    using setup_list_starting(1) [OF configure_starting [OF idle_process_fresh c(1)]] by (simp add: idle_process_def)
  obtain fd w2 where o: "open_fd ?w = (fd, w2)" by (meson surj_pair)
  have fd: "0 \<le> fd" "w_server w2 = w_server w1" using open_starting [OF st o] srv by simp_all
  have "\<exists>w3. listen_socket willing_kernel ?w = (fd, w3)"
    using c(2,4) fd srv by (simp add: listen_socket_def start_server_def willing_kernel_def o set_server_fd_def Let_def)
  then obtain w3 where l: "listen_socket willing_kernel ?w = (fd, w3)" by blast
  then obtain w4 where "create_database w3 = Inr w4"
    using listen_starting [OF st l] create_database_ok [of "insert fd {0, 1, 2}" w3] fd(1) by auto
  then show ?thesis using c l fd(1) by (simp add: start_up_def on_ok_def)
qed


end
