(* ===== verification/Spec2Isabelle.thy ===== *)
theory Spec2Isabelle
  imports Kqueue Io_Uring Client_Commands Startup
begin

text \<open>
  FKVS, a key-value server in C.
\<close>

section \<open>From the command line to the database and back\<close>

text \<open>C1: What is typed is what is served and what is shown.  Take any request but INFO and KEYS and
  any line that writes it.  The client sends a frame; the dispatcher of the server, given
  this frame, changes the database as the abstract command does; and when the connection
  holds, the bytes it queues make the client print exactly the abstract command's reply,
  however the network cuts the stream, and leave what follows unread.\<close>

theorem typed_command_served_and_shown:
  assumes "writes (hd (words_of r)) args line r" and "ctx_inv cx" and "cx_safe cx"
    and "spec_step r (cx_now cx) (cx_later cx) (db_view cx) = Some (resp, a)"
    and "se_fd s > 0" and "alloc_safe (se_allocs s)" and "se_sends s = []" and "length (se_buffer s) = FKVS_CLIENT_READ_BUFFER_SIZE"
    and "response_size resp + 5 \<le> FKVS_CLIENT_READ_BUFFER_SIZE"
  shows "\<exists>frame cx'. dispatch_command command_handlers frame (length frame) cx = Some cx' \<and> ctx_inv cx' \<and> db_view cx' = a
    \<and> (cl_write_failed (cx_client cx') \<or>
       (\<exists>reply. out_stream (cx_client cx') = out_stream (cx_client cx) @ reply
          \<and> (\<forall>rs rest. stream_of rs = Some (reply @ rest) \<longrightarrow>
              (\<exists>s'. execute_command line command_response_handler (s\<lparr>se_recvs := rs\<rparr>) = Some s'
                \<and> se_sent s' = se_sent s @ frame \<and> stream_of (se_recvs s') = Some rest
                \<and> se_out s' = se_out s @ print_response (response_of resp) (se_benchmark_mode s)))))"
proof -
  let ?frame = "request_frame r" and ?reply = "encode_response resp"
  have fits: "request_fits r" using assms(1) by (cases r) (simp_all add: writes_def words_of_def request_fits_def)
  from serve_exact [OF assms(2,3) fits assms(4)] obtain cx' where
    cx': "dispatch_command command_handlers ?frame (length ?frame) cx = Some cx'" "ctx_inv cx'" "db_view cx' = a"
      "replies resp (cx_client cx) (cx_client cx')" by blast
  have "fit resp = resp" using assms(9) by (simp add: fit_def)
  then have d: "cl_write_failed (cx_client cx') \<or> out_stream (cx_client cx') = out_stream (cx_client cx) @ ?reply"
    using cx'(4) by (auto simp: replies_def delivers_def split: if_splits)
  obtain al where c: "construct r (se_allocs s) = (Some ?frame, al)"
    using alloc_safeD [OF assms(6)] by (cases "alloc (se_allocs s)") (auto simp: construct_frame malloc_frame_def)
  have len: "length ?reply \<le> FKVS_CLIENT_READ_BUFFER_SIZE" using encode_response_size(2) [of resp] assms(9) by simp
  have "\<exists>s'. execute_command line command_response_handler (s\<lparr>se_recvs := rs\<rparr>) = Some s'
      \<and> se_sent s' = se_sent s @ ?frame \<and> stream_of (se_recvs s') = Some rest
      \<and> se_out s' = se_out s @ print_response (response_of resp) (se_benchmark_mode s)" if "stream_of rs = Some (?reply @ rest)" for rs rest
  proof -
    let ?s = "s\<lparr>se_recvs := rs, se_allocs := al, se_sent := se_sent s @ ?frame\<rparr>"
    have "execute_command line command_response_handler (s\<lparr>se_recvs := rs\<rparr>) = command_response_handler ?s"
      using line_sends_request [OF assms(1), of "s\<lparr>se_recvs := rs\<rparr>" ?frame al] c assms(5,7) by (simp add: send_bytes_def)
    then show ?thesis using handler_shows_response [of ?s resp rest] that len assms(8,9) by auto
  qed
  then show ?thesis using cx'(1-3) d by blast
qed

theorem typed_command_served_and_shown_witness:
  "\<exists>frame cx'. dispatch_command command_handlers frame (length frame) key_ctx = Some cx'
    \<and> (cl_write_failed (cx_client cx') \<or>
       (\<exists>reply. out_stream (cx_client cx') = reply
          \<and> (\<forall>rs rest. stream_of rs = Some (reply @ rest) \<longrightarrow>
              (\<exists>s'. execute_command (bytes_of_string ''GET k'') command_response_handler (new_session\<lparr>se_recvs := rs\<rparr>) = Some s'
                \<and> se_sent s' = frame \<and> stream_of (se_recvs s') = Some rest \<and> se_out s' = [34, 118, 34, 32, 10]))))"
proof -
  have w: "writes (hd (words_of (Req_get [107]))) [([32], Plain, [107])] (bytes_of_string ''GET k'') (Req_get [107])"
    by (simp add: writes_def words_of_def line_ok_def line_text_def bytes_of_string_def isspace_def)
  have s: "spec_step (Req_get [107]) (cx_now key_ctx) (cx_later key_ctx) (db_view key_ctx) =
      Some (Resp_value [118], db_view key_ctx)"
    by (simp add: spec_get_def key_ctx_ok a_expire_def a_late_def)
  have n: "se_fd new_session > 0" "alloc_safe (se_allocs new_session)" "se_sends new_session = []"
    "length (se_buffer new_session) = FKVS_CLIENT_READ_BUFFER_SIZE" "se_sent new_session = []" "se_out new_session = []"
    "\<not> se_benchmark_mode new_session" by (simp_all add: new_session_def)
  have o: "out_stream (cx_client key_ctx) = []" by (simp add: key_ctx_ok fresh_client_def out_stream_def)
  have p: "print_response (response_of (Resp_value [118])) False = [34, 118, 34, 32, 10]"
    by (simp add: print_response_def print_quoted_payload_def bounded_text_def)
  show ?thesis using typed_command_served_and_shown [OF w key_ctx_ok(1,2) s n(1-4)] n(5-7) o p by auto
qed

end
